(* ===== verification/Prelude.thy ===== *)
theory Prelude
  imports Main "HOL-Library.Word"
begin

text \<open>
  Shared vocabulary of the development: the machine integers of the C sources, the result
  type of a kernel operation (every \<open>panic\<close> and every point where a process has to sleep is a
  value), a state monad over it with its weakest-precondition style rules, and the generic facts
  on lists and words that several components need.
\<close>

section \<open>Machine integers and constants\<close>

text \<open>\<open>types.h\<close>: \<open>uint\<close>, \<open>ushort\<close> and \<open>uchar\<close>.\<close>

type_synonym uint = "32 word"
type_synonym ushort = "16 word"
type_synonym uchar = "8 word"

named_theorems kmonad_simps \<open>unfolding rules of the kernel monad\<close>
named_theorems hoare_rules \<open>proof rules for total kernel triples\<close>
named_theorems param_defs \<open>numeric values of the constants of param.h, fs.h and mmu.h\<close>

section \<open>Kernel computations\<close>

text \<open>
  A kernel computation either returns a value and a new state, or stops: \<open>Panic\<close> carries the
  message of the \<open>panic\<close> call, \<open>Sleeps\<close> says that the process would have to sleep (or spin)
  here because of what other processes hold in the given state, \<open>Diverges\<close> that a loop of the
  code does not end, \<open>Undef\<close> that the code does something C leaves undefined (an access outside an
  array).
\<close>

datatype stop = Panic string | Sleeps string | Diverges | Undef string

type_synonym ('s, 'a) kern = "'s \<Rightarrow> stop + 'a \<times> 's"

definition kret :: "'a \<Rightarrow> ('s, 'a) kern" where
  "kret x = (\<lambda>s. Inr (x, s))"

definition kbind :: "('s, 'a) kern \<Rightarrow> ('a \<Rightarrow> ('s, 'b) kern) \<Rightarrow> ('s, 'b) kern" where
  "kbind m f = (\<lambda>s. case m s of Inl e \<Rightarrow> Inl e | Inr (x, t) \<Rightarrow> f x t)"

definition kthen :: "('s, 'a) kern \<Rightarrow> ('s, 'b) kern \<Rightarrow> ('s, 'b) kern" where
  "kthen m n = kbind m (\<lambda>_. n)"

definition kpanic :: "string \<Rightarrow> ('s, 'a) kern" where
  "kpanic msg = (\<lambda>s. Inl (Panic msg))"

definition ksleep :: "string \<Rightarrow> ('s, 'a) kern" where
  "ksleep chan = (\<lambda>s. Inl (Sleeps chan))"

definition kundef :: "string \<Rightarrow> ('s, 'a) kern" where
  "kundef what = (\<lambda>s. Inl (Undef what))"

definition kget :: "('s \<Rightarrow> 'a) \<Rightarrow> ('s, 'a) kern" where
  "kget f = (\<lambda>s. Inr (f s, s))"

definition kmod :: "('s \<Rightarrow> 's) \<Rightarrow> ('s, unit) kern" where
  "kmod f = (\<lambda>s. Inr ((), f s))"

text \<open>A \<open>for\<close> loop over the indices of a list, without early exit.\<close>

fun kfor :: "'i list \<Rightarrow> ('i \<Rightarrow> ('s, unit) kern) \<Rightarrow> ('s, unit) kern" where
  "kfor [] f = kret ()"
| "kfor (i # is) f = kthen (f i) (kfor is f)"

lemma kret_apply [kmonad_simps]: "kret x s = Inr (x, s)"
  by (simp add: kret_def)

lemma kpanic_apply [kmonad_simps]: "kpanic msg s = Inl (Panic msg)"
  by (simp add: kpanic_def)

lemma ksleep_apply [kmonad_simps]: "ksleep ch s = Inl (Sleeps ch)"
  by (simp add: ksleep_def)

lemma kundef_apply [kmonad_simps]: "kundef w s = Inl (Undef w)"
  by (simp add: kundef_def)

lemma kget_apply [kmonad_simps]: "kget f s = Inr (f s, s)"
  by (simp add: kget_def)

lemma kmod_apply [kmonad_simps]: "kmod f s = Inr ((), f s)"
  by (simp add: kmod_def)

lemma kbind_Inr [kmonad_simps]: "m s = Inr (x, t) \<Longrightarrow> kbind m f s = f x t"
  by (simp add: kbind_def)

lemma kbind_Inl [kmonad_simps]: "m s = Inl e \<Longrightarrow> kbind m f s = Inl e"
  by (simp add: kbind_def)

lemma kthen_Inr [kmonad_simps]: "m s = Inr (x, t) \<Longrightarrow> kthen m n s = n t"
  by (simp add: kthen_def kbind_def)

lemma kthen_Inl [kmonad_simps]: "m s = Inl e \<Longrightarrow> kthen m n s = Inl e"
  by (simp add: kthen_def kbind_def)

lemma kbind_eq_Inr:
  "kbind m f s = Inr r \<longleftrightarrow> (\<exists>x t. m s = Inr (x, t) \<and> f x t = Inr r)"
  by (auto simp: kbind_def split: sum.splits)

lemma kthen_eq_Inr:
  "kthen m n s = Inr r \<longleftrightarrow> (\<exists>x t. m s = Inr (x, t) \<and> n t = Inr r)"
  by (auto simp: kthen_def kbind_eq_Inr)

lemma kbind_assoc: "kbind (kbind m f) g = kbind m (\<lambda>x. kbind (f x) g)"
  by (rule ext) (simp add: kbind_def split: sum.splits)

lemma kbind_kret [simp]: "kbind (kret x) f = f x"
  by (rule ext) (simp add: kbind_def kret_def)

lemma kbind_right_unit [simp]: "kbind m kret = m"
  by (rule ext) (simp add: kbind_def kret_def split: sum.splits)

lemma kbind_cong [fundef_cong]:
  assumes "m s = m' s'" and "\<And>x t. m' s' = Inr (x, t) \<Longrightarrow> f x t = f' x t"
  shows "kbind m f s = kbind m' f' s'"
  using assms by (auto simp: kbind_def split: sum.splits)

section \<open>Total triples\<close>

text \<open>
  \<open>runs P m Q\<close>: from every state satisfying \<open>P\<close>, \<open>m\<close> returns (no panic, no sleep), and result
  and final state satisfy \<open>Q\<close>.  \<open>keeps P m Q\<close> only speaks of the runs that return.
\<close>

definition runs :: "('s \<Rightarrow> bool) \<Rightarrow> ('s, 'a) kern \<Rightarrow> ('a \<Rightarrow> 's \<Rightarrow> bool) \<Rightarrow> bool" where
  "runs P m Q \<longleftrightarrow> (\<forall>s. P s \<longrightarrow> (\<exists>x t. m s = Inr (x, t) \<and> Q x t))"

definition keeps :: "('s \<Rightarrow> bool) \<Rightarrow> ('s, 'a) kern \<Rightarrow> ('a \<Rightarrow> 's \<Rightarrow> bool) \<Rightarrow> bool" where
  "keeps P m Q \<longleftrightarrow> (\<forall>s x t. P s \<longrightarrow> m s = Inr (x, t) \<longrightarrow> Q x t)"

lemma runsD: "runs P m Q \<Longrightarrow> P s \<Longrightarrow> \<exists>x t. m s = Inr (x, t) \<and> Q x t"
  by (simp add: runs_def)

lemma keepsD: "keeps P m Q \<Longrightarrow> P s \<Longrightarrow> m s = Inr (x, t) \<Longrightarrow> Q x t"
  by (simp add: keeps_def)

lemma runs_keeps: "runs P m Q \<Longrightarrow> keeps P m Q"
  by (fastforce simp: runs_def keeps_def)

lemma runs_kbind [hoare_rules]:
  assumes "runs P m R" and "\<And>x. runs (R x) (f x) Q"
  shows "runs P (kbind m f) Q"
proof (unfold runs_def, intro allI impI)
  fix s assume "P s"
  with assms(1) obtain x t where m: "m s = Inr (x, t)" and "R x t" by (auto dest: runsD)
  with assms(2) obtain y u where "f x t = Inr (y, u)" and "Q y u" by (blast dest: runsD)
  with m show "\<exists>y u. kbind m f s = Inr (y, u) \<and> Q y u" by (simp add: kbind_Inr)
qed

lemma runs_kthen [hoare_rules]:
  assumes "runs P m (\<lambda>_. R)" and "runs R n Q"
  shows "runs P (kthen m n) Q"
  unfolding kthen_def using assms by (rule runs_kbind)

lemma keeps_kbind [hoare_rules]:
  assumes "keeps P m R" and "\<And>x. keeps (R x) (f x) Q"
  shows "keeps P (kbind m f) Q"
  using assms by (fastforce simp: keeps_def kbind_eq_Inr)

lemma keeps_kthen [hoare_rules]:
  assumes "keeps P m (\<lambda>_. R)" and "keeps R n Q"
  shows "keeps P (kthen m n) Q"
  unfolding kthen_def using assms by (rule keeps_kbind)

lemma runs_conseq:
  assumes "runs P' m Q'" and "\<And>s. P s \<Longrightarrow> P' s" and "\<And>x s. Q' x s \<Longrightarrow> Q x s"
  shows "runs P m Q"
  using assms by (fastforce simp: runs_def)

lemma keeps_conseq:
  assumes "keeps P' m Q'" and "\<And>s. P s \<Longrightarrow> P' s" and "\<And>x s. Q' x s \<Longrightarrow> Q x s"
  shows "keeps P m Q"
  using assms by (fastforce simp: keeps_def)

lemma runs_kret: "(\<And>s. P s \<Longrightarrow> Q x s) \<Longrightarrow> runs P (kret x) Q"
  by (simp add: runs_def kret_def)

lemma runs_kget: "(\<And>s. P s \<Longrightarrow> Q (f s) s) \<Longrightarrow> runs P (kget f) Q"
  by (simp add: runs_def kget_def)

lemma runs_kmod: "(\<And>s. P s \<Longrightarrow> Q () (f s)) \<Longrightarrow> runs P (kmod f) Q"
  by (simp add: runs_def kmod_def)

text \<open>The rule of the counted loop: an invariant indexed by what is left to do.\<close>

lemma runs_kfor:
  assumes "\<And>pre i post. is = pre @ i # post \<Longrightarrow> runs (I pre) (f i) (\<lambda>_. I (pre @ [i]))"
  shows "runs (I []) (kfor is f) (\<lambda>_. I is)"
proof -
  have "is = pre @ post \<Longrightarrow> runs (I pre) (kfor post f) (\<lambda>_. I is)" for pre post
  proof (induction post arbitrary: pre)
    case Nil
    then show ?case by (simp add: runs_kret)
  next
    case (Cons i post)
    then show ?case
      using assms [of pre i post] by (auto intro!: runs_kthen)
  qed
  from this [of "[]" "is"] show ?thesis by simp
qed

lemma kfor_append: "kfor (xs @ ys) f = kthen (kfor xs f) (kfor ys f)"
  by (induction xs) (auto simp: kthen_def kbind_assoc)

lemma kfor_kmod: "kfor ps (\<lambda>p. kmod (f p)) s = Inr ((), fold f ps s)"
  by (induction ps arbitrary: s) (simp_all add: kmonad_simps)

section \<open>Frames\<close>

text \<open>\<open>leaves f m\<close>: a run of \<open>m\<close> that returns does not change the part \<open>f\<close> of the state.\<close>

definition leaves :: "('s \<Rightarrow> 'b) \<Rightarrow> ('s, 'a) kern \<Rightarrow> bool" where
  "leaves f m \<longleftrightarrow> (\<forall>s x t. m s = Inr (x, t) \<longrightarrow> f t = f s)"

named_theorems leaves_rules \<open>introduction rules for frames\<close>

lemma leavesD: "leaves f m \<Longrightarrow> m s = Inr (x, t) \<Longrightarrow> f t = f s"
  by (auto simp: leaves_def)

lemma leavesI: "(\<And>s x t. m s = Inr (x, t) \<Longrightarrow> f t = f s) \<Longrightarrow> leaves f m"
  by (auto simp: leaves_def)

lemma leaves_kret [leaves_rules]: "leaves f (kret x)"
  by (simp add: leaves_def kret_def)

lemma leaves_kpanic [leaves_rules]: "leaves f (kpanic msg)"
  by (simp add: leaves_def kpanic_def)

lemma leaves_ksleep [leaves_rules]: "leaves f (ksleep ch)"
  by (simp add: leaves_def ksleep_def)

lemma leaves_kundef [leaves_rules]: "leaves f (kundef w)"
  by (simp add: leaves_def kundef_def)

lemma leaves_Inl [leaves_rules]: "leaves f (\<lambda>s. Inl e)"
  by (simp add: leaves_def)

lemma leaves_kget [leaves_rules]: "leaves f (kget g)"
  by (simp add: leaves_def kget_def)

lemma leaves_kmod: "(\<And>s. f (g s) = f s) \<Longrightarrow> leaves f (kmod g)"
  by (simp add: leaves_def kmod_def)

lemma leaves_kbind [leaves_rules]: "leaves f m \<Longrightarrow> (\<And>x. leaves f (g x)) \<Longrightarrow> leaves f (kbind m g)"
  by (simp add: leaves_def kbind_eq_Inr) metis

lemma leaves_kthen [leaves_rules]: "leaves f m \<Longrightarrow> leaves f n \<Longrightarrow> leaves f (kthen m n)"
  by (simp add: kthen_def leaves_kbind)

lemma leaves_kfor [leaves_rules]: "(\<And>i. leaves f (g i)) \<Longrightarrow> leaves f (kfor is g)"
  by (induction "is") (auto intro: leaves_rules)

lemma leaves_if [leaves_rules]: "(P \<Longrightarrow> leaves f m) \<Longrightarrow> (\<not> P \<Longrightarrow> leaves f n) \<Longrightarrow> leaves f (if P then m else n)"
  by simp

lemma leaves_option [leaves_rules]:
  "leaves f m \<Longrightarrow> (\<And>x. leaves f (g x)) \<Longrightarrow> leaves f (case r of None \<Rightarrow> m | Some x \<Rightarrow> g x)"
  by (simp split: option.split)

lemma leaves_prod [leaves_rules]: "(\<And>x y. leaves f (g x y)) \<Longrightarrow> leaves f (case r of (x, y) \<Rightarrow> g x y)"
  by (simp split: prod.split)

lemma leaves_nat [leaves_rules]:
  "leaves f m \<Longrightarrow> (\<And>k. leaves f (g k)) \<Longrightarrow> leaves f (case n of 0 \<Rightarrow> m | Suc k \<Rightarrow> g k)"
  by (simp split: nat.split)

lemma leaves_let [leaves_rules]: "(\<And>x. x = e \<Longrightarrow> leaves f (g x)) \<Longrightarrow> leaves f (let x = e in g x)"
  by simp

section \<open>Lists\<close>

lemma find_SomeD: "find P xs = Some x \<Longrightarrow> x \<in> set xs \<and> P x"
  by (induction xs) (auto split: if_splits)

lemma find_unique:
  "b \<in> set xs \<Longrightarrow> P b \<Longrightarrow> (\<And>c. c \<in> set xs \<Longrightarrow> P c \<Longrightarrow> c = b) \<Longrightarrow> find P xs = Some b"
proof (induction xs)
  case (Cons a xs)
  show ?case
  proof (cases "P a")
    case True
    with Cons.prems(3) [of a] show ?thesis by simp
  next
    case False
    with Cons.prems(1,2) have "b \<in> set xs" by auto
    then have "find P xs = Some b" by (rule Cons.IH) (use Cons.prems(2,3) in simp_all)
    with False show ?thesis by simp
  qed
qed simp

section \<open>Words\<close>

lemma unat_uint_bound: "unat (x :: uint) < 4294967296"
  using unsigned_less [of x] by simp

lemma uint_offset_inj:
  "i < 4294967296 \<Longrightarrow> j < 4294967296 \<Longrightarrow> ((a::uint) + of_nat i = a + of_nat j) = (i = j)"
  by (simp add: word_of_nat_eq_iff take_bit_nat_eq_self)

lemma unat_minus_step: "(x::uint) \<noteq> 0 \<Longrightarrow> unat x = Suc (unat (x - 1))"
  by (simp add: unat_minus_one) (metis Suc_pred unat_gt_0)

lemma unat_minus_1: "unat (-1 :: uint) = 4294967295"
  by (simp add: unsigned_minus_1_eq_mask mask_eq_exp_minus_1)

section \<open>Transition systems and their invariants\<close>

text \<open>
  A concurrent component is a set of initial states and a step relation; the contract of its
  steps is an invariant that holds initially and that every step keeps.
\<close>

inductive reach :: "('s \<Rightarrow> bool) \<Rightarrow> ('s \<Rightarrow> 's \<Rightarrow> bool) \<Rightarrow> 's \<Rightarrow> bool"
  for init :: "'s \<Rightarrow> bool" and step :: "'s \<Rightarrow> 's \<Rightarrow> bool" where
  reach_init: "init s \<Longrightarrow> reach init step s"
| reach_step: "reach init step s \<Longrightarrow> step s t \<Longrightarrow> reach init step t"

locale step_invariant =
  fixes init :: "'s \<Rightarrow> bool" and step :: "'s \<Rightarrow> 's \<Rightarrow> bool" and inv :: "'s \<Rightarrow> bool"
  assumes inv_init: "init s \<Longrightarrow> inv s"
    and inv_step: "step s t \<Longrightarrow> inv s \<Longrightarrow> inv t"
begin

lemma reach_inv: "reach init step s \<Longrightarrow> inv s"
  by (induction rule: reach.induct) (auto intro: inv_init inv_step)

lemma steps_inv: "step\<^sup>*\<^sup>* s t \<Longrightarrow> inv s \<Longrightarrow> inv t"
  by (induction rule: rtranclp_induct) (auto intro: inv_step)

end

end
