(* ===== verification/CString.thy ===== *)
theory CString
  imports Prelude
begin

text \<open>
  The byte-string routines of the kernel (\<open>string.c\<close>), the \<open>rep stos\<close> helpers of \<open>x86.h\<close> they
  use, and the string routines of the user library (\<open>ulib.c\<close>), on a byte-addressed 32-bit memory.
  Pointers are \<open>uint\<close>s, so pointer arithmetic wraps as it does on the machine.  A loop whose end
  depends on a NUL byte in memory is a \<open>partial_function (option)\<close>: not returning is \<open>None\<close>.
\<close>

type_synonym mem = "uint \<Rightarrow> uchar"

section \<open>Definitions\<close>

subsection \<open>x86.h: little-endian words and the string instructions\<close>

definition store32 :: "mem \<Rightarrow> uint \<Rightarrow> uint \<Rightarrow> mem" where
  "store32 m a w = m(a := ucast w, a + 1 := ucast (drop_bit 8 w),
     a + 2 := ucast (drop_bit 16 w), a + 3 := ucast (drop_bit 24 w))"

definition load32 :: "mem \<Rightarrow> uint \<Rightarrow> uint" where
  "load32 m a = or (ucast (m a)) (or (push_bit 8 (ucast (m (a + 1))))
     (or (push_bit 16 (ucast (m (a + 2)))) (push_bit 24 (ucast (m (a + 3))))))"

fun stosb :: "mem \<Rightarrow> uint \<Rightarrow> uint \<Rightarrow> nat \<Rightarrow> mem" where
  "stosb m a data 0 = m"
| "stosb m a data (Suc cnt) = stosb (m(a := ucast data)) (a + 1) data cnt"

fun stosl :: "mem \<Rightarrow> uint \<Rightarrow> uint \<Rightarrow> nat \<Rightarrow> mem" where
  "stosl m a data 0 = m"
| "stosl m a data (Suc cnt) = stosl (store32 m a data) (a + 4) data cnt"

subsection \<open>string.c\<close>

definition memset :: "mem \<Rightarrow> uint \<Rightarrow> uint \<Rightarrow> uint \<Rightarrow> mem" where
  "memset m dst c n =
     (if dst mod 4 = 0 \<and> n mod 4 = 0 then
        let c = and c 0xFF
        in stosl m dst (or (push_bit 24 c) (or (push_bit 16 c) (or (push_bit 8 c) c))) (unat (n div 4))
      else stosb m dst c (unat n))"

fun memcmp_loop :: "mem \<Rightarrow> uint \<Rightarrow> uint \<Rightarrow> nat \<Rightarrow> int" where
  "memcmp_loop m s1 s2 0 = 0"
| "memcmp_loop m s1 s2 (Suc n) =
     (if m s1 \<noteq> m s2 then uint (m s1) - uint (m s2) else memcmp_loop m (s1 + 1) (s2 + 1) n)"

definition memcmp :: "mem \<Rightarrow> uint \<Rightarrow> uint \<Rightarrow> uint \<Rightarrow> int" where
  "memcmp m v1 v2 n = memcmp_loop m v1 v2 (unat n)"

fun copy_up :: "mem \<Rightarrow> uint \<Rightarrow> uint \<Rightarrow> nat \<Rightarrow> mem" where
  "copy_up m d s 0 = m"
| "copy_up m d s (Suc n) = copy_up (m(d := m s)) (d + 1) (s + 1) n"

fun copy_down :: "mem \<Rightarrow> uint \<Rightarrow> uint \<Rightarrow> nat \<Rightarrow> mem" where
  "copy_down m d s 0 = m"
| "copy_down m d s (Suc n) = copy_down (m(d - 1 := m (s - 1))) (d - 1) (s - 1) n"

definition memmove :: "mem \<Rightarrow> uint \<Rightarrow> uint \<Rightarrow> uint \<Rightarrow> mem" where
  "memmove m d s n =
     (if s < d \<and> s + n > d then copy_down m (d + n) (s + n) (unat n)
      else copy_up m d s (unat n))"

definition memcpy :: "mem \<Rightarrow> uint \<Rightarrow> uint \<Rightarrow> uint \<Rightarrow> mem" where
  "memcpy m dst src n = memmove m dst src n"

fun strncmp_loop :: "mem \<Rightarrow> uint \<Rightarrow> uint \<Rightarrow> nat \<Rightarrow> int" where
  "strncmp_loop m p q 0 = 0"
| "strncmp_loop m p q (Suc n) =
     (if m p \<noteq> 0 \<and> m p = m q then strncmp_loop m (p + 1) (q + 1) n
      else uint (m p) - uint (m q))"

definition strncmp :: "mem \<Rightarrow> uint \<Rightarrow> uint \<Rightarrow> uint \<Rightarrow> int" where
  "strncmp m p q n = strncmp_loop m p q (unat n)"

fun strncpy_pad :: "mem \<Rightarrow> uint \<Rightarrow> nat \<Rightarrow> mem" where
  "strncpy_pad m s 0 = m"
| "strncpy_pad m s (Suc n) = strncpy_pad (m(s := 0)) (s + 1) n"

fun strncpy_loop :: "mem \<Rightarrow> uint \<Rightarrow> uint \<Rightarrow> nat \<Rightarrow> mem" where
  "strncpy_loop m s t 0 = m"
| "strncpy_loop m s t (Suc n) =
     (if m t \<noteq> 0 then strncpy_loop (m(s := m t)) (s + 1) (t + 1) n
      else strncpy_pad (m(s := m t)) (s + 1) n)"

definition strncpy :: "mem \<Rightarrow> uint \<Rightarrow> uint \<Rightarrow> int \<Rightarrow> mem" where
  "strncpy m s t n = strncpy_loop m s t (nat n)"

text \<open>The loop of \<open>safestrcpy\<close>; the last argument is the value of \<open>n\<close> after \<open>--n\<close>.\<close>

fun safestrcpy_loop :: "mem \<Rightarrow> uint \<Rightarrow> uint \<Rightarrow> nat \<Rightarrow> mem" where
  "safestrcpy_loop m s t 0 = m(s := 0)"
| "safestrcpy_loop m s t (Suc n) =
     (if m t \<noteq> 0 then safestrcpy_loop (m(s := m t)) (s + 1) (t + 1) n
      else m(s := m t, s + 1 := 0))"

definition safestrcpy :: "mem \<Rightarrow> uint \<Rightarrow> uint \<Rightarrow> int \<Rightarrow> mem" where
  "safestrcpy m s t n = (if n \<le> 0 then m else safestrcpy_loop m s t (nat (n - 1)))"

partial_function (option) strlen_loop :: "mem \<Rightarrow> uint \<Rightarrow> nat \<Rightarrow> nat option" where
  "strlen_loop m s n = (if m (s + of_nat n) \<noteq> 0 then strlen_loop m s (Suc n) else Some n)"

definition strlen :: "mem \<Rightarrow> uint \<Rightarrow> nat option" where
  "strlen m s = strlen_loop m s 0"

subsection \<open>ulib.c\<close>

partial_function (option) strcpy :: "mem \<Rightarrow> uint \<Rightarrow> uint \<Rightarrow> mem option" where
  "strcpy m s t =
     (if m t \<noteq> 0 then strcpy (m(s := m t)) (s + 1) (t + 1) else Some (m(s := m t)))"

partial_function (option) strcmp :: "mem \<Rightarrow> uint \<Rightarrow> uint \<Rightarrow> int option" where
  "strcmp m p q =
     (if m p \<noteq> 0 \<and> m p = m q then strcmp m (p + 1) (q + 1)
      else Some (uint (m p) - uint (m q)))"

definition memset_u :: "mem \<Rightarrow> uint \<Rightarrow> uint \<Rightarrow> uint \<Rightarrow> mem" where
  "memset_u m dst c n = stosb m dst c (unat n)"

partial_function (option) strchr :: "mem \<Rightarrow> uint \<Rightarrow> uchar \<Rightarrow> uint option" where
  "strchr m s c =
     (if m s \<noteq> 0 then (if m s = c then Some s else strchr m (s + 1) c) else Some 0)"

text \<open>\<open>n = n*10 + *s++ - '0'\<close> with a mathematical \<open>n\<close>: signed overflow is undefined in C.\<close>

partial_function (option) atoi_loop :: "mem \<Rightarrow> uint \<Rightarrow> int \<Rightarrow> int option" where
  "atoi_loop m s n =
     (if 48 \<le> m s \<and> m s \<le> 57 then atoi_loop m (s + 1) (n * 10 + uint (m s) - 48) else Some n)"

definition atoi :: "mem \<Rightarrow> uint \<Rightarrow> int option" where
  "atoi m s = atoi_loop m s 0"

definition memmove_u :: "mem \<Rightarrow> uint \<Rightarrow> uint \<Rightarrow> int \<Rightarrow> mem" where
  "memmove_u m vdst vsrc n = copy_up m vdst vsrc (nat n)"

text \<open>Copying bytes between a memory and a list.\<close>

definition write_mem :: "mem \<Rightarrow> uint \<Rightarrow> uchar list \<Rightarrow> mem" where
  "write_mem m a bs = (\<lambda>x. if unat (x - a) < length bs then bs ! unat (x - a) else m x)"

definition read_mem :: "mem \<Rightarrow> uint \<Rightarrow> nat \<Rightarrow> uchar list" where
  "read_mem m a n = map (\<lambda>i. m (a + of_nat i)) [0..<n]"

text \<open>A memory holds the C string \<open>xs\<close> at \<open>s\<close>.\<close>

definition cstr :: "mem \<Rightarrow> uint \<Rightarrow> uchar list \<Rightarrow> bool" where
  "cstr m s xs \<longleftrightarrow> 0 \<notin> set xs \<and> m (s + of_nat (length xs)) = 0 \<and>
     (\<forall>i < length xs. m (s + of_nat i) = xs ! i)"

text \<open>The number denoted by a list of decimal digits, most significant first.\<close>

definition digits_val :: "int \<Rightarrow> uchar list \<Rightarrow> int" where
  "digits_val n ds = foldl (\<lambda>n d. n * 10 + uint d - 48) n ds"

section \<open>Lemmas\<close>

lemma copy_up_spec:
  assumes "n < 4294967296" and "d = s \<or> n \<le> unat (d - s)"
  shows "copy_up m d s n x = (if unat (x - d) < n then m (s + (x - d)) else m x)"
  using assms
proof (induction n arbitrary: m d s x)
  case (Suc n)
  have IH: "copy_up m' (d + 1) (s + 1) n y =
      (if unat (y - (d + 1)) < n then m' (s + 1 + (y - (d + 1))) else m' y)" for m' y
    using Suc.prems by (intro Suc.IH) auto
  have off: "s + 1 + (x - (d + 1)) = s + (x - d)" "x - (d + 1) = x - d - 1" by simp_all
  show ?case
  proof (cases "x = d")
    case True
    with Suc.prems show ?thesis by (simp add: IH off unat_minus_1)
  next
    case False
    then have "x - d \<noteq> 0" by simp
    then have st: "unat (x - d) = Suc (unat (x - d - 1))" by (rule unat_minus_step)
    have ne: "s + (x - d) \<noteq> d" if "unat (x - d) < Suc n"
    proof
      assume eq: "s + (x - d) = d"
      then have e2: "x - d = d - s" by (simp add: algebra_simps)
      with Suc.prems(2) False have "Suc n \<le> unat (d - s)" by auto
      with that e2 show False by simp
    qed
    show ?thesis using False ne st by (simp add: IH off fun_upd_apply)
  qed
qed simp

lemma copy_down_spec:
  assumes "n < 4294967296" and "d = s \<or> n \<le> unat (s - d)"
  shows "copy_down m (d + of_nat n) (s + of_nat n) n x =
    (if unat (x - d) < n then m (s + (x - d)) else m x)"
  using assms
proof (induction n arbitrary: m x)
  case (Suc n)
  let ?m' = "m(d + of_nat n := m (s + of_nat n))"
  have IH: "copy_down ?m' (d + of_nat n) (s + of_nat n) n y =
      (if unat (y - d) < n then ?m' (s + (y - d)) else ?m' y)" for y
    using Suc.prems by (intro Suc.IH) auto
  have un: "unat (of_nat n :: uint) = n" using Suc.prems by (simp add: unat_of_nat take_bit_nat_eq_self)
  have step: "copy_down m (d + of_nat (Suc n)) (s + of_nat (Suc n)) (Suc n) x =
      copy_down ?m' (d + of_nat n) (s + of_nat n) n x"
    by (simp add: algebra_simps)
  show ?case
  proof (cases "x = d + of_nat n")
    case True
    then show ?thesis by (subst step, subst IH) (simp add: un)
  next
    case False
    then have "x - d \<noteq> of_nat n" by (auto simp: algebra_simps)
    then have ne1: "unat (x - d) \<noteq> n" using un by (metis word_unat_eq_iff)
    have ne: "s + (x - d) \<noteq> d + of_nat n" if "unat (x - d) < n"
    proof
      assume eq: "s + (x - d) = d + of_nat n"
      then have e2: "s - d = of_nat n - (x - d)" by (simp add: algebra_simps)
      have "x - d \<le> of_nat n" using that un by (simp add: word_le_nat_alt)
      then have "unat (s - d) = n - unat (x - d)" using un by (simp add: e2 unat_sub)
      moreover have "unat (s - d) \<noteq> 0 \<or> s = d" by (metis unat_eq_zero eq_iff_diff_eq_0)
      ultimately show False using Suc.prems(2) that by auto
    qed
    show ?thesis using False ne ne1 by (simp only: step IH) (auto simp: fun_upd_apply)
  qed
qed simp

lemma memmove_apply:
  assumes "unat s + unat n < 4294967296" and "unat d + unat n \<le> 4294967296"
  shows "memmove m d s n x = (if unat (x - d) < unat n then m (s + (x - d)) else m x)"
proof (cases "s < d \<and> s + n > d")
  case True
  then have lt: "unat s < unat d" and sn: "unat d < unat s + unat n"
    using assms(1) by (auto simp: word_less_nat_alt unat_add_lem [THEN iffD1])
  have "unat (s - d) = 4294967296 + unat s - unat d"
    using lt by (subst unat_sub_if') (simp add: not_le)
  then have "unat n \<le> unat (s - d)" using sn assms(2) lt by linarith
  moreover have "unat n < 4294967296" using assms(1) by linarith
  ultimately show ?thesis
    using copy_down_spec [of "unat n" d s m x] True by (simp add: memmove_def)
next
  case False
  then have c: "unat d \<le> unat s \<or> unat s + unat n \<le> unat d"
    using assms(1) by (auto simp: word_less_nat_alt unat_add_lem [THEN iffD1] not_less)
  have "d = s \<or> unat n \<le> unat (d - s)"
  proof (cases "unat s \<le> unat d")
    case True
    then have "unat (d - s) = unat d - unat s" by (simp add: unat_sub word_le_nat_alt)
    with True c show ?thesis by (auto simp: word_unat_eq_iff)
  next
    case f: False
    then have "unat (d - s) = 4294967296 + unat d - unat s"
      by (subst unat_sub_if') simp
    with f assms(1) show ?thesis by linarith
  qed
  moreover have "unat n < 4294967296" using assms(1) by linarith
  ultimately show ?thesis
    using copy_up_spec [of "unat n" d s m x] False by (auto simp: memmove_def)
qed

lemma stosb_apply:
  "n \<le> 4294967296 \<Longrightarrow> stosb m a c n x = (if unat (x - a) < n then ucast c else m x)"
proof (induction n arbitrary: m a)
  case (Suc n)
  then have IH: "stosb m' (a + 1) c n x = (if unat (x - (a + 1)) < n then ucast c else m' x)" for m'
    by (intro Suc.IH) simp
  show ?case
  proof (cases "x = a")
    case True
    with Suc.prems show ?thesis by (simp add: IH [unfolded True] unat_minus_1)
  next
    case False
    then have "unat (x - a) = Suc (unat (x - a - 1))" by (intro unat_minus_step) simp
    with False show ?thesis by (simp add: IH diff_diff_eq)
  qed
qed simp

lemma stosb_add: "stosb m a c (i + j) = stosb (stosb m a c i) (a + of_nat i) c j"
  by (induction i arbitrary: m a) (simp_all add: algebra_simps)

lemma strncpy_pad_stosb: "strncpy_pad m s n = stosb m s 0 n"
  by (induction n arbitrary: m s) simp_all

lemma store32_replicate:
  assumes "w = or (push_bit 24 c') (or (push_bit 16 c') (or (push_bit 8 c') c'))"
    and "c' = and c 0xFF"
  shows "store32 m a w = stosb m a c 4"
proof -
  have m4: "stosb m a c 4 = m(a := ucast c, a + 1 := ucast c, a + 2 := ucast c, a + 3 := ucast c)"
    by (simp add: eval_nat_numeral algebra_simps)
  have ff: "(0xFF :: uint) = mask 8" by (simp add: mask_eq_exp_minus_1)
  have "(ucast w :: uchar) = ucast c" "(ucast (drop_bit 8 w) :: uchar) = ucast c"
    "(ucast (drop_bit 16 w) :: uchar) = ucast c" "(ucast (drop_bit 24 w) :: uchar) = ucast c"
    unfolding assms ff by (rule bit_word_eqI, auto simp: bit_simps)+
  with m4 show ?thesis by (simp add: store32_def)
qed

lemma stosl_stosb:
  assumes "w = or (push_bit 24 c') (or (push_bit 16 c') (or (push_bit 8 c') c'))"
    and "c' = and c 0xFF"
  shows "stosl m a w k = stosb m a c (4 * k)"
proof (induction k arbitrary: m a)
  case (Suc k)
  then show ?case
    using stosb_add [of m a c 4 "4 * k"] by (simp add: store32_replicate [OF assms])
qed simp

lemma memset_stosb: "memset m dst c n = stosb m dst c (unat n)"
proof -
  have "4 * unat (n div 4) = unat n" if "n mod 4 = 0"
  proof -
    from that have "unat n mod unat (4 :: uint) = 0" by (metis unat_mod unat_0)
    then show ?thesis by (auto simp: unat_div)
  qed
  then show ?thesis
    unfolding memset_def Let_def stosl_stosb [OF refl refl] by auto
qed

text \<open>strncmp agrees with comparing the strings up to the first NUL.\<close>

lemma strncmp_loop_0:
  "strncmp_loop m p q n = 0 \<longleftrightarrow>
     (\<forall>i < n. (\<forall>j < i. m (p + of_nat j) \<noteq> 0) \<longrightarrow> m (p + of_nat i) = m (q + of_nat i))"
proof (induction n arbitrary: p q)
  case (Suc n)
  have sh: "(\<forall>i < Suc n. P i) \<longleftrightarrow> P 0 \<and> (\<forall>i < n. P (Suc i))" for P :: "nat \<Rightarrow> bool"
    by (metis All_less_Suc2)
  have sh2: "(\<forall>j < Suc i. P j) \<longleftrightarrow> P 0 \<and> (\<forall>j < i. P (Suc j))" for P :: "nat \<Rightarrow> bool" and i
    by (metis All_less_Suc2)
  show ?case
    by (subst sh) (auto simp: Suc.IH sh2 add.assoc simp flip: word_uint_eq_iff uint_0_iff)
qed simp

lemma cstr_Nil: "cstr m s [] \<longleftrightarrow> m s = 0"
  by (simp add: cstr_def)

lemma cstr_Cons: "cstr m s (y # ys) \<longleftrightarrow> m s = y \<and> y \<noteq> 0 \<and> cstr m (s + 1) ys"
  unfolding cstr_def by (auto simp: All_less_Suc2 add.assoc)

lemma cstr_upd:
  "cstr m t xs \<Longrightarrow> \<forall>j \<le> length xs. t + of_nat j \<noteq> s \<Longrightarrow> cstr (m(s := y)) t xs"
  unfolding cstr_def by auto

lemma strncpy_loop_apply:
  assumes "n < 4294967296" and "cstr m t xs"
    and "\<forall>j \<le> length xs. n \<le> unat (t + of_nat j - s)"
  shows "strncpy_loop m s t n x =
    (if unat (x - s) < n then (if unat (x - s) < length xs then xs ! unat (x - s) else 0) else m x)"
  using assms
proof (induction n arbitrary: m s t xs)
  case (Suc n)
  show ?case
  proof (cases xs)
    case Nil
    with Suc.prems have "m t = 0" by (simp add: cstr_def)
    then have "strncpy_loop m s t (Suc n) x = stosb m s 0 (Suc n) x"
      by (simp add: strncpy_pad_stosb)
    then show ?thesis using Suc.prems(1) Nil by (simp add: stosb_apply del: stosb.simps)
  next
    case (Cons y ys)
    then have y: "m t = y" "y \<noteq> 0" using Suc.prems(2) by (auto simp: cstr_def)
    have far: "t + of_nat j \<noteq> s" if "j \<le> length xs" for j
      using Suc.prems(3) that by force
    have c: "cstr (m(s := y)) (t + 1) ys"
      using Suc.prems(2) far cstr_upd [of m t xs s y] by (simp add: Cons cstr_Cons)
    have f: "\<forall>j \<le> length ys. n \<le> unat (t + 1 + of_nat j - (s + 1))"
    proof (intro allI impI)
      fix j assume "j \<le> length ys"
      then have "Suc n \<le> unat (t + of_nat j - s)" using Suc.prems(3) Cons by auto
      then show "n \<le> unat (t + 1 + of_nat j - (s + 1))" by (simp add: algebra_simps)
    qed
    have IH: "strncpy_loop (m(s := y)) (s + 1) (t + 1) n x =
        (if unat (x - (s + 1)) < n then (if unat (x - (s + 1)) < length ys
           then ys ! unat (x - (s + 1)) else 0) else (m(s := y)) x)"
      by (rule Suc.IH [OF _ c f]) (use Suc.prems(1) in simp)
    show ?thesis
    proof (cases "x = s")
      case True
      then show ?thesis using IH Suc.prems(1) y Cons by (simp add: unat_minus_1)
    next
      case False
      then have st: "unat (x - s) = Suc (unat (x - s - 1))" by (intro unat_minus_step) simp
      then show ?thesis using IH y Cons False by (simp add: diff_diff_eq)
    qed
  qed
qed simp

lemma strlen_loop_skip:
  "(\<forall>i < k. m (s + of_nat (n + i)) \<noteq> 0) \<Longrightarrow> strlen_loop m s n = strlen_loop m s (n + k)"
proof (induction k arbitrary: n)
  case (Suc k)
  have "strlen_loop m s n = strlen_loop m s (Suc n)"
    using Suc.prems by (subst strlen_loop.simps) (metis add_0_right zero_less_Suc)
  also have "\<dots> = strlen_loop m s (Suc n + k)"
  proof (rule Suc.IH, intro allI impI)
    fix i assume "i < k"
    then show "m (s + of_nat (Suc n + i)) \<noteq> 0"
      using Suc.prems [rule_format, of "Suc i"] by simp
  qed
  finally show ?case by simp
qed simp

lemma strlen_cstr:
  assumes "cstr m s xs" shows "strlen m s = Some (length xs)"
proof -
  have "strlen_loop m s 0 = strlen_loop m s (length xs)"
    using assms strlen_loop_skip [of "length xs" m s 0] by (auto simp: cstr_def in_set_conv_nth)
  also have "\<dots> = Some (length xs)"
    using assms by (subst strlen_loop.simps) (simp add: cstr_def)
  finally show ?thesis by (simp add: strlen_def)
qed

lemma load32_store32_same [simp]: "load32 (store32 m a w) a = w"
proof -
  have "load32 (store32 m a w) a = or (ucast (ucast w :: uchar)) (or (push_bit 8 (ucast (ucast (drop_bit 8 w) :: uchar)))
     (or (push_bit 16 (ucast (ucast (drop_bit 16 w) :: uchar))) (push_bit 24 (ucast (ucast (drop_bit 24 w) :: uchar)))))"
    by (simp add: load32_def store32_def)
  also have "\<dots> = w"
  proof (rule bit_word_eqI, goal_cases)
    case (1 n)
    then show ?case
      by (cases "24 \<le> n"; cases "16 \<le> n"; cases "8 \<le> n") (auto simp: bit_simps)
  qed
  finally show ?thesis .
qed


text \<open>safestrcpy: the destination holds the source cut to \<open>n - 1\<close> bytes, NUL-terminated.\<close>

lemma safestrcpy_loop_spec:
  assumes "Suc k < 4294967296" and "cstr m t xs"
    and "\<forall>j \<le> length xs. Suc k \<le> unat (t + of_nat j - s)"
  shows "cstr (safestrcpy_loop m s t k) s (take k xs) \<and>
    (\<forall>x. Suc k \<le> unat (x - s) \<longrightarrow> safestrcpy_loop m s t k x = m x)"
  using assms
proof (induction k arbitrary: m s t xs)
  case 0
  then show ?case by (auto simp: cstr_def)
next
  case (Suc k)
  show ?case
  proof (cases xs)
    case Nil
    with Suc.prems have z: "m t = 0" by (simp add: cstr_def)
    have "x \<noteq> s \<and> x \<noteq> s + 1" if "Suc (Suc k) \<le> unat (x - s)" for x
      using that by auto
    with z Nil show ?thesis by (auto simp: cstr_def)
  next
    case (Cons y ys)
    then have y: "m t = y" "y \<noteq> 0" using Suc.prems(2) by (auto simp: cstr_def)
    have far: "t + of_nat j \<noteq> s" if "j \<le> length xs" for j
      using Suc.prems(3) that by force
    let ?m = "m(s := y)" let ?r = "safestrcpy_loop ?m (s + 1) (t + 1) k"
    have c: "cstr ?m (t + 1) ys"
      using Suc.prems(2) far cstr_upd [of m t xs s y] by (simp add: Cons cstr_Cons)
    have f: "\<forall>j \<le> length ys. Suc k \<le> unat (t + 1 + of_nat j - (s + 1))"
    proof (intro allI impI)
      fix j assume "j \<le> length ys"
      then have "Suc (Suc k) \<le> unat (t + of_nat j - s)" using Suc.prems(3) Cons by auto
      then show "Suc k \<le> unat (t + 1 + of_nat j - (s + 1))" by (simp add: algebra_simps)
    qed
    have IH: "cstr ?r (s + 1) (take k ys)"
      and fr: "Suc k \<le> unat (x - (s + 1)) \<Longrightarrow> ?r x = ?m x" for x
      using Suc.IH [OF Suc_lessD [OF Suc.prems(1)] c f] by blast+
    have rs: "?r s = y" using fr [of s] Suc.prems(1) by (simp add: unat_minus_1)
    have "cstr ?r s (y # take k ys)" using IH rs y(2) by (simp add: cstr_Cons)
    moreover have "?r x = m x" if "Suc (Suc k) \<le> unat (x - s)" for x
    proof -
      from that have "x \<noteq> s" by auto
      then have "unat (x - s) = Suc (unat (x - s - 1))" by (intro unat_minus_step) simp
      with that have "Suc k \<le> unat (x - (s + 1))" by (simp add: diff_diff_eq)
      with \<open>x \<noteq> s\<close> show ?thesis by (simp add: fr)
    qed
    ultimately show ?thesis using y Cons by simp
  qed
qed

text \<open>atoi reads the longest run of decimal digits.\<close>

lemma atoi_loop_digits:
  assumes "\<forall>i < length ds. m (s + of_nat i) = ds ! i \<and> 48 \<le> ds ! i \<and> ds ! i \<le> 57"
    and "\<not> (48 \<le> m (s + of_nat (length ds)) \<and> m (s + of_nat (length ds)) \<le> 57)"
  shows "atoi_loop m s n = Some (digits_val n ds)"
  using assms
proof (induction ds arbitrary: s n)
  case Nil
  then show ?case by (subst atoi_loop.simps) (auto simp: digits_val_def)
next
  case (Cons d ds)
  have "m s = d" "48 \<le> d" "d \<le> 57" using Cons.prems(1) [rule_format, of 0] by auto
  then have "atoi_loop m s n = atoi_loop m (s + 1) (n * 10 + uint d - 48)"
    by (subst atoi_loop.simps) simp
  also have "\<dots> = Some (digits_val (n * 10 + uint d - 48) ds)"
    using Cons.prems by (intro Cons.IH) (simp_all add: All_less_Suc2 add.assoc)
  finally show ?case by (simp add: digits_val_def)
qed

section \<open>Properties\<close>

text \<open>C5. The kernel's \<open>memmove\<close> is correct for overlapping regions: as long as neither region wraps
  around the end of the address space, every destination byte is the source byte as it was
  before the call and no other byte changes, whichever direction the loop runs.\<close>

theorem memmove_correct:
  assumes "unat s + unat n < 4294967296" and "unat d + unat n \<le> 4294967296"
  shows "memmove m d s n x = (if unat (x - d) < unat n then m (s + (x - d)) else m x)"
  by (rule memmove_apply [OF assms])

theorem memmove_correct_witness:
  "memmove (\<lambda>a. ucast a) 102 100 5 104 = (102 :: uchar)"
proof -
  have h: "unat (100 :: uint) + unat (5 :: uint) < 4294967296"
    "unat (102 :: uint) + unat (5 :: uint) \<le> 4294967296" by simp_all
  show ?thesis by (simp add: memmove_correct [OF h])
qed

text \<open>C6. \<open>memset\<close>'s word-at-a-time fast path stores the same bytes as the byte-at-a-time one: on both
  branches the \<open>n\<close> bytes at \<open>dst\<close> become the low byte of \<open>c\<close> and nothing else changes.\<close>

theorem memset_correct:
  "memset m dst c n x = (if unat (x - dst) < unat n then ucast c else m x)"
proof -
  have "unat n \<le> 4294967296" using unat_uint_bound [of n] by simp
  then show ?thesis by (simp add: memset_stosb stosb_apply)
qed

text \<open>C7. \<open>safestrcpy\<close> with room for \<open>n > 0\<close> bytes in a destination disjoint from the source leaves
  there a NUL-terminated copy of the source cut to \<open>n - 1\<close> bytes, and writes nothing outside the
  \<open>n\<close> bytes of the destination.\<close>

theorem safestrcpy_correct:
  assumes "0 < n" and "n < 4294967296" and "cstr m t xs"
    and "\<forall>j \<le> length xs. nat n \<le> unat (t + of_nat j - s)"
  shows "cstr (safestrcpy m s t n) s (take (nat n - 1) xs) \<and>
    (\<forall>x. nat n \<le> unat (x - s) \<longrightarrow> safestrcpy m s t n x = m x)"
  using assms safestrcpy_loop_spec [of "nat n - 1" m t xs s]
  by (simp add: safestrcpy_def nat_diff_distrib)

theorem safestrcpy_correct_witness:
  "cstr (safestrcpy ((\<lambda>_. 0)(200 := 97, 201 := 98, 202 := 99)) 100 200 3) 100 [97, 98]"
proof -
  let ?m = "(\<lambda>_. 0)(200 := 97, 201 := 98, 202 := 99) :: mem"
  have c: "cstr ?m 200 [97, 98, 99]" by (simp add: cstr_Cons cstr_Nil)
  have f: "\<forall>j \<le> length [97, 98, 99 :: uchar]. nat 3 \<le> unat ((200 :: uint) + of_nat j - 100)"
    by (simp add: le_Suc_eq All_less_Suc2 numeral_3_eq_3)
  show ?thesis using safestrcpy_correct [OF _ _ c f] by simp
qed

end
