(* ===== verification/Spinlock.thy ===== *)
theory Spinlock
  imports CString
begin

text \<open>
  Spin locks (\<open>spinlock.c\<close>, \<open>spinlock.h\<close>) and the per-CPU interrupt bookkeeping they rest on
  (\<open>pushcli\<close>, \<open>popcli\<close>, and \<open>mycpu\<close> of \<open>proc.c\<close>).  Every operation takes the number \<open>c\<close> of the
  CPU that executes it; \<open>eflag s c\<close> is that CPU's interrupt flag (\<open>FL_IF\<close> of \<open>eflags\<close>), \<open>smem\<close>
  the memory the stack walk of \<open>getcallerpcs\<close> reads.  The last section interleaves the atomic
  parts of \<open>acquire\<close> and \<open>release\<close> of any number of CPUs.
\<close>

section \<open>Definitions\<close>

record cpu =
  apicid :: uchar
  ncli :: int
  intena :: bool

record spinlock =
  locked :: bool
  lkname :: string
  lkcpu :: "nat option"
  pcs :: "uint list"

record 'l mach =
  cpus :: "cpu list"
  eflag :: "nat \<Rightarrow> bool"
  locks :: "'l \<Rightarrow> spinlock"
  smem :: mem

definition KERNBASE :: uint where
  "KERNBASE = 0x80000000"

text \<open>The stores of \<open>initlock\<close>, on the lock itself and on a lock of the machine.\<close>

definition init_lock :: "string \<Rightarrow> spinlock \<Rightarrow> spinlock" where
  "init_lock name lk = lk\<lparr>lkname := name, locked := False, lkcpu := None\<rparr>"

definition initlock :: "'l \<Rightarrow> string \<Rightarrow> ('l mach, unit) kern" where
  "initlock lk name = kmod (\<lambda>s. s\<lparr>locks := (locks s)(lk := init_lock name (locks s lk))\<rparr>)"

text \<open>\<open>mycpu\<close> (\<open>proc.c\<close>): find the entry of \<open>cpus\<close> with this CPU's APIC id.\<close>

fun find_apic :: "cpu list \<Rightarrow> uchar \<Rightarrow> nat \<Rightarrow> nat option" where
  "find_apic [] a i = None"
| "find_apic (c # cs) a i = (if apicid c = a then Some i else find_apic cs a (Suc i))"

definition mycpu :: "nat \<Rightarrow> ('l mach, nat) kern" where
  "mycpu c = (\<lambda>s.
     if eflag s c then Inl (Panic ''mycpu called with interrupts enabled'')
     else case find_apic (cpus s) (apicid (cpus s ! c)) 0 of
       Some i \<Rightarrow> Inr (i, s)
     | None \<Rightarrow> Inl (Panic ''unknown apicid''))"

definition upd_cpu :: "nat \<Rightarrow> (cpu \<Rightarrow> cpu) \<Rightarrow> ('l mach, unit) kern" where
  "upd_cpu i f = kmod (\<lambda>s. s\<lparr>cpus := (cpus s)[i := f (cpus s ! i)]\<rparr>)"

definition cli :: "nat \<Rightarrow> ('l mach, unit) kern" where
  "cli c = kmod (\<lambda>s. s\<lparr>eflag := (eflag s)(c := False)\<rparr>)"

definition sti :: "nat \<Rightarrow> ('l mach, unit) kern" where
  "sti c = kmod (\<lambda>s. s\<lparr>eflag := (eflag s)(c := True)\<rparr>)"

definition pushcli :: "nat \<Rightarrow> ('l mach, unit) kern" where
  "pushcli c =
     kbind (kget (\<lambda>s. eflag s c)) (\<lambda>eflags.
     kthen (cli c)
     (kbind (mycpu c) (\<lambda>i.
     kbind (kget (\<lambda>s. ncli (cpus s ! i))) (\<lambda>n.
     kthen (if n = 0 then upd_cpu i (\<lambda>k. k\<lparr>intena := eflags\<rparr>) else kret ())
     (upd_cpu i (\<lambda>k. k\<lparr>ncli := ncli k + 1\<rparr>))))))"

definition popcli :: "nat \<Rightarrow> ('l mach, unit) kern" where
  "popcli c =
     kbind (kget (\<lambda>s. eflag s c)) (\<lambda>f.
     if f then kpanic ''popcli - interruptible'' else
     kbind (mycpu c) (\<lambda>i.
     kthen (upd_cpu i (\<lambda>k. k\<lparr>ncli := ncli k - 1\<rparr>))
     (kbind (kget (\<lambda>s. cpus s ! i)) (\<lambda>k.
     if ncli k < 0 then kpanic ''popcli''
     else if ncli k = 0 \<and> intena k then sti c else kret ()))))"

definition holding :: "nat \<Rightarrow> 'l \<Rightarrow> ('l mach, bool) kern" where
  "holding c lk =
     kthen (pushcli c)
     (kbind (mycpu c) (\<lambda>i.
     kbind (kget (\<lambda>s. locked (locks s lk) \<and> lkcpu (locks s lk) = Some i)) (\<lambda>r.
     kthen (popcli c) (kret r))))"

text \<open>
  \<open>getcallerpcs\<close>: \<open>ebp\<close> starts two words below the address of the first argument and follows
  the chain of saved frame pointers while it stays in kernel space; the rest of the ten entries
  is zero.
\<close>

fun walk_frames :: "mem \<Rightarrow> uint \<Rightarrow> nat \<Rightarrow> uint list" where
  "walk_frames m ebp 0 = []"
| "walk_frames m ebp (Suc k) =
     (if ebp = 0 \<or> ebp < KERNBASE \<or> ebp = 0xffffffff then replicate (Suc k) 0
      else load32 m (ebp + 4) # walk_frames m (load32 m ebp) k)"

definition getcallerpcs :: "mem \<Rightarrow> uint \<Rightarrow> uint list" where
  "getcallerpcs m v = walk_frames m (v - 8) 10"

text \<open>
  \<open>acquire\<close> in three atomic parts: the entry (interrupts off, self-deadlock check), one \<open>xchg\<close> of
  the spin loop (its result is the old value of \<open>locked\<close>), and the recording of the holder.  The
  sequential \<open>acquire\<close> has to spin when another CPU holds the lock.
\<close>

definition acquire_entry :: "nat \<Rightarrow> 'l \<Rightarrow> ('l mach, unit) kern" where
  "acquire_entry c lk =
     kthen (pushcli c)
     (kbind (holding c lk) (\<lambda>h. if h then kpanic ''acquire'' else kret ()))"

definition xchg_locked :: "'l \<Rightarrow> bool \<Rightarrow> ('l mach, bool) kern" where
  "xchg_locked lk v = (\<lambda>s. Inr (locked (locks s lk),
     s\<lparr>locks := (locks s)(lk := (locks s lk)\<lparr>locked := v\<rparr>)\<rparr>))"

definition acquire_record :: "nat \<Rightarrow> uint \<Rightarrow> 'l \<Rightarrow> ('l mach, unit) kern" where
  "acquire_record c v lk =
     kbind (mycpu c) (\<lambda>i.
     kmod (\<lambda>s. s\<lparr>locks := (locks s)(lk :=
       (locks s lk)\<lparr>lkcpu := Some i, pcs := getcallerpcs (smem s) v\<rparr>)\<rparr>))"

definition acquire :: "nat \<Rightarrow> uint \<Rightarrow> 'l \<Rightarrow> ('l mach, unit) kern" where
  "acquire c v lk =
     kthen (acquire_entry c lk)
     (kbind (xchg_locked lk True) (\<lambda>old.
     if old then ksleep ''spin'' else acquire_record c v lk))"

definition release_entry :: "nat \<Rightarrow> 'l \<Rightarrow> ('l mach, unit) kern" where
  "release_entry c lk =
     kbind (holding c lk) (\<lambda>h.
     if \<not> h then kpanic ''release''
     else kmod (\<lambda>s. s\<lparr>locks := (locks s)(lk :=
       (locks s lk)\<lparr>pcs := (pcs (locks s lk))[0 := 0], lkcpu := None\<rparr>)\<rparr>))"

definition release_store :: "nat \<Rightarrow> 'l \<Rightarrow> ('l mach, unit) kern" where
  "release_store c lk =
     kthen (kmod (\<lambda>s. s\<lparr>locks := (locks s)(lk := (locks s lk)\<lparr>locked := False\<rparr>)\<rparr>))
     (popcli c)"

definition release :: "nat \<Rightarrow> 'l \<Rightarrow> ('l mach, unit) kern" where
  "release c lk = kthen (release_entry c lk) (release_store c lk)"

subsection \<open>Interleaving\<close>

text \<open>Where each CPU is in the lock code.\<close>

datatype 'l lockpc = Outside | Spinning 'l | Got 'l | Releasing 'l

inductive lock_step ::
  "'l mach \<times> (nat \<Rightarrow> 'l lockpc) \<Rightarrow> 'l mach \<times> (nat \<Rightarrow> 'l lockpc) \<Rightarrow> bool" where
  enter: "c < length (cpus s) \<Longrightarrow> pc c = Outside \<Longrightarrow> acquire_entry c lk s = Inr (u, t) \<Longrightarrow>
    lock_step (s, pc) (t, pc(c := Spinning lk))"
| spin: "c < length (cpus s) \<Longrightarrow> pc c = Spinning lk \<Longrightarrow> xchg_locked lk True s = Inr (True, t) \<Longrightarrow>
    lock_step (s, pc) (t, pc)"
| win: "c < length (cpus s) \<Longrightarrow> pc c = Spinning lk \<Longrightarrow> xchg_locked lk True s = Inr (False, t) \<Longrightarrow>
    lock_step (s, pc) (t, pc(c := Got lk))"
| note_holder: "c < length (cpus s) \<Longrightarrow> pc c = Got lk \<Longrightarrow> acquire_record c v lk s = Inr (u, t) \<Longrightarrow>
    lock_step (s, pc) (t, pc(c := Outside))"
| drop_holder: "c < length (cpus s) \<Longrightarrow> pc c = Outside \<Longrightarrow> release_entry c lk s = Inr (u, t) \<Longrightarrow>
    lock_step (s, pc) (t, pc(c := Releasing lk))"
| unlock: "c < length (cpus s) \<Longrightarrow> pc c = Releasing lk \<Longrightarrow> release_store c lk s = Inr (u, t) \<Longrightarrow>
    lock_step (s, pc) (t, pc(c := Outside))"

text \<open>The machine after start-up: no lock taken, no CPU inside the lock code.\<close>

definition boot_mach :: "'l mach \<Rightarrow> bool" where
  "boot_mach s \<longleftrightarrow> distinct (map apicid (cpus s)) \<and>
     (\<forall>k \<in> set (cpus s). ncli k = 0) \<and> (\<forall>lk. \<not> locked (locks s lk) \<and> lkcpu (locks s lk) = None)"

definition lock_init :: "'l mach \<times> (nat \<Rightarrow> 'l lockpc) \<Rightarrow> bool" where
  "lock_init x \<longleftrightarrow> boot_mach (fst x) \<and> snd x = (\<lambda>_. Outside)"

text \<open>CPU \<open>c\<close> is in the critical section of \<open>lk\<close>: from the winning \<open>xchg\<close> to the releasing store.\<close>

definition owns :: "'l mach \<times> (nat \<Rightarrow> 'l lockpc) \<Rightarrow> nat \<Rightarrow> 'l \<Rightarrow> bool" where
  "owns x c lk \<longleftrightarrow> snd x c = Got lk \<or> snd x c = Releasing lk \<or>
     locked (locks (fst x) lk) \<and> lkcpu (locks (fst x) lk) = Some c"

text \<open>
  A well-behaved CPU: a non-negative nesting depth, interrupts off while it is positive.
\<close>

definition cpu_ok :: "'l mach \<Rightarrow> nat \<Rightarrow> bool" where
  "cpu_ok s c \<longleftrightarrow> distinct (map apicid (cpus s)) \<and> c < length (cpus s) \<and>
     0 \<le> ncli (cpus s ! c) \<and> (0 < ncli (cpus s ! c) \<longrightarrow> \<not> eflag s c)"

text \<open>
  The invariant of the interleaving: owners are unique, an owned lock is locked, and each CPU's
  nesting depth counts the locks it owns plus the one it is spinning for.
\<close>

definition lock_inv :: "'l mach \<times> (nat \<Rightarrow> 'l lockpc) \<Rightarrow> bool" where
  "lock_inv x \<longleftrightarrow> distinct (map apicid (cpus (fst x))) \<and>
     (\<forall>c lk. owns x c lk \<longrightarrow> c < length (cpus (fst x)) \<and> locked (locks (fst x) lk)) \<and>
     (\<forall>c d lk. owns x c lk \<longrightarrow> owns x d lk \<longrightarrow> c = d) \<and>
     (\<forall>c lk. lkcpu (locks (fst x) lk) = Some c \<longrightarrow>
        locked (locks (fst x) lk) \<and> snd x c \<noteq> Got lk \<and> snd x c \<noteq> Releasing lk) \<and>
     (\<forall>c < length (cpus (fst x)). finite {lk. owns x c lk} \<and>
        ncli (cpus (fst x) ! c) =
          int (card {lk. owns x c lk}) + (if \<exists>lk. snd x c = Spinning lk then 1 else 0) \<and>
        (0 < ncli (cpus (fst x) ! c) \<longrightarrow> \<not> eflag (fst x) c))"

section \<open>Lemmas\<close>

lemma find_apic_nth:
  "distinct (map apicid cs) \<Longrightarrow> c < length cs \<Longrightarrow> find_apic cs (apicid (cs ! c)) i = Some (i + c)"
proof (induction cs arbitrary: c i)
  case (Cons k cs)
  then show ?case by (cases c) (auto dest: nth_mem)
qed simp

lemma mycpu_eq:
  "distinct (map apicid (cpus s)) \<Longrightarrow> c < length (cpus s) \<Longrightarrow> \<not> eflag s c \<Longrightarrow> mycpu c s = Inr (c, s)"
  by (simp add: mycpu_def find_apic_nth)

lemma map_apicid_update [simp]:
  "c < length cs \<Longrightarrow> apicid k = apicid (cs ! c) \<Longrightarrow> map apicid (cs[c := k]) = map apicid cs"
  by (simp add: map_update) (metis list_update_id map_update)

lemma cpu_intena_idem [simp]: "k\<lparr>intena := intena k\<rparr> = k"
  by (cases k) simp

lemmas lock_op_defs = kbind_def kthen_def kget_def kmod_def kret_def kpanic_def upd_cpu_def
  cli_def sti_def

lemma pushcli_eq:
  assumes "cpu_ok s c"
  shows "pushcli c s = Inr ((), s\<lparr>eflag := (eflag s)(c := False), cpus := (cpus s)[c :=
    (cpus s ! c)\<lparr>intena := (if ncli (cpus s ! c) = 0 then eflag s c else intena (cpus s ! c)),
      ncli := ncli (cpus s ! c) + 1\<rparr>]\<rparr>)"
proof -
  let ?s = "s\<lparr>eflag := (eflag s)(c := False)\<rparr>"
  have "mycpu c ?s = Inr (c, ?s)" using assms by (intro mycpu_eq) (simp_all add: cpu_ok_def)
  with assms show ?thesis by (simp add: pushcli_def lock_op_defs cpu_ok_def)
qed

lemma popcli_eq:
  assumes "cpu_ok s c" and "0 < ncli (cpus s ! c)"
  shows "popcli c s = Inr ((), s\<lparr>
    eflag := (if ncli (cpus s ! c) = 1 \<and> intena (cpus s ! c) then (eflag s)(c := True) else eflag s),
    cpus := (cpus s)[c := (cpus s ! c)\<lparr>ncli := ncli (cpus s ! c) - 1\<rparr>]\<rparr>)"
proof -
  have "mycpu c s = Inr (c, s)" using assms by (intro mycpu_eq) (simp_all add: cpu_ok_def)
  with assms show ?thesis by (simp add: popcli_def lock_op_defs cpu_ok_def)
qed

lemma holding_eq:
  assumes "cpu_ok s c"
  shows "holding c lk s = Inr (locked (locks s lk) \<and> lkcpu (locks s lk) = Some c,
    if ncli (cpus s ! c) = 0
    then s\<lparr>cpus := (cpus s)[c := (cpus s ! c)\<lparr>intena := eflag s c\<rparr>]\<rparr> else s)"
proof -
  let ?t = "s\<lparr>eflag := (eflag s)(c := False), cpus := (cpus s)[c :=
    (cpus s ! c)\<lparr>intena := (if ncli (cpus s ! c) = 0 then eflag s c else intena (cpus s ! c)),
      ncli := ncli (cpus s ! c) + 1\<rparr>]\<rparr>"
  have ok: "cpu_ok ?t c" using assms by (simp add: cpu_ok_def)
  then have my: "mycpu c ?t = Inr (c, ?t)" unfolding cpu_ok_def by (intro mycpu_eq) auto
  have "popcli c ?t = Inr ((), if ncli (cpus s ! c) = 0
    then s\<lparr>cpus := (cpus s)[c := (cpus s ! c)\<lparr>intena := eflag s c\<rparr>]\<rparr> else s)"
    using assms popcli_eq [OF ok] by (auto simp: cpu_ok_def fun_upd_idem)
  with my show ?thesis
    by (simp add: holding_def pushcli_eq [OF assms] lock_op_defs)
qed

lemma lock_inv_cpu_ok: "lock_inv (s, pc) \<Longrightarrow> c < length (cpus s) \<Longrightarrow> cpu_ok s c"
  by (simp add: lock_inv_def cpu_ok_def)

text \<open>The invariant from the effect of a step on the lock owners and on one CPU's counter.\<close>

lemma lock_inv_frame:
  assumes inv: "lock_inv (s, pc)" and c: "c < length (cpus s)"
    and cp: "cpus t = (cpus s)[c := k]" "apicid k = apicid (cpus s ! c)"
    and oth: "\<And>d lk. d \<noteq> c \<Longrightarrow> owns (t, pc') d lk = owns (s, pc) d lk"
    and pc: "\<And>d. d \<noteq> c \<Longrightarrow> pc' d = pc d" and ef: "\<And>d. d \<noteq> c \<Longrightarrow> eflag t d = eflag s d"
    and lk1: "\<And>d lk. owns (t, pc') d lk \<Longrightarrow> locked (locks t lk)"
    and lk2: "\<And>d lk. owns (t, pc') c lk \<Longrightarrow> owns (t, pc') d lk \<Longrightarrow> d = c"
    and lk3: "\<And>d lk. lkcpu (locks t lk) = Some d \<Longrightarrow>
      locked (locks t lk) \<and> pc' d \<noteq> Got lk \<and> pc' d \<noteq> Releasing lk"
    and fin: "finite {lk. owns (t, pc') c lk}"
    and cnt: "ncli k = int (card {lk. owns (t, pc') c lk}) + (if \<exists>lk. pc' c = Spinning lk then 1 else 0)"
    and off: "0 < ncli k \<Longrightarrow> \<not> eflag t c"
  shows "lock_inv (t, pc')"
proof -
  have len: "length (cpus t) = length (cpus s)" using cp by simp
  have "\<forall>c lk. owns (s, pc) c lk \<longrightarrow> c < length (cpus s)" using inv by (simp add: lock_inv_def)
  then have "owns (t, pc') d lk \<Longrightarrow> d < length (cpus t)" for d lk
    using c oth [of d lk] len by metis
  moreover have "owns (t, pc') d lk \<Longrightarrow> owns (t, pc') e lk \<Longrightarrow> d = e" for d e lk
  proof -
    assume od: "owns (t, pc') d lk" and oe: "owns (t, pc') e lk"
    have "\<forall>d e lk. owns (s, pc) d lk \<longrightarrow> owns (s, pc) e lk \<longrightarrow> d = e"
      using inv by (simp add: lock_inv_def)
    then show "d = e"
      using od oe oth [of d lk] oth [of e lk] lk2 [of lk d] lk2 [of lk e] by metis
  qed
  moreover have "distinct (map apicid (cpus t))" using inv c cp by (simp add: lock_inv_def)
  moreover have "finite {lk. owns (t, pc') d lk} \<and> ncli (cpus t ! d) =
      int (card {lk. owns (t, pc') d lk}) + (if \<exists>lk. pc' d = Spinning lk then 1 else 0) \<and>
      (0 < ncli (cpus t ! d) \<longrightarrow> \<not> eflag t d)" if "d < length (cpus t)" for d
  proof (cases "d = c")
    case True
    then show ?thesis using fin cnt off cp(1) c by simp
  next
    case False
    then show ?thesis using inv that pc ef cp(1) oth [OF False] by (simp add: lock_inv_def)
  qed
  ultimately show ?thesis unfolding lock_inv_def fst_conv snd_conv using lk1 lk3 by blast
qed

lemma inv_owns:
  assumes "lock_inv (s, pc)" and "owns (s, pc) c lk"
  shows "c < length (cpus s)" "locked (locks s lk)" "0 < ncli (cpus s ! c)"
    "owns (s, pc) d lk \<Longrightarrow> d = c"
proof -
  show c: "c < length (cpus s)" and "locked (locks s lk)" and "owns (s, pc) d lk \<Longrightarrow> d = c"
    using assms by (auto simp: lock_inv_def)
  have "finite {lk. owns (s, pc) c lk}" using assms(1) c by (auto simp: lock_inv_def)
  then have "0 < card {lk. owns (s, pc) c lk}" using assms(2) by (auto simp: card_gt_0_iff)
  then show "0 < ncli (cpus s ! c)" using assms(1) c by (auto simp: lock_inv_def)
qed

lemma acquire_entry_Inr:
  assumes "cpu_ok s c" and "acquire_entry c lk s = Inr (u, t)"
  shows "t = s\<lparr>eflag := (eflag s)(c := False), cpus := (cpus s)[c :=
    (cpus s ! c)\<lparr>intena := (if ncli (cpus s ! c) = 0 then eflag s c else intena (cpus s ! c)),
      ncli := ncli (cpus s ! c) + 1\<rparr>]\<rparr> \<and>
    \<not> (locked (locks s lk) \<and> lkcpu (locks s lk) = Some c)"
proof -
  let ?t = "s\<lparr>eflag := (eflag s)(c := False), cpus := (cpus s)[c :=
    (cpus s ! c)\<lparr>intena := (if ncli (cpus s ! c) = 0 then eflag s c else intena (cpus s ! c)),
      ncli := ncli (cpus s ! c) + 1\<rparr>]\<rparr>"
  have ok: "cpu_ok ?t c" using assms(1) by (simp add: cpu_ok_def)
  have "c < length (cpus s)" "0 \<le> ncli (cpus s ! c)" using assms(1) by (auto simp: cpu_ok_def)
  with assms(2) show ?thesis
    by (auto simp: acquire_entry_def pushcli_eq [OF assms(1)] holding_eq [OF ok] kbind_def kthen_def
        kpanic_def kret_def split: if_splits)
qed

lemma release_entry_Inr:
  assumes "cpu_ok s c" and "release_entry c lk s = Inr (u, t)"
  shows "locked (locks s lk) \<and> lkcpu (locks s lk) = Some c \<and>
    (0 < ncli (cpus s ! c) \<longrightarrow> t = s\<lparr>locks := (locks s)(lk :=
       (locks s lk)\<lparr>pcs := (pcs (locks s lk))[0 := 0], lkcpu := None\<rparr>)\<rparr>)"
  using assms(2)
  by (auto simp: release_entry_def holding_eq [OF assms(1)] kbind_def kpanic_def kmod_def
      split: if_splits)

lemma release_store_Inr:
  assumes "cpu_ok s c" and "0 < ncli (cpus s ! c)" and "release_store c lk s = Inr (u, t)"
  shows "t = s\<lparr>locks := (locks s)(lk := (locks s lk)\<lparr>locked := False\<rparr>),
    eflag := (if ncli (cpus s ! c) = 1 \<and> intena (cpus s ! c) then (eflag s)(c := True) else eflag s),
    cpus := (cpus s)[c := (cpus s ! c)\<lparr>ncli := ncli (cpus s ! c) - 1\<rparr>]\<rparr>"
proof -
  have "cpu_ok (s\<lparr>locks := (locks s)(lk := (locks s lk)\<lparr>locked := False\<rparr>)\<rparr>) c"
    using assms(1) by (simp add: cpu_ok_def)
  from popcli_eq [OF this] assms(2,3) show ?thesis
    by (auto simp: release_store_def kthen_def kbind_def kmod_def)
qed

lemma acquire_record_Inr:
  assumes "cpu_ok s c" and "0 < ncli (cpus s ! c)" and "acquire_record c v lk s = Inr (u, t)"
  shows "t = s\<lparr>locks := (locks s)(lk :=
       (locks s lk)\<lparr>lkcpu := Some c, pcs := getcallerpcs (smem s) v\<rparr>)\<rparr>"
proof -
  have "mycpu c s = Inr (c, s)" using assms by (intro mycpu_eq) (auto simp: cpu_ok_def)
  with assms(3) show ?thesis by (auto simp: acquire_record_def kbind_def kmod_def)
qed

lemma inv_facts:
  assumes "lock_inv (s, pc)"
  shows "lkcpu (locks s lk) = Some d \<Longrightarrow> locked (locks s lk)"
    "lkcpu (locks s lk) = Some d \<Longrightarrow> pc d \<noteq> Got lk \<and> pc d \<noteq> Releasing lk"
    "c < length (cpus s) \<Longrightarrow> finite {lk. owns (s, pc) c lk}"
    "c < length (cpus s) \<Longrightarrow> ncli (cpus s ! c) =
       int (card {lk. owns (s, pc) c lk}) + (if \<exists>lk. pc c = Spinning lk then 1 else 0)"
    "c < length (cpus s) \<Longrightarrow> 0 < ncli (cpus s ! c) \<Longrightarrow> \<not> eflag s c"
  using assms unfolding lock_inv_def fst_conv snd_conv by blast+

lemma inv_enter:
  assumes inv: "lock_inv (s, pc)" and c: "c < length (cpus s)" and pc: "pc c = Outside"
    and op: "acquire_entry c lk s = Inr (u, t)"
  shows "lock_inv (t, pc(c := Spinning lk))"
proof -
  let ?k = "(cpus s ! c)\<lparr>intena := (if ncli (cpus s ! c) = 0 then eflag s c else intena (cpus s ! c)),
      ncli := ncli (cpus s ! c) + 1\<rparr>"
  have t: "t = s\<lparr>eflag := (eflag s)(c := False), cpus := (cpus s)[c := ?k]\<rparr>"
    using acquire_entry_Inr [OF lock_inv_cpu_ok [OF inv c] op] by simp
  have ow: "owns (t, pc(c := Spinning lk)) d l = owns (s, pc) d l" for d l
    using pc by (simp add: owns_def t)
  show ?thesis
  proof (rule lock_inv_frame [OF inv c, where k = ?k])
    show "owns (t, pc(c := Spinning lk)) d l \<Longrightarrow> locked (locks t l)" for d l
      using inv_owns(2) [OF inv, of d l] unfolding ow by (simp add: t)
    show "owns (t, pc(c := Spinning lk)) c l \<Longrightarrow> owns (t, pc(c := Spinning lk)) d l \<Longrightarrow> d = c" for d l
      using inv_owns(4) [OF inv, of c l d] by (simp add: ow)
    show "lkcpu (locks t l) = Some d \<Longrightarrow> locked (locks t l) \<and>
        (pc(c := Spinning lk)) d \<noteq> Got l \<and> (pc(c := Spinning lk)) d \<noteq> Releasing l" for d l
      using inv_facts(1,2) [OF inv, of l d] by (simp add: t)
    show "ncli ?k = int (card {l. owns (t, pc(c := Spinning lk)) c l}) +
        (if \<exists>l. (pc(c := Spinning lk)) c = Spinning l then 1 else 0)"
      using inv_facts(4) [OF inv c] pc by (simp add: ow)
  qed (use inv_facts(3) [OF inv c] in \<open>unfold ow, simp_all add: t\<close>)
qed

lemma inv_spin:
  assumes inv: "lock_inv (s, pc)" and op: "xchg_locked lk True s = Inr (True, t)"
  shows "lock_inv (t, pc)"
proof -
  have "(locks s lk)\<lparr>locked := True\<rparr> = locks s lk"
    using op by (cases "locks s lk") (simp add: xchg_locked_def)
  then have "t = s" using op by (simp add: xchg_locked_def fun_upd_idem)
  with inv show ?thesis by simp
qed

lemma inv_win:
  assumes inv: "lock_inv (s, pc)" and c: "c < length (cpus s)" and pc: "pc c = Spinning lk"
    and op: "xchg_locked lk True s = Inr (False, t)"
  shows "lock_inv (t, pc(c := Got lk))"
proof -
  have t: "t = s\<lparr>locks := (locks s)(lk := (locks s lk)\<lparr>locked := True\<rparr>)\<rparr>"
    and un: "\<not> locked (locks s lk)" using op by (auto simp: xchg_locked_def)
  have no: "lkcpu (locks s lk) = None" using inv_facts(1) [OF inv, of lk] un by fastforce
  have free: "\<not> owns (s, pc) d lk" for d using inv_owns(2) [OF inv, of d lk] un by blast
  have ow: "owns (t, pc(c := Got lk)) d l = (if d = c then l = lk \<or> owns (s, pc) c l
      else owns (s, pc) d l)" for d l
    using pc no un free [of d] by (auto simp: owns_def t)
  show ?thesis
  proof (rule lock_inv_frame [OF inv c, where k = "cpus s ! c"])
    show "owns (t, pc(c := Got lk)) d l \<Longrightarrow> locked (locks t l)" for d l
      using inv_owns(2) [OF inv, of d l] unfolding ow by (auto simp: t split: if_splits)
    show "owns (t, pc(c := Got lk)) c l \<Longrightarrow> owns (t, pc(c := Got lk)) d l \<Longrightarrow> d = c" for d l
      using inv_owns(4) [OF inv, of c l d] free by (auto simp: ow split: if_splits)
    show "lkcpu (locks t l) = Some d \<Longrightarrow> locked (locks t l) \<and>
        (pc(c := Got lk)) d \<noteq> Got l \<and> (pc(c := Got lk)) d \<noteq> Releasing l" for d l
      using inv_facts(1,2) [OF inv, of l d] no by (auto simp: t)
    have eq: "{l. owns (t, pc(c := Got lk)) c l} = insert lk {l. owns (s, pc) c l}"
      by (auto simp: ow)
    show "ncli (cpus s ! c) = int (card {l. owns (t, pc(c := Got lk)) c l}) +
        (if \<exists>l. (pc(c := Got lk)) c = Spinning l then 1 else 0)"
      using inv_facts(3,4) [OF inv c] pc free by (simp add: eq)
    show "finite {l. owns (t, pc(c := Got lk)) c l}"
      using inv_facts(3) [OF inv c] by (simp add: eq)
  qed (use inv_facts(5) [OF inv c] in \<open>unfold ow, simp_all add: t\<close>)
qed

lemma inv_note:
  assumes inv: "lock_inv (s, pc)" and c: "c < length (cpus s)" and pc: "pc c = Got lk"
    and op: "acquire_record c v lk s = Inr (u, t)"
  shows "lock_inv (t, pc(c := Outside))"
proof -
  have own: "owns (s, pc) c lk" using pc by (simp add: owns_def)
  note lkd = inv_owns [OF inv own]
  have t: "t = s\<lparr>locks := (locks s)(lk :=
       (locks s lk)\<lparr>lkcpu := Some c, pcs := getcallerpcs (smem s) v\<rparr>)\<rparr>"
    by (rule acquire_record_Inr [OF lock_inv_cpu_ok [OF inv c] lkd(3) op])
  have un: "\<not> owns (s, pc) d lk" if "d \<noteq> c" for d using lkd(4) that by blast
  have ow: "owns (t, pc(c := Outside)) d l = owns (s, pc) d l" for d l
    using pc lkd(2) un [of d] by (cases "d = c"; cases "l = lk") (auto simp: owns_def t)
  show ?thesis
  proof (rule lock_inv_frame [OF inv c, where k = "cpus s ! c"])
    show "owns (t, pc(c := Outside)) d l \<Longrightarrow> locked (locks t l)" for d l
      using inv_owns(2) [OF inv, of d l] unfolding ow by (auto simp: t)
    show "owns (t, pc(c := Outside)) c l \<Longrightarrow> owns (t, pc(c := Outside)) d l \<Longrightarrow> d = c" for d l
      using inv_owns(4) [OF inv, of c l d] by (simp add: ow)
    show "lkcpu (locks t l) = Some d \<Longrightarrow> locked (locks t l) \<and>
        (pc(c := Outside)) d \<noteq> Got l \<and> (pc(c := Outside)) d \<noteq> Releasing l" for d l
      using inv_facts(1,2) [OF inv, of l d] lkd(2) by (auto simp: t split: if_splits)
    show "ncli (cpus s ! c) = int (card {l. owns (t, pc(c := Outside)) c l}) +
        (if \<exists>l. (pc(c := Outside)) c = Spinning l then 1 else 0)"
      using inv_facts(4) [OF inv c] pc by (simp add: ow)
  qed (use inv_facts(3,5) [OF inv c] in \<open>unfold ow, simp_all add: t\<close>)
qed

lemma inv_drop:
  assumes inv: "lock_inv (s, pc)" and c: "c < length (cpus s)" and pc: "pc c = Outside"
    and op: "release_entry c lk s = Inr (u, t)"
  shows "lock_inv (t, pc(c := Releasing lk))"
proof -
  note r = release_entry_Inr [OF lock_inv_cpu_ok [OF inv c] op]
  then have own: "owns (s, pc) c lk" by (simp add: owns_def)
  note lkd = inv_owns [OF inv own]
  have t: "t = s\<lparr>locks := (locks s)(lk :=
       (locks s lk)\<lparr>pcs := (pcs (locks s lk))[0 := 0], lkcpu := None\<rparr>)\<rparr>"
    using r lkd(3) by simp
  have un: "\<not> owns (s, pc) d lk" if "d \<noteq> c" for d using lkd(4) that by blast
  have ow: "owns (t, pc(c := Releasing lk)) d l = owns (s, pc) d l" for d l
    using pc r un [of d] by (cases "d = c"; cases "l = lk") (auto simp: owns_def t)
  show ?thesis
  proof (rule lock_inv_frame [OF inv c, where k = "cpus s ! c"])
    show "owns (t, pc(c := Releasing lk)) d l \<Longrightarrow> locked (locks t l)" for d l
      using inv_owns(2) [OF inv, of d l] unfolding ow by (auto simp: t)
    show "owns (t, pc(c := Releasing lk)) c l \<Longrightarrow> owns (t, pc(c := Releasing lk)) d l \<Longrightarrow> d = c" for d l
      using inv_owns(4) [OF inv, of c l d] by (simp add: ow)
    show "lkcpu (locks t l) = Some d \<Longrightarrow> locked (locks t l) \<and>
        (pc(c := Releasing lk)) d \<noteq> Got l \<and> (pc(c := Releasing lk)) d \<noteq> Releasing l" for d l
      using inv_facts(1,2) [OF inv, of l d] by (auto simp: t split: if_splits)
    show "ncli (cpus s ! c) = int (card {l. owns (t, pc(c := Releasing lk)) c l}) +
        (if \<exists>l. (pc(c := Releasing lk)) c = Spinning l then 1 else 0)"
      using inv_facts(4) [OF inv c] pc by (simp add: ow)
  qed (use inv_facts(3,5) [OF inv c] in \<open>unfold ow, simp_all add: t\<close>)
qed

lemma inv_unlock:
  assumes inv: "lock_inv (s, pc)" and c: "c < length (cpus s)" and pc: "pc c = Releasing lk"
    and op: "release_store c lk s = Inr (u, t)"
  shows "lock_inv (t, pc(c := Outside))"
proof -
  have own: "owns (s, pc) c lk" using pc by (simp add: owns_def)
  note lkd = inv_owns [OF inv own]
  let ?k = "(cpus s ! c)\<lparr>ncli := ncli (cpus s ! c) - 1\<rparr>"
  have t: "t = s\<lparr>locks := (locks s)(lk := (locks s lk)\<lparr>locked := False\<rparr>),
    eflag := (if ncli (cpus s ! c) = 1 \<and> intena (cpus s ! c) then (eflag s)(c := True) else eflag s),
    cpus := (cpus s)[c := ?k]\<rparr>"
    by (rule release_store_Inr [OF lock_inv_cpu_ok [OF inv c] lkd(3) op])
  have un: "\<not> owns (s, pc) d lk" if "d \<noteq> c" for d using lkd(4) that by blast
  have no: "lkcpu (locks s lk) = None"
  proof (cases "lkcpu (locks s lk)")
    case (Some d)
    then have "owns (s, pc) d lk" using lkd(2) by (simp add: owns_def)
    then have "d = c" by (rule lkd(4))
    with Some inv_facts(2) [OF inv, of lk d] pc show ?thesis by simp
  qed
  have ow: "owns (t, pc(c := Outside)) d l = (l \<noteq> lk \<and> owns (s, pc) d l)" for d l
    using pc no un [of d] by (cases "d = c"; cases "l = lk") (auto simp: owns_def t)
  have eq: "{l. owns (t, pc(c := Outside)) c l} = {l. owns (s, pc) c l} - {lk}" by (auto simp: ow)
  have fin: "finite {l. owns (s, pc) c l}" by (rule inv_facts(3) [OF inv c])
  show ?thesis
  proof (rule lock_inv_frame [OF inv c, where k = ?k])
    show "owns (t, pc(c := Outside)) d l = owns (s, pc) d l" if "d \<noteq> c" for d l
      using un [OF that] by (auto simp: ow)
    show "owns (t, pc(c := Outside)) d l \<Longrightarrow> locked (locks t l)" for d l
      using inv_owns(2) [OF inv, of d l] unfolding ow by (auto simp: t)
    show "owns (t, pc(c := Outside)) c l \<Longrightarrow> owns (t, pc(c := Outside)) d l \<Longrightarrow> d = c" for d l
      using inv_owns(4) [OF inv, of c l d] by (simp add: ow)
    show "lkcpu (locks t l) = Some d \<Longrightarrow> locked (locks t l) \<and>
        (pc(c := Outside)) d \<noteq> Got l \<and> (pc(c := Outside)) d \<noteq> Releasing l" for d l
      using inv_facts(1,2) [OF inv, of l d] no by (auto simp: t split: if_splits)
    show "ncli ?k = int (card {l. owns (t, pc(c := Outside)) c l}) +
        (if \<exists>l. (pc(c := Outside)) c = Spinning l then 1 else 0)"
      using inv_facts(4) [OF inv c] pc own fin
      by (simp add: eq card_Diff_singleton) (metis card_gt_0_iff empty_iff mem_Collect_eq of_nat_diff
          One_nat_def Suc_leI of_nat_1)
    show "0 < ncli ?k \<Longrightarrow> \<not> eflag t c" using inv_facts(5) [OF inv c] by (simp add: t)
  qed (use fin in \<open>unfold eq, simp_all add: t\<close>)
qed

lemma lock_step_inv: "lock_step x y \<Longrightarrow> lock_inv x \<Longrightarrow> lock_inv y"
  by (induction rule: lock_step.induct)
    (blast intro: inv_enter inv_spin inv_win inv_note inv_drop inv_unlock)+

interpretation lock_sys: step_invariant lock_init lock_step lock_inv
proof
  show "lock_inv x" if "lock_init x" for x :: "'l mach \<times> (nat \<Rightarrow> 'l lockpc)"
    using that by (cases x) (auto simp: lock_init_def boot_mach_def lock_inv_def owns_def)
qed (rule lock_step_inv)

section \<open>Properties\<close>

text \<open>C1. Mutual exclusion: in every interleaving of \<open>acquire\<close> and \<open>release\<close> by any number of CPUs at
  most one CPU is between a winning \<open>xchg\<close> on a lock and the store that releases it, and that CPU
  runs with interrupts disabled and a positive \<open>ncli\<close>.\<close>

theorem spinlock_mutual_exclusion:
  assumes "reach lock_init lock_step x" and "owns x c lk"
  shows "(owns x d lk \<longrightarrow> d = c) \<and> \<not> eflag (fst x) c \<and> 0 < ncli (cpus (fst x) ! c)"
proof (cases x)
  case (Pair s pc)
  have inv: "lock_inv (s, pc)" using lock_sys.reach_inv [OF assms(1)] Pair by simp
  note own = inv_owns [OF inv assms(2) [unfolded Pair]]
  show ?thesis using own inv_facts(5) [OF inv own(1)] Pair by auto
qed

theorem spinlock_mutual_exclusion_witness:
  "\<exists>x :: nat mach \<times> (nat \<Rightarrow> nat lockpc). reach lock_init lock_step x \<and> owns x 0 5 \<and>
     (\<forall>d. owns x d 5 \<longrightarrow> d = 0) \<and> \<not> eflag (fst x) 0"
proof -
  let ?s = "\<lparr>cpus = [\<lparr>apicid = 7, ncli = 0, intena = False\<rparr>], eflag = (\<lambda>_. True),
     locks = (\<lambda>_ :: nat. \<lparr>locked = False, lkname = ''l'', lkcpu = None, pcs = replicate 10 0\<rparr>),
     smem = (\<lambda>_. 0)\<rparr>"
  let ?t = "?s\<lparr>eflag := (\<lambda>_. True)(0 := False), cpus := [\<lparr>apicid = 7, ncli = 1, intena = True\<rparr>]\<rparr>"
  let ?u = "?t\<lparr>locks := (locks ?s)(5 := (locks ?s 5)\<lparr>locked := True\<rparr>)\<rparr>"
  let ?pc = "((\<lambda>_. Outside)(0 := Spinning 5))(0 := Got 5) :: nat \<Rightarrow> nat lockpc"
  have "reach lock_init lock_step (?s, \<lambda>_. Outside)"
    by (rule reach_init) (simp add: lock_init_def boot_mach_def)
  moreover have ok: "cpu_ok ?s 0" "cpu_ok ?t 0" by (simp_all add: cpu_ok_def)
  have "acquire_entry 0 5 ?s = Inr ((), ?t)"
    using pushcli_eq [OF ok(1)] holding_eq [OF ok(2), of 5]
    by (simp add: acquire_entry_def kthen_def kbind_def kret_def)
  then have "lock_step (?s, \<lambda>_. Outside) (?t, (\<lambda>_. Outside)(0 := Spinning 5))"
    by (intro lock_step.enter) simp_all
  moreover have "lock_step (?t, (\<lambda>_. Outside)(0 := Spinning 5)) (?u, ?pc)"
    by (rule lock_step.win [where lk = 5]) (simp_all add: xchg_locked_def)
  ultimately have r: "reach lock_init lock_step (?u, ?pc)" by (blast intro: reach_step)
  have o: "owns (?u, ?pc) 0 5" by (simp add: owns_def)
  from spinlock_mutual_exclusion [OF r o] r o show ?thesis by blast
qed

text \<open>C2. A matched pair: \<open>acquire\<close> of a free lock succeeds, the following \<open>release\<close> succeeds, and
  afterwards the lock is free again, the nesting depth is what it was and the interrupt flag has its
  old value.\<close>

theorem acquire_release_restores:
  assumes "cpu_ok s c" and "\<not> locked (locks s lk)"
  shows "\<exists>t u. acquire c v lk s = Inr ((), t) \<and> lkcpu (locks t lk) = Some c \<and> \<not> eflag t c \<and>
    release c lk t = Inr ((), u) \<and> \<not> locked (locks u lk) \<and> lkcpu (locks u lk) = None \<and>
    ncli (cpus u ! c) = ncli (cpus s ! c) \<and> eflag u = eflag s"
proof -
  let ?k = "(cpus s ! c)\<lparr>intena := (if ncli (cpus s ! c) = 0 then eflag s c else intena (cpus s ! c)),
      ncli := ncli (cpus s ! c) + 1\<rparr>"
  let ?t = "s\<lparr>eflag := (eflag s)(c := False), cpus := (cpus s)[c := ?k]\<rparr>"
  let ?l = "(locks s lk)\<lparr>locked := True, lkcpu := Some c, pcs := getcallerpcs (smem s) v\<rparr>"
  let ?a = "?t\<lparr>locks := (locks s)(lk := ?l)\<rparr>"
  let ?b = "?t\<lparr>locks := (locks s)(lk := ?l\<lparr>pcs := (pcs ?l)[0 := 0], lkcpu := None\<rparr>)\<rparr>"
  have c: "c < length (cpus s)" "0 \<le> ncli (cpus s ! c)" using assms(1) by (auto simp: cpu_ok_def)
  have ok: "cpu_ok ?t c" "cpu_ok ?a c" "cpu_ok ?b c" using assms(1) by (simp_all add: cpu_ok_def)
  have "mycpu c (?t\<lparr>locks := (locks s)(lk := (locks s lk)\<lparr>locked := True\<rparr>)\<rparr>) =
      Inr (c, ?t\<lparr>locks := (locks s)(lk := (locks s lk)\<lparr>locked := True\<rparr>)\<rparr>)"
    using assms(1) by (intro mycpu_eq) (simp_all add: cpu_ok_def)
  then have a: "acquire c v lk s = Inr ((), ?a)"
    using assms(2) c
    by (simp add: acquire_def acquire_entry_def pushcli_eq [OF assms(1)] holding_eq [OF ok(1)]
        kbind_def kthen_def kret_def xchg_locked_def acquire_record_def kmod_def)
  have e: "release_entry c lk ?a = Inr ((), ?b)"
    using c by (simp add: release_entry_def holding_eq [OF ok(2)] kbind_def kmod_def)
  let ?c = "?t\<lparr>locks := (locks s)(lk := ?l\<lparr>pcs := (pcs ?l)[0 := 0], lkcpu := None, locked := False\<rparr>)\<rparr>"
  have okc: "cpu_ok ?c c" using assms(1) by (simp add: cpu_ok_def)
  obtain u where u: "release c lk ?a = Inr ((), u)" "popcli c ?c = Inr ((), u)"
    using e popcli_eq [OF okc] c by (simp add: release_def release_store_def kthen_def kbind_def kmod_def)
  have "ncli (cpus u ! c) = ncli (cpus s ! c) \<and> eflag u = eflag s \<and>
      \<not> locked (locks u lk) \<and> lkcpu (locks u lk) = None"
    using u(2) popcli_eq [OF okc] c assms(1) by (auto simp: cpu_ok_def fun_upd_idem)
  with a u(1) show ?thesis by auto
qed

theorem acquire_release_restores_witness:
  "cpu_ok \<lparr>cpus = [\<lparr>apicid = 7, ncli = 0, intena = False\<rparr>], eflag = (\<lambda>_. True),
     locks = (\<lambda>_ :: nat. \<lparr>locked = False, lkname = ''l'', lkcpu = None, pcs = replicate 10 0\<rparr>),
     smem = (\<lambda>_. 0)\<rparr> 0 \<and>
   (\<exists>t. acquire 0 0 5 \<lparr>cpus = [\<lparr>apicid = 7, ncli = 0, intena = False\<rparr>], eflag = (\<lambda>_. True),
     locks = (\<lambda>_ :: nat. \<lparr>locked = False, lkname = ''l'', lkcpu = None, pcs = replicate 10 0\<rparr>),
     smem = (\<lambda>_. 0)\<rparr> = Inr ((), t) \<and> lkcpu (locks t 5) = Some 0)"
  (is "cpu_ok ?s 0 \<and> _")
proof
  show ok: "cpu_ok ?s 0" by (simp add: cpu_ok_def)
  show "\<exists>t. acquire 0 0 5 ?s = Inr ((), t) \<and> lkcpu (locks t 5) = Some 0"
    using acquire_release_restores [OF ok, of 5 0] by auto
qed

end
