(* ===== verification/Sleeplock.thy ===== *)
theory Sleeplock
  imports Spinlock
begin

text \<open>
  Sleep locks (\<open>sleeplock.c\<close>, \<open>sleeplock.h\<close>).  The spin lock \<open>lk\<close> inside a sleep lock is held
  from the first to the last access, so an operation is one atomic step on the lock; \<open>pid\<close> is the
  pid of the running process (\<open>myproc()->pid\<close>).  Where \<open>acquiresleep\<close> would put the process to
  sleep the model stops with \<open>Sleeps\<close>.
\<close>

record sleeplock =
  slocked :: bool
  slk :: spinlock
  slname :: string
  slpid :: int

definition initsleeplock :: "string \<Rightarrow> sleeplock \<Rightarrow> sleeplock" where
  "initsleeplock name lk = lk\<lparr>slk := init_lock ''sleep lock'' (slk lk), slname := name,
     slocked := False, slpid := 0\<rparr>"

definition acquiresleep :: "int \<Rightarrow> sleeplock \<Rightarrow> stop + sleeplock" where
  "acquiresleep pid lk =
     (if slocked lk then Inl (Sleeps (slname lk)) else Inr (lk\<lparr>slocked := True, slpid := pid\<rparr>))"

definition releasesleep :: "sleeplock \<Rightarrow> sleeplock" where
  "releasesleep lk = lk\<lparr>slocked := False, slpid := 0\<rparr>"

definition holdingsleep :: "int \<Rightarrow> sleeplock \<Rightarrow> bool" where
  "holdingsleep pid lk \<longleftrightarrow> slocked lk \<and> slpid lk = pid"

lemma acquiresleep_holding: "acquiresleep pid lk = Inr lk' \<Longrightarrow> holdingsleep pid lk'"
  by (auto simp: acquiresleep_def holdingsleep_def split: if_splits)

lemma releasesleep_acquire:
  "acquiresleep pid (releasesleep lk) = Inr (lk\<lparr>slocked := True, slpid := pid\<rparr>)"
  by (simp add: acquiresleep_def releasesleep_def)

end
