(* ===== verification/Kalloc.thy ===== *)
theory Kalloc
  imports Spinlock
begin

text \<open>
  The physical page allocator (\<open>kalloc.c\<close>) with the address constants of \<open>memlayout.h\<close> and
  \<open>mmu.h\<close>.  The free list is threaded through the free pages themselves: \<open>r->next\<close> is the first
  word of page \<open>r\<close> in the kernel's byte memory.  The linker symbol \<open>end\<close> is the constant field
  \<open>kend\<close> of the state.  The operations hold \<open>kmem.lock\<close> from the first to the last access of the
  free list, so each of them is one atomic step.
\<close>

section \<open>Definitions\<close>

definition PGSIZE :: uint where
  "PGSIZE = 4096"

definition PHYSTOP :: uint where
  "PHYSTOP = 0xE000000"

definition EXTMEM :: uint where
  "EXTMEM = 0x100000"

definition DEVSPACE :: uint where
  "DEVSPACE = 0xFE000000"

definition PGROUNDUP :: "uint \<Rightarrow> uint" where
  "PGROUNDUP sz = and (sz + PGSIZE - 1) (not (PGSIZE - 1))"

definition PGROUNDDOWN :: "uint \<Rightarrow> uint" where
  "PGROUNDDOWN a = and a (not (PGSIZE - 1))"

definition V2P :: "uint \<Rightarrow> ('s, uint) kern" where
  "V2P a = (if a < KERNBASE then kpanic ''V2P on address < KERNBASE'' else kret (a - KERNBASE))"

definition P2V :: "uint \<Rightarrow> ('s, uint) kern" where
  "P2V a = (if a > KERNBASE then kpanic ''P2V on address > KERNBASE'' else kret (a + KERNBASE))"

record kmem =
  kmem_lock :: spinlock
  use_lock :: bool
  freelist :: uint
  kmemory :: mem
  kend :: uint

definition kfree :: "uint \<Rightarrow> ('a kmem_scheme, unit) kern" where
  "kfree v =
     kbind (kget kend) (\<lambda>end.
     if v mod PGSIZE \<noteq> 0 \<or> v < end then kpanic ''kfree'' else
     kbind (V2P v) (\<lambda>pa.
     if pa \<ge> PHYSTOP then kpanic ''kfree'' else
     kthen (kmod (\<lambda>s. s\<lparr>kmemory := memset (kmemory s) v 1 PGSIZE\<rparr>))
     (kthen (kmod (\<lambda>s. s\<lparr>kmemory := store32 (kmemory s) v (freelist s)\<rparr>))
     (kmod (\<lambda>s. s\<lparr>freelist := v\<rparr>)))))"

definition kalloc :: "('a kmem_scheme, uint) kern" where
  "kalloc =
     kbind (kget freelist) (\<lambda>r.
     kthen (if r \<noteq> 0 then kmod (\<lambda>s. s\<lparr>freelist := load32 (kmemory s) r\<rparr>) else kret ())
     (kret r))"

lemma kfree_Inr_bound:
  assumes "kfree v s = Inr (u, t)" shows "unat v < 2415919104"
proof -
  from assms have "KERNBASE \<le> v" "v - KERNBASE < PHYSTOP"
    by (auto simp: kfree_def V2P_def kbind_def kget_def kpanic_def kret_def not_less not_le
        split: if_splits)
  then have "unat (v - KERNBASE) < 234881024" "unat (v - KERNBASE) = unat v - 2147483648"
    by (simp_all add: word_less_nat_alt PHYSTOP_def KERNBASE_def unat_sub)
  then show ?thesis by linarith
qed

text \<open>The loop of \<open>freerange\<close> ends because \<open>kfree\<close> panics above \<open>PHYSTOP\<close>: \<open>p\<close> never wraps.\<close>

function freerange_loop :: "uint \<Rightarrow> uint \<Rightarrow> 'a kmem_scheme \<Rightarrow> stop + unit \<times> 'a kmem_scheme" where
  "freerange_loop p vend s =
     (if p + PGSIZE \<le> vend
      then kbind (kfree p) (\<lambda>_. freerange_loop (p + PGSIZE) vend) s
      else Inr ((), s))"
  by pat_completeness auto
termination
proof (relation "measure (\<lambda>(p, vend, s). 4294967296 - unat p)", goal_cases)
  case (2 p vend s u t)
  then have "unat p < 2415919104" by (auto dest: kfree_Inr_bound)
  then show ?case by (simp add: PGSIZE_def unat_word_ariths)
qed simp

declare freerange_loop.simps [simp del]

definition freerange :: "uint \<Rightarrow> uint \<Rightarrow> ('a kmem_scheme, unit) kern" where
  "freerange vstart vend =
     (if vend < vstart then kpanic ''freerange''
      else freerange_loop (PGROUNDUP vstart) vend)"

definition kinit1 :: "uint \<Rightarrow> uint \<Rightarrow> ('a kmem_scheme, unit) kern" where
  "kinit1 vstart vend =
     kthen (kmod (\<lambda>s. s\<lparr>kmem_lock := init_lock ''kmem'' (kmem_lock s)\<rparr>))
     (kthen (kmod (\<lambda>s. s\<lparr>use_lock := False\<rparr>))
     (freerange vstart vend))"

definition kinit2 :: "uint \<Rightarrow> uint \<Rightarrow> ('a kmem_scheme, unit) kern" where
  "kinit2 vstart vend =
     kthen (freerange vstart vend)
     (kmod (\<lambda>s. s\<lparr>use_lock := True\<rparr>))"

subsection \<open>Abstraction: the list of free pages\<close>

fun on_freelist :: "mem \<Rightarrow> uint \<Rightarrow> uint list \<Rightarrow> bool" where
  "on_freelist m p [] \<longleftrightarrow> p = 0"
| "on_freelist m p (q # qs) \<longleftrightarrow> p = q \<and> q \<noteq> 0 \<and> on_freelist m (load32 m q) qs"

text \<open>An address the allocator deals in: page-aligned, above the kernel image, below \<open>PHYSTOP\<close>.\<close>

definition good_page :: "uint \<Rightarrow> uint \<Rightarrow> bool" where
  "good_page end v \<longleftrightarrow> v mod PGSIZE = 0 \<and> end \<le> v \<and> KERNBASE \<le> v \<and> v - KERNBASE < PHYSTOP"

definition kmem_inv :: "'a kmem_scheme \<Rightarrow> uint list \<Rightarrow> bool" where
  "kmem_inv s ps \<longleftrightarrow> on_freelist (kmemory s) (freelist s) ps \<and> distinct ps \<and>
     (\<forall>p \<in> set ps. good_page (kend s) p)"

text \<open>The byte at \<open>x\<close> lies in the page starting at \<open>p\<close>.\<close>

definition in_page :: "uint \<Rightarrow> uint \<Rightarrow> bool" where
  "in_page p x \<longleftrightarrow> unat (x - p) < 4096"

text \<open>The \<open>n\<close> pages from \<open>p\<close> on.\<close>

definition page_seq :: "uint \<Rightarrow> nat \<Rightarrow> uint list" where
  "page_seq p n = map (\<lambda>i. p + of_nat (4096 * i)) [0..<n]"

section \<open>Lemmas\<close>

lemma PGROUNDDOWN_div: "PGROUNDDOWN a = a div 4096 * 4096"
proof -
  have "PGROUNDDOWN a = and a (not (mask 12))"
    by (simp add: PGROUNDDOWN_def PGSIZE_def mask_eq_exp_minus_1)
  also have "\<dots> = push_bit 12 (drop_bit 12 a)"
    by (rule bit_word_eqI) (auto simp: bit_simps)
  finally show ?thesis by (simp add: push_bit_eq_mult drop_bit_eq_div)
qed

lemma unat_PGROUNDDOWN: "unat (PGROUNDDOWN a) = unat a div 4096 * 4096"
proof -
  have "unat a div 4096 * 4096 < 4294967296"
    using unat_uint_bound [of a] by (metis div_times_less_eq_dividend le_less_trans)
  then show ?thesis by (simp add: PGROUNDDOWN_div unat_word_ariths unat_div)
qed

lemma PGROUNDUP_down: "PGROUNDUP a = PGROUNDDOWN (a + 4095)"
  by (simp add: PGROUNDUP_def PGROUNDDOWN_def PGSIZE_def algebra_simps)

lemma unat_PGROUNDUP:
  "unat a < 4294963201 \<Longrightarrow> unat (PGROUNDUP a) = (unat a + 4095) div 4096 * 4096"
  by (simp add: PGROUNDUP_down unat_PGROUNDDOWN unat_word_ariths)

lemma aligned_unat: "(p::uint) mod PGSIZE = 0 \<longleftrightarrow> unat p mod 4096 = 0"
proof -
  have "unat (p mod PGSIZE) = unat p mod 4096" by (simp add: unat_mod PGSIZE_def)
  then show ?thesis by (metis unat_eq_zero)
qed

lemma in_page_unat:
  assumes "p mod PGSIZE = 0" and "in_page p x" shows "unat x = unat p + unat (x - p)"
proof -
  obtain k where k: "unat p = 4096 * k" using assms(1) by (auto simp: aligned_unat)
  with unat_uint_bound [of p] have "unat p + 4096 \<le> 4294967296" by simp
  then have "unat p + unat (x - p) < 4294967296" using assms(2) by (simp add: in_page_def)
  then show ?thesis using unat_add_lem [of p "x - p"] by simp
qed

lemma in_page_unique:
  assumes "p mod PGSIZE = 0" "q mod PGSIZE = 0" "in_page p x" "in_page q x"
  shows "p = q"
proof -
  have "unat x div 4096 = unat p div 4096"
    using in_page_unat [OF assms(1,3)] assms(1,3) by (auto simp: aligned_unat in_page_def)
  moreover have "unat x div 4096 = unat q div 4096"
    using in_page_unat [OF assms(2,4)] assms(2,4) by (auto simp: aligned_unat in_page_def)
  ultimately have "unat p = unat q"
    using assms(1,2) by (auto simp: aligned_unat elim!: dvdE)
  then show ?thesis by (simp add: word_unat_eq_iff)
qed

lemma load32_cong:
  "m a = m' a \<Longrightarrow> m (a + 1) = m' (a + 1) \<Longrightarrow> m (a + 2) = m' (a + 2) \<Longrightarrow> m (a + 3) = m' (a + 3)
   \<Longrightarrow> load32 m a = load32 m' a"
  by (simp add: load32_def)

lemma in_page_offset: "i < 4096 \<Longrightarrow> in_page p (p + of_nat i)"
  by (simp add: in_page_def unat_of_nat take_bit_nat_eq_self)

lemma in_page_word: "in_page p p" "in_page p (p + 1)" "in_page p (p + 2)" "in_page p (p + 3)"
  by (simp_all add: in_page_def)

lemma store32_other:
  "in_page p a \<Longrightarrow> in_page p (a + 1) \<Longrightarrow> in_page p (a + 2) \<Longrightarrow> in_page p (a + 3) \<Longrightarrow> \<not> in_page p x
   \<Longrightarrow> store32 m a w x = m x"
  by (auto simp: store32_def)

lemma memset_page_other: "\<not> in_page p x \<Longrightarrow> memset m p c PGSIZE x = m x"
  by (simp add: memset_correct in_page_def PGSIZE_def)

lemma on_freelist_cong:
  "\<forall>q \<in> set qs. load32 m q = load32 m' q \<Longrightarrow> on_freelist m p qs = on_freelist m' p qs"
  by (induction qs arbitrary: p) auto

text \<open>Writing inside one page leaves the links of every other page alone.\<close>

lemma on_freelist_frame:
  assumes "\<forall>q \<in> set qs. q mod PGSIZE = 0 \<and> q \<noteq> v" and "v mod PGSIZE = 0"
    and "\<And>x. \<not> in_page v x \<Longrightarrow> m' x = m x"
  shows "on_freelist m' p qs = on_freelist m p qs"
proof (rule on_freelist_cong, intro ballI load32_cong)
  fix q assume "q \<in> set qs"
  with assms(1) have q: "q mod PGSIZE = 0" "q \<noteq> v" by auto
  have "in_page q x \<Longrightarrow> m' x = m x" for x
    using in_page_unique [OF q(1) assms(2), of x] q(2) assms(3) by blast
  with in_page_word [of q]
  show "m' q = m q" "m' (q + 1) = m (q + 1)" "m' (q + 2) = m (q + 2)" "m' (q + 3) = m (q + 3)"
    by blast+
qed

lemma kfree_good:
  assumes "good_page (kend s) v"
  shows "kfree v s = Inr ((), s\<lparr>kmemory := store32 (memset (kmemory s) v 1 PGSIZE) v (freelist s),
    freelist := v\<rparr>)"
proof -
  have "\<not> v < kend s" "\<not> v < KERNBASE" "\<not> PHYSTOP \<le> v - KERNBASE" "v mod PGSIZE = 0"
    using assms by (auto simp: good_page_def)
  then show ?thesis by (simp add: kfree_def V2P_def kbind_def kthen_def kget_def kmod_def kret_def)
qed

lemma kfree_bad: "\<not> good_page (kend s) v \<Longrightarrow> \<exists>msg. kfree v s = Inl (Panic msg)"
  by (auto simp: kfree_def good_page_def V2P_def kbind_def kget_def kpanic_def kret_def not_le not_less)

lemma good_page_nonzero: "good_page e v \<Longrightarrow> v \<noteq> 0"
  by (auto simp: good_page_def KERNBASE_def)

lemma kfree_spec:
  assumes "kmem_inv s ps" and "good_page (kend s) v" and "v \<notin> set ps"
  shows "\<exists>t. kfree v s = Inr ((), t) \<and> kmem_inv t (v # ps) \<and> kend t = kend s \<and>
    (\<forall>x. \<not> in_page v x \<longrightarrow> kmemory t x = kmemory s x)"
proof -
  let ?m = "store32 (memset (kmemory s) v 1 PGSIZE) v (freelist s)"
  have fr: "\<not> in_page v x \<Longrightarrow> ?m x = kmemory s x" for x
    using in_page_word [of v] by (simp add: store32_other memset_page_other)
  have "on_freelist ?m (freelist s) ps"
    using assms on_freelist_frame [of ps v ?m "kmemory s" "freelist s"] fr
    by (auto simp: kmem_inv_def good_page_def)
  then have "kmem_inv (s\<lparr>kmemory := ?m, freelist := v\<rparr>) (v # ps)"
    using assms good_page_nonzero [OF assms(2)] by (simp add: kmem_inv_def)
  with fr show ?thesis by (simp add: kfree_good [OF assms(2)])
qed

lemma kalloc_Cons:
  assumes "kmem_inv s (p # ps)"
  shows "kalloc s = Inr (p, s\<lparr>freelist := load32 (kmemory s) p\<rparr>) \<and>
    kmem_inv (s\<lparr>freelist := load32 (kmemory s) p\<rparr>) ps \<and> good_page (kend s) p \<and> p \<noteq> 0 \<and> p \<notin> set ps"
  using assms
  by (auto simp: kmem_inv_def kalloc_def kbind_def kthen_def kget_def kmod_def kret_def)

lemma kalloc_Nil: "kmem_inv s [] \<Longrightarrow> kalloc s = Inr (0, s)"
  by (simp add: kmem_inv_def kalloc_def kbind_def kthen_def kget_def kret_def)

lemma page_seq_Suc: "page_seq p (Suc n) = p # page_seq (p + 4096) n"
proof -
  have "[0..<Suc n] = 0 # map Suc [0..<n]" by (metis map_Suc_upt upt_conv_Cons zero_less_Suc)
  then show ?thesis by (simp add: page_seq_def algebra_simps del: upt_Suc)
qed

lemma page_seq_unat:
  fixes p :: uint
  assumes "unat p + 4096 * n \<le> 4294967296" and "i < n"
  shows "unat (p + of_nat (4096 * i)) = unat p + 4096 * i"
proof -
  have b: "4096 * i < 4294967296" using assms by linarith
  have u: "unat (of_nat (4096 * i) :: uint) = 4096 * i"
    using b by (simp only: unat_of_nat) (simp add: take_bit_nat_eq_self)
  have "unat p + 4096 * i < 4294967296" using assms by linarith
  then show ?thesis using unat_add_lem [of p "of_nat (4096 * i)"] u by simp
qed

lemma set_page_seq:
  assumes "p mod PGSIZE = 0" and "unat p + 4096 * n \<le> 4294967296"
  shows "q \<in> set (page_seq p n) \<longleftrightarrow>
    q mod PGSIZE = 0 \<and> unat p \<le> unat q \<and> unat q < unat p + 4096 * n"
proof
  assume "q \<in> set (page_seq p n)"
  then obtain i where "i < n" "q = p + of_nat (4096 * i)" by (auto simp: page_seq_def)
  then show "q mod PGSIZE = 0 \<and> unat p \<le> unat q \<and> unat q < unat p + 4096 * n"
    using page_seq_unat [OF assms(2), of i] assms(1) by (simp add: aligned_unat)
next
  assume q: "q mod PGSIZE = 0 \<and> unat p \<le> unat q \<and> unat q < unat p + 4096 * n"
  define i where "i = (unat q - unat p) div 4096"
  have "(unat q - unat p) mod 4096 = 0"
    using q assms(1) by (auto simp: aligned_unat mod_0_imp_dvd dvd_imp_mod_0)
  then have i: "unat q = unat p + 4096 * i" using q by (auto simp: i_def)
  with q have "i < n" by simp
  moreover have "q = p + of_nat (4096 * i)"
    using page_seq_unat [OF assms(2) \<open>i < n\<close>] i by (simp only: word_unat_eq_iff)
  ultimately show "q \<in> set (page_seq p n)" by (auto simp: page_seq_def)
qed

lemma freerange_loop_spec:
  assumes "kmem_inv s ps" and "p mod PGSIZE = 0" and "kend s \<le> p" and "KERNBASE \<le> p"
    and "unat vend \<le> 2382364672"
    and "unat p + 4096 * n \<le> unat vend" and "unat vend < unat p + 4096 * Suc n"
    and "\<forall>q \<in> set ps. q \<notin> set (page_seq p n)"
  shows "\<exists>t. freerange_loop p vend s = Inr ((), t) \<and> kmem_inv t (rev (page_seq p n) @ ps) \<and>
    kend t = kend s"
  using assms
proof (induction n arbitrary: p ps s)
  case 0
  have "\<not> p + PGSIZE \<le> vend"
    using 0 by (auto simp: word_le_nat_alt PGSIZE_def unat_word_ariths KERNBASE_def)
  then show ?case using 0 by (simp add: freerange_loop.simps page_seq_def)
next
  case (Suc n)
  have up: "unat (p + PGSIZE) = unat p + 4096"
    using Suc.prems by (simp add: PGSIZE_def unat_word_ariths)
  have le: "p + PGSIZE \<le> vend" using up Suc.prems by (simp add: word_le_nat_alt)
  have "unat (p - KERNBASE) = unat p - 2147483648"
    using Suc.prems(4) by (simp add: unat_sub KERNBASE_def)
  then have good: "good_page (kend s) p"
    using Suc.prems by (simp add: good_page_def word_less_nat_alt PHYSTOP_def)
  have nin: "p \<notin> set ps" using Suc.prems(8) by (auto simp: page_seq_Suc)
  obtain t where t: "kfree p s = Inr ((), t)" "kmem_inv t (p # ps)" "kend t = kend s"
    using kfree_spec [OF Suc.prems(1) good nin] by blast
  have al: "(p + PGSIZE) mod PGSIZE = 0" using Suc.prems(2) up by (simp add: aligned_unat)
  have step: "page_seq p (Suc n) = p # page_seq (p + PGSIZE) n"
    by (simp add: page_seq_Suc PGSIZE_def)
  have "p \<notin> set (page_seq (p + PGSIZE) n)"
    using set_page_seq [OF al, of n p] up Suc.prems by auto
  then have "\<exists>u. freerange_loop (p + PGSIZE) vend t = Inr ((), u) \<and>
      kmem_inv u (rev (page_seq (p + PGSIZE) n) @ (p # ps)) \<and> kend u = kend t"
    using Suc.prems t up al step
    by (intro Suc.IH) (auto simp: word_le_nat_alt)
  then show ?case using le t by (auto simp: freerange_loop.simps [of p vend s] kbind_def step)
qed

subsection \<open>The allocator interface\<close>

text \<open>
  What the clients of the allocator (page tables, kernel stacks, pipes) rely on: an allocation takes
  the first free page or returns 0 when there is none, a free puts a usable page that is not on the
  list back in front, and the free pages are distinct, usable and not null.
\<close>

locale page_allocator =
  fixes alloc :: "('s, uint) kern" and free :: "uint \<Rightarrow> ('s, unit) kern"
    and free_pages :: "'s \<Rightarrow> uint list \<Rightarrow> bool" and usable :: "'s \<Rightarrow> uint \<Rightarrow> bool"
  assumes alloc_some: "free_pages s (p # ps) \<Longrightarrow>
      \<exists>t. alloc s = Inr (p, t) \<and> free_pages t ps \<and> usable t = usable s"
    and alloc_none: "free_pages s [] \<Longrightarrow> alloc s = Inr (0, s)"
    and free_ok: "free_pages s ps \<Longrightarrow> usable s p \<Longrightarrow> p \<notin> set ps \<Longrightarrow>
      \<exists>t. free p s = Inr ((), t) \<and> free_pages t (p # ps) \<and> usable t = usable s"
    and pages_usable: "free_pages s ps \<Longrightarrow> distinct ps \<and> (\<forall>p \<in> set ps. usable s p \<and> p \<noteq> 0)"
begin

lemma alloc_free_same:
  assumes "free_pages s (p # ps)"
  shows "\<exists>t. kbind alloc free s = Inr ((), t) \<and> free_pages t (p # ps)"
proof -
  obtain t where t: "alloc s = Inr (p, t)" "free_pages t ps" "usable t = usable s"
    using alloc_some [OF assms] by blast
  have "usable t p" "p \<notin> set ps" using pages_usable [OF assms] t(3) by auto
  then obtain u where "free p t = Inr ((), u)" "free_pages u (p # ps)"
    using free_ok [OF t(2)] by blast
  with t(1) show ?thesis by (auto simp: kbind_Inr)
qed

end

interpretation kpages: page_allocator kalloc kfree kmem_inv "\<lambda>s. good_page (kend s)"
proof
  fix s :: "'a kmem_scheme" and p ps
  show "kmem_inv s (p # ps) \<Longrightarrow> \<exists>t. kalloc s = Inr (p, t) \<and> kmem_inv t ps \<and>
      good_page (kend t) = good_page (kend s)"
    using kalloc_Cons [of s p ps] by force
  show "kmem_inv s [] \<Longrightarrow> kalloc s = Inr (0, s)" by (rule kalloc_Nil)
  show "kmem_inv s ps \<Longrightarrow> good_page (kend s) p \<Longrightarrow> p \<notin> set ps \<Longrightarrow>
      \<exists>t. kfree p s = Inr ((), t) \<and> kmem_inv t (p # ps) \<and> good_page (kend t) = good_page (kend s)"
    using kfree_spec [of s ps p] by force
  show "kmem_inv s ps \<Longrightarrow> distinct ps \<and> (\<forall>p \<in> set ps. good_page (kend s) p \<and> p \<noteq> 0)"
    by (auto simp: kmem_inv_def dest: good_page_nonzero)
qed

lemma good_page_unat:
  "good_page e q \<longleftrightarrow> q mod PGSIZE = 0 \<and> unat e \<le> unat q \<and> 2147483648 \<le> unat q \<and> unat q < 2382364672"
proof -
  have "v - KERNBASE < PHYSTOP \<longleftrightarrow> unat v < 2382364672" if "KERNBASE \<le> v" for v
  proof -
    have "unat (v - KERNBASE) = unat v - 2147483648" "2147483648 \<le> unat v"
      using that by (simp_all add: unat_sub KERNBASE_def word_le_nat_alt)
    then show ?thesis by (simp add: word_less_nat_alt PHYSTOP_def) linarith
  qed
  moreover have "KERNBASE \<le> q \<longleftrightarrow> 2147483648 \<le> unat q"
    by (simp add: KERNBASE_def word_le_nat_alt)
  ultimately show ?thesis unfolding good_page_def word_le_nat_alt [of e] by blast
qed

lemma freerange_spec:
  assumes inv: "kmem_inv s ps" and e: "kend s \<le> vstart" and kb: "KERNBASE \<le> vstart"
    and le: "unat vstart \<le> unat vend" and top: "unat vend \<le> 2382364672" and al: "unat vend mod 4096 = 0"
    and dis: "\<forall>q \<in> set ps. \<not> (unat vstart \<le> unat q \<and> unat q < unat vend)"
  shows "\<exists>t qs. freerange vstart vend s = Inr ((), t) \<and> kmem_inv t (qs @ ps) \<and> kend t = kend s \<and>
    set qs = {q. q mod PGSIZE = 0 \<and> unat vstart \<le> unat q \<and> unat q < unat vend}"
proof -
  let ?p = "PGROUNDUP vstart"
  have up: "unat ?p = (unat vstart + 4095) div 4096 * 4096" using le top by (simp add: unat_PGROUNDUP)
  then have alp: "?p mod PGSIZE = 0" by (simp add: aligned_unat)
  obtain k where k: "unat vend = 4096 * k" using al by auto
  have "(unat vstart + 4095) div 4096 < Suc k"
    using le k by (subst div_less_iff_less_mult) simp_all
  then have pv: "unat vstart \<le> unat ?p" "unat ?p \<le> unat vend" using up k by linarith+
  define n where "n = (unat vend - unat ?p) div 4096"
  have n: "unat ?p + 4096 * n = unat vend" using pv k up by (simp add: n_def)
  have fits: "unat ?p + 4096 * n \<le> 4294967296" using n top by linarith
  note mem = set_page_seq [OF alp fits, unfolded n]
  have "\<forall>q \<in> set ps. q \<notin> set (page_seq ?p n)"
    using dis pv mem by (meson order_trans)
  then obtain t where t: "freerange_loop ?p vend s = Inr ((), t)"
    "kmem_inv t (rev (page_seq ?p n) @ ps)" "kend t = kend s"
    using freerange_loop_spec [OF inv alp _ _ top, of n] n e kb pv by (auto simp: word_le_nat_alt)
  have ge: "unat ?p \<le> unat q" if "q mod PGSIZE = 0" "unat vstart \<le> unat q" for q
    using that up by (auto simp: aligned_unat elim!: dvdE)
  have "set (rev (page_seq ?p n)) = {q. q mod PGSIZE = 0 \<and> unat vstart \<le> unat q \<and> unat q < unat vend}"
  proof (rule set_eqI)
    fix q
    show "q \<in> set (rev (page_seq ?p n)) \<longleftrightarrow>
        q \<in> {q. q mod PGSIZE = 0 \<and> unat vstart \<le> unat q \<and> unat q < unat vend}"
      unfolding set_rev mem_Collect_eq mem using ge [of q] pv(1) order_trans by metis
  qed
  moreover have "\<not> vend < vstart" using le by (simp add: word_less_nat_alt)
  ultimately show ?thesis using t unfolding freerange_def
    by (intro exI [of _ t] exI [of _ "rev (page_seq ?p n)"]) simp
qed

lemma kmem_inv_more:
  "kmem_inv (s\<lparr>kmem_lock := l\<rparr>) ps = kmem_inv s ps" "kmem_inv (s\<lparr>use_lock := b\<rparr>) ps = kmem_inv s ps"
  by (simp_all add: kmem_inv_def)

section \<open>Properties\<close>



text \<open>C4. With \<open>p\<close> at the head of the free list, \<open>kalloc\<close> returns \<open>p\<close>, a usable non-null page that is no
  longer free, and leaves the rest of the list; freeing it restores the list.\<close>

theorem kalloc_kfree_roundtrip:
  assumes "kmem_inv s (p # ps)"
  shows "\<exists>t. kalloc s = Inr (p, t) \<and> kmem_inv t ps \<and> p \<notin> set ps \<and> p \<noteq> 0 \<and> good_page (kend t) p \<and>
    kmemory t = kmemory s \<and> (\<exists>u. kfree p t = Inr ((), u) \<and> kmem_inv u (p # ps))"
proof -
  let ?t = "s\<lparr>freelist := load32 (kmemory s) p\<rparr>"
  have a: "kalloc s = Inr (p, ?t)" "kmem_inv ?t ps" "good_page (kend s) p" "p \<noteq> 0" "p \<notin> set ps"
    using kalloc_Cons [OF assms] by auto
  moreover have "\<exists>u. kfree p ?t = Inr ((), u) \<and> kmem_inv u (p # ps)"
    using kpages.alloc_free_same [OF assms] a(1) by (simp add: kbind_Inr)
  ultimately show ?thesis by auto
qed

theorem kalloc_kfree_roundtrip_witness:
  "\<exists>(t :: kmem). kalloc \<lparr>kmem_lock = \<lparr>locked = False, lkname = [], lkcpu = None, pcs = []\<rparr>,
     use_lock = True, freelist = 0x80200000, kmemory = (\<lambda>_. 0), kend = 0x80115000\<rparr> =
     Inr (0x80200000, t) \<and> kmem_inv t []"
proof -
  let ?s = "\<lparr>kmem_lock = \<lparr>locked = False, lkname = [], lkcpu = None, pcs = []\<rparr>,
     use_lock = True, freelist = 0x80200000, kmemory = (\<lambda>_. 0), kend = 0x80115000\<rparr> :: kmem"
  have "kmem_inv ?s [0x80200000]"
    by (simp add: kmem_inv_def good_page_def load32_def PGSIZE_def KERNBASE_def PHYSTOP_def)
  from kalloc_kfree_roundtrip [OF this] show ?thesis by auto
qed

end
