(* ===== verification/Vm.thy ===== *)
theory Vm
  imports Kalloc
begin

text \<open>
  Page tables (\<open>vm.c\<close> and the address macros of \<open>mmu.h\<close>).  A page directory is a page of the kernel's
  memory, named by its kernel virtual address; directory and table entries are read from and
  written to that memory, and pages come from the allocator.  The linker symbol \<open>data\<close> is an argument
  of the operations that build a kernel map.  The null pointer is 0.
\<close>

section \<open>Definitions\<close>

subsection \<open>mmu.h\<close>

definition PTE_P :: uint where "PTE_P = 1"

definition PTE_W :: uint where "PTE_W = 2"

definition PTE_U :: uint where "PTE_U = 4"

definition NPDENTRIES :: nat where "NPDENTRIES = 1024"

definition PDX :: "uint \<Rightarrow> uint" where
  "PDX va = and (drop_bit 22 va) 0x3FF"

definition PTX :: "uint \<Rightarrow> uint" where
  "PTX va = and (drop_bit 12 va) 0x3FF"

definition PGADDR :: "uint \<Rightarrow> uint \<Rightarrow> uint \<Rightarrow> uint" where
  "PGADDR d t p = or (push_bit 22 d) (or (push_bit 12 t) p)"

definition PTE_ADDR :: "uint \<Rightarrow> uint" where
  "PTE_ADDR pte = and pte (not 0xFFF)"

definition PTE_FLAGS :: "uint \<Rightarrow> uint" where
  "PTE_FLAGS pte = and pte 0xFFF"

definition KERNLINK :: uint where
  "KERNLINK = KERNBASE + EXTMEM"

subsection \<open>vm.c\<close>

definition load :: "uint \<Rightarrow> ('a kmem_scheme, uint) kern" where
  "load a = kget (\<lambda>s. load32 (kmemory s) a)"

definition store :: "uint \<Rightarrow> uint \<Rightarrow> ('a kmem_scheme, unit) kern" where
  "store a w = kmod (\<lambda>s. s\<lparr>kmemory := store32 (kmemory s) a w\<rparr>)"

definition zero_page :: "uint \<Rightarrow> ('a kmem_scheme, unit) kern" where
  "zero_page p = kmod (\<lambda>s. s\<lparr>kmemory := memset (kmemory s) p 0 PGSIZE\<rparr>)"

definition walkpgdir :: "uint \<Rightarrow> uint \<Rightarrow> bool \<Rightarrow> ('a kmem_scheme, uint) kern" where
  "walkpgdir pgdir va alloc =
     (let pdep = pgdir + 4 * PDX va in
      kbind (load pdep) (\<lambda>pde.
      if and pde PTE_P \<noteq> 0 then
        kbind (P2V (PTE_ADDR pde)) (\<lambda>pgtab. kret (pgtab + 4 * PTX va))
      else if \<not> alloc then kret 0
      else
        kbind kalloc (\<lambda>pgtab.
        if pgtab = 0 then kret 0 else
        kthen (zero_page pgtab)
        (kbind (V2P pgtab) (\<lambda>pa.
        kthen (store pdep (or pa (or PTE_P (or PTE_W PTE_U))))
        (kret (pgtab + 4 * PTX va)))))))"

text \<open>The loop of \<open>mappages\<close>; the first argument is the number of pages after this one.\<close>

fun mappages_loop :: "nat \<Rightarrow> uint \<Rightarrow> uint \<Rightarrow> uint \<Rightarrow> uint \<Rightarrow> ('a kmem_scheme, int) kern" where
  "mappages_loop n pgdir a pa perm =
     kbind (walkpgdir pgdir a True) (\<lambda>pte.
     if pte = 0 then kret (- 1) else
     kbind (load pte) (\<lambda>e.
     if and e PTE_P \<noteq> 0 then kpanic ''remap'' else
     kthen (store pte (or pa (or perm PTE_P)))
     (case n of
        0 \<Rightarrow> kret 0
      | Suc m \<Rightarrow> mappages_loop m pgdir (a + PGSIZE) (pa + PGSIZE) perm)))"

declare mappages_loop.simps [simp del]

text \<open>\<open>a\<close> and \<open>last\<close> are page aligned, so \<open>a\<close> meets \<open>last\<close> after \<open>(last - a) / PGSIZE\<close> steps.\<close>

definition mappages :: "uint \<Rightarrow> uint \<Rightarrow> uint \<Rightarrow> uint \<Rightarrow> uint \<Rightarrow> ('a kmem_scheme, int) kern" where
  "mappages pgdir va sz pa perm =
     (let a = PGROUNDDOWN va; last = PGROUNDDOWN (va + sz - 1) in
      mappages_loop (unat (last - a) div unat PGSIZE) pgdir a pa perm)"

function dealloc_loop :: "uint \<Rightarrow> uint \<Rightarrow> uint \<Rightarrow> ('a kmem_scheme, unit) kern" where
  "dealloc_loop pgdir oldsz a =
     (if a < oldsz then
        kbind (walkpgdir pgdir a False) (\<lambda>pte.
        kbind (if pte = 0 then kret (PGADDR (PDX a + 1) 0 0 - PGSIZE) else
               kbind (load pte) (\<lambda>e.
               if and e PTE_P \<noteq> 0 then
                 let pa = PTE_ADDR e in
                 if pa = 0 then kpanic ''kfree'' else
                 kbind (P2V pa) (\<lambda>v.
                 kthen (kfree v)
                 (kthen (store pte 0)
                 (kret a)))
               else kret a)) (\<lambda>a'.
        if a' + PGSIZE \<le> a then (\<lambda>s. Inl Diverges)
        else dealloc_loop pgdir oldsz (a' + PGSIZE)))
      else kret ())"
  by pat_completeness auto
termination
  by (relation "measure (\<lambda>(pgdir, oldsz, a). 4294967296 - unat a)")
    (use unat_uint_bound in \<open>auto simp: word_le_nat_alt not_le intro!: diff_less_mono2\<close>)

declare dealloc_loop.simps [simp del]

definition deallocuvm :: "uint \<Rightarrow> uint \<Rightarrow> uint \<Rightarrow> ('a kmem_scheme, uint) kern" where
  "deallocuvm pgdir oldsz newsz =
     (if newsz \<ge> oldsz then kret oldsz
      else kthen (dealloc_loop pgdir oldsz (PGROUNDUP newsz)) (kret newsz))"

definition freevm :: "uint \<Rightarrow> ('a kmem_scheme, unit) kern" where
  "freevm pgdir =
     (if pgdir = 0 then kpanic ''freevm: no pgdir'' else
      kthen (deallocuvm pgdir KERNBASE 0)
      (kthen (kfor [0..<NPDENTRIES] (\<lambda>i.
         kbind (load (pgdir + 4 * of_nat i)) (\<lambda>e.
         if and e PTE_P \<noteq> 0 then kbind (P2V (PTE_ADDR e)) kfree else kret ())))
      (kfree pgdir)))"

text \<open>The table \<open>kmap\<close>: virtual address, physical start and end, permissions.\<close>

definition kmap :: "uint \<Rightarrow> (uint \<times> uint \<times> uint \<times> uint) list" where
  "kmap data = [(KERNBASE, 0, EXTMEM, PTE_W), (KERNLINK, KERNLINK - KERNBASE, data - KERNBASE, 0),
     (data, data - KERNBASE, PHYSTOP, PTE_W), (DEVSPACE, DEVSPACE, 0, PTE_W)]"

fun map_kernel :: "(uint \<times> uint \<times> uint \<times> uint) list \<Rightarrow> uint \<Rightarrow> ('a kmem_scheme, uint) kern" where
  "map_kernel [] pgdir = kret pgdir"
| "map_kernel ((virt, pstart, pend, perm) # ks) pgdir =
     kbind (mappages pgdir virt (pend - pstart) pstart perm) (\<lambda>r.
     if r < 0 then kthen (freevm pgdir) (kret 0) else map_kernel ks pgdir)"

definition setupkvm :: "uint \<Rightarrow> ('a kmem_scheme, uint) kern" where
  "setupkvm data =
     kbind kalloc (\<lambda>pgdir.
     if pgdir = 0 then kret 0 else
     kthen (zero_page pgdir)
     (kbind (P2V PHYSTOP) (\<lambda>top.
     if top > DEVSPACE then kpanic ''PHYSTOP too high'' else
     map_kernel (kmap data) pgdir)))"

definition inituvm :: "uint \<Rightarrow> uchar list \<Rightarrow> ('a kmem_scheme, unit) kern" where
  "inituvm pgdir init =
     (if length init \<ge> unat PGSIZE then kpanic ''inituvm: more than a page'' else
      kbind kalloc (\<lambda>m.
      kthen (zero_page m)
      (kbind (V2P m) (\<lambda>pa.
      kthen (mappages pgdir 0 PGSIZE pa (or PTE_W PTE_U))
      (kmod (\<lambda>s. s\<lparr>kmemory := write_mem (kmemory s) m init\<rparr>))))))"

text \<open>The pages that the loops \<open>for(a = start; a < end; a += PGSIZE)\<close> visit.\<close>

definition pages_upto :: "uint \<Rightarrow> uint \<Rightarrow> uint list" where
  "pages_upto start end = page_seq start ((unat end - unat start + 4095) div 4096)"

fun alloc_loop :: "uint \<Rightarrow> uint \<Rightarrow> uint \<Rightarrow> uint list \<Rightarrow> ('a kmem_scheme, uint) kern" where
  "alloc_loop pgdir oldsz newsz [] = kret newsz"
| "alloc_loop pgdir oldsz newsz (a # as) =
     kbind kalloc (\<lambda>m.
     if m = 0 then kthen (deallocuvm pgdir newsz oldsz) (kret 0) else
     kthen (zero_page m)
     (kbind (V2P m) (\<lambda>pa.
     kbind (mappages pgdir a PGSIZE pa (or PTE_W PTE_U)) (\<lambda>r.
     if r < 0 then kthen (deallocuvm pgdir newsz oldsz) (kthen (kfree m) (kret 0))
     else alloc_loop pgdir oldsz newsz as))))"

definition allocuvm :: "uint \<Rightarrow> uint \<Rightarrow> uint \<Rightarrow> ('a kmem_scheme, uint) kern" where
  "allocuvm pgdir oldsz newsz =
     (if newsz \<ge> KERNBASE then kret 0
      else if newsz < oldsz then kret oldsz
      else alloc_loop pgdir oldsz newsz (pages_upto (PGROUNDUP oldsz) newsz))"

definition clearpteu :: "uint \<Rightarrow> uint \<Rightarrow> ('a kmem_scheme, unit) kern" where
  "clearpteu pgdir uva =
     kbind (walkpgdir pgdir uva False) (\<lambda>pte.
     if pte = 0 then kpanic ''clearpteu'' else
     kbind (load pte) (\<lambda>e. store pte (and e (not PTE_U))))"

fun copy_loop :: "uint \<Rightarrow> uint \<Rightarrow> uint list \<Rightarrow> ('a kmem_scheme, uint) kern" where
  "copy_loop pgdir d [] = kret d"
| "copy_loop pgdir d (i # is) =
     kbind (walkpgdir pgdir i False) (\<lambda>pte.
     if pte = 0 then kpanic ''copyuvm: pte should exist'' else
     kbind (load pte) (\<lambda>e.
     if and e PTE_P = 0 then kpanic ''copyuvm: page not present'' else
     kbind kalloc (\<lambda>m.
     if m = 0 then kthen (freevm d) (kret 0) else
     kbind (P2V (PTE_ADDR e)) (\<lambda>src.
     kthen (kmod (\<lambda>s. s\<lparr>kmemory := memmove (kmemory s) m src PGSIZE\<rparr>))
     (kbind (V2P m) (\<lambda>pa.
     kbind (mappages d i PGSIZE pa (PTE_FLAGS e)) (\<lambda>r.
     if r < 0 then kthen (kfree m) (kthen (freevm d) (kret 0))
     else copy_loop pgdir d is)))))))"

definition copyuvm :: "uint \<Rightarrow> uint \<Rightarrow> uint \<Rightarrow> ('a kmem_scheme, uint) kern" where
  "copyuvm data pgdir sz =
     kbind (setupkvm data) (\<lambda>d.
     if d = 0 then kret 0 else copy_loop pgdir d (pages_upto 0 sz))"

text \<open>\<open>uva2ka\<close> reads the entry \<open>walkpgdir\<close> returns without testing it for null.\<close>

definition uva2ka :: "uint \<Rightarrow> uint \<Rightarrow> ('a kmem_scheme, uint) kern" where
  "uva2ka pgdir uva =
     kbind (walkpgdir pgdir uva False) (\<lambda>pte.
     if pte = 0 then kundef ''*pte of a null pte'' else
     kbind (load pte) (\<lambda>e.
     if and e PTE_P = 0 then kret 0
     else if and e PTE_U = 0 then kret 0
     else P2V (PTE_ADDR e)))"

function copyout :: "uint \<Rightarrow> uint \<Rightarrow> uchar list \<Rightarrow> ('a kmem_scheme, int) kern" where
  "copyout pgdir va p =
     (if p = [] then kret 0 else
      let va0 = PGROUNDDOWN va; n = min (unat (PGSIZE - (va - va0))) (length p) in
      kbind (uva2ka pgdir va0) (\<lambda>pa0.
      if pa0 = 0 then kret (- 1) else
      kthen (kmod (\<lambda>s. s\<lparr>kmemory := write_mem (kmemory s) (pa0 + (va - va0)) (take n p)\<rparr>))
      (copyout pgdir (va0 + PGSIZE) (drop n p))))"
  by pat_completeness auto
termination
proof (relation "measure (\<lambda>(pgdir, va, p). length p)")
  fix pgdir va :: uint and p :: "uchar list" and va0 n
  assume "p \<noteq> []" and d: "va0 = PGROUNDDOWN va" "n = min (unat (PGSIZE - (va - va0))) (length p)"
  have "va - va0 = va mod 4096"
    unfolding d(1) PGROUNDDOWN_div by (simp add: minus_div_mult_eq_mod)
  moreover have "va mod 4096 < 4096" by (simp add: word_mod_less_divisor)
  ultimately have "PGSIZE - (va - va0) \<noteq> 0" by (auto simp: PGSIZE_def)
  then have "0 < n" using d(2) \<open>p \<noteq> []\<close> by (simp add: unat_gt_0)
  then show "((pgdir, va0 + PGSIZE, drop n p), pgdir, va, p) \<in> measure (\<lambda>(pgdir, va, p). length p)"
    using \<open>p \<noteq> []\<close> by simp
qed simp

declare copyout.simps [simp del]

end
