(* ===== verification/Ptable.thy ===== *)
theory Ptable
  imports Vm
begin

text \<open>
  The process table (\<open>proc.c\<close>, \<open>proc.h\<close>, the trap frame of \<open>x86.h\<close>): allocation of slots, sleeping and waking,
  killing, waiting, the state changes of fork and exit, the priority scheduler, \<open>proc_ps\<close> and
  \<open>proc_nice\<close>.  A process pointer is an index into \<open>ptable.proc\<close>; \<open>curproc\<close> is the process running on this
  CPU.  \<open>ptable.lock\<close> is held from the first to the last access of the table in each operation, so
  that between \<open>lock_ptable\<close> and \<open>unlock_ptable\<close> an operation is one atomic step.  Trap frame and
  context are stored by value instead of at the top of the kernel stack.  \<open>swtch\<close> ends an
  operation; the rest of \<open>sleep\<close> is the separate operation \<open>sleep_resume\<close>.
\<close>

section \<open>Definitions\<close>

definition NPROC :: nat where [param_defs]: "NPROC = 64"

definition NOFILE :: nat where [param_defs]: "NOFILE = 16"

definition MAX_PROC_NAME_LENGTH :: nat where [param_defs]: "MAX_PROC_NAME_LENGTH = 16"

datatype procstate = UNUSED | EMBRYO | SLEEPING | RUNNABLE | RUNNING | ZOMBIE

datatype wchan = OnProc nat | OnTicks | OnInput | OnAddr uint

record trapframe =
  tf_edi :: uint
  tf_esi :: uint
  tf_ebp :: uint
  tf_oesp :: uint
  tf_ebx :: uint
  tf_edx :: uint
  tf_ecx :: uint
  tf_eax :: uint
  tf_gs :: ushort
  tf_fs :: ushort
  tf_es :: ushort
  tf_ds :: ushort
  tf_trapno :: uint
  tf_err :: uint
  tf_eip :: uint
  tf_cs :: ushort
  tf_eflags :: uint
  tf_esp :: uint
  tf_ss :: ushort

text \<open>Where \<open>swtch\<close> resumes a process: in \<open>forkret\<close> or behind its own call of \<open>swtch\<close>.\<close>

datatype context_eip = Forkret | InSched

record proc =
  p_sz :: uint
  p_pgdir :: uint
  p_kstack :: uint
  p_state :: procstate
  p_pid :: int
  p_parent :: "nat option"
  p_tf :: trapframe
  p_context :: context_eip
  p_chan :: "wchan option"
  p_killed :: bool
  p_ofile :: "nat option list"
  p_cwd :: "nat option"
  p_name :: "uchar list"
  ticksAtStart :: int
  ticksScheduled :: int
  p_priority :: int

record procInfo =
  pi_state :: procstate
  pi_pid :: int
  pi_cpuPercent :: int
  pi_name :: "uchar list"

record ktab = kmem +
  ptable_held :: bool
  cpu_ncli :: int
  cpu_intr :: bool
  ptable :: "nat \<Rightarrow> proc"
  nextpid :: int
  initproc :: "nat option"
  curproc :: nat
  ticks :: uint
  cr3 :: uint

definition upd_proc :: "nat \<Rightarrow> (proc \<Rightarrow> proc) \<Rightarrow> 'a ktab_scheme \<Rightarrow> 'a ktab_scheme" where
  "upd_proc p f s = s\<lparr>ptable := (ptable s)(p := f (ptable s p))\<rparr>"

abbreviation myproc :: "'a ktab_scheme \<Rightarrow> proc" where
  "myproc s \<equiv> ptable s (curproc s)"

text \<open>\<open>acquire(&ptable.lock)\<close> and \<open>release(&ptable.lock)\<close> on this CPU.\<close>

definition lock_ptable :: "('a ktab_scheme, unit) kern" where
  "lock_ptable = (\<lambda>s. if ptable_held s then Inl (Panic ''acquire'')
     else Inr ((), s\<lparr>ptable_held := True, cpu_ncli := cpu_ncli s + 1, cpu_intr := False\<rparr>))"

definition unlock_ptable :: "('a ktab_scheme, unit) kern" where
  "unlock_ptable = (\<lambda>s. if \<not> ptable_held s then Inl (Panic ''release'')
     else Inr ((), s\<lparr>ptable_held := False, cpu_ncli := cpu_ncli s - 1, cpu_intr := cpu_ncli s = 1\<rparr>))"

text \<open>At most \<open>n - 1\<close> bytes of a C string: the string \<open>safestrcpy\<close> leaves in its destination.\<close>

definition safe_copy :: "uchar list \<Rightarrow> nat \<Rightarrow> uchar list" where
  "safe_copy src n = take (n - 1) (takeWhile (\<lambda>c. c \<noteq> 0) src)"

subsection \<open>Allocation\<close>

text \<open>The search loop of \<open>allocproc\<close>, which writes \<open>priority\<close> in every slot it passes.\<close>

fun alloc_scan :: "nat list \<Rightarrow> ('a ktab_scheme, nat option) kern" where
  "alloc_scan [] = kret None"
| "alloc_scan (p # ps) =
     kthen (kmod (upd_proc p (\<lambda>x. x\<lparr>p_priority := 0\<rparr>)))
     (kbind (kget (\<lambda>s. p_state (ptable s p))) (\<lambda>st.
     if st = UNUSED then kret (Some p) else alloc_scan ps))"

definition allocproc :: "('a ktab_scheme, nat option) kern" where
  "allocproc =
     kthen lock_ptable
     (kbind (alloc_scan [0..<NPROC]) (\<lambda>r.
     case r of
       None \<Rightarrow> kthen unlock_ptable (kret None)
     | Some p \<Rightarrow>
         kthen (kmod (\<lambda>s. upd_proc p (\<lambda>x. x\<lparr>p_state := EMBRYO, p_pid := nextpid s\<rparr>) (s\<lparr>nextpid := nextpid s + 1\<rparr>)))
         (kthen unlock_ptable
         (kbind kalloc (\<lambda>kstack.
         kthen (kmod (upd_proc p (\<lambda>x. x\<lparr>p_kstack := kstack\<rparr>)))
         (if kstack = 0 then kthen (kmod (upd_proc p (\<lambda>x. x\<lparr>p_state := UNUSED\<rparr>))) (kret None)
          else kthen (kmod (upd_proc p (\<lambda>x. x\<lparr>p_context := Forkret\<rparr>))) (kret (Some p))))))))"

subsection \<open>Waking and sleeping\<close>

definition wakeup1 :: "wchan \<Rightarrow> ('a ktab_scheme, unit) kern" where
  "wakeup1 chan = kfor [0..<NPROC] (\<lambda>p. kmod (\<lambda>s.
     if p_state (ptable s p) = SLEEPING \<and> p_chan (ptable s p) = Some chan
     then upd_proc p (\<lambda>x. x\<lparr>p_state := RUNNABLE\<rparr>) s else s))"

definition wakeup :: "wchan \<Rightarrow> ('a ktab_scheme, unit) kern" where
  "wakeup chan = kthen lock_ptable (kthen (wakeup1 chan) unlock_ptable)"

text \<open>\<open>sched\<close> up to \<open>swtch\<close>.\<close>

definition sched :: "('a ktab_scheme, unit) kern" where
  "sched = (\<lambda>s.
     if \<not> ptable_held s then Inl (Panic ''sched ptable.lock'')
     else if cpu_ncli s \<noteq> 1 then Inl (Panic ''sched locks'')
     else if p_state (myproc s) = RUNNING then Inl (Panic ''sched running'')
     else if cpu_intr s then Inl (Panic ''sched interruptible'')
     else Inr ((), upd_proc (curproc s) (\<lambda>x. x\<lparr>ticksScheduled := ticksScheduled x + 1, p_context := InSched\<rparr>) s))"

definition set_state :: "procstate \<Rightarrow> ('a ktab_scheme, unit) kern" where
  "set_state st = kmod (\<lambda>s. upd_proc (curproc s) (\<lambda>x. x\<lparr>p_state := st\<rparr>) s)"

definition yield :: "('a ktab_scheme, unit) kern" where
  "yield = kthen lock_ptable (kthen (set_state RUNNABLE) sched)"

text \<open>\<open>sleep(chan, lk)\<close>: \<open>own\<close> says that \<open>lk\<close> is \<open>ptable.lock\<close>; another lock is released when
  \<open>ptable.lock\<close> is taken, which leaves the nesting depth as it is.\<close>

definition sleep :: "wchan \<Rightarrow> bool \<Rightarrow> ('a ktab_scheme, unit) kern" where
  "sleep chan own =
     kthen (if own then kret () else
       kthen lock_ptable (kmod (\<lambda>s. s\<lparr>cpu_ncli := cpu_ncli s - 1\<rparr>)))
     (kthen (kmod (\<lambda>s. upd_proc (curproc s) (\<lambda>x. x\<lparr>p_chan := Some chan\<rparr>) s))
     (kthen (set_state SLEEPING)
     sched))"

definition sleep_resume :: "('a ktab_scheme, unit) kern" where
  "sleep_resume = kmod (\<lambda>s. upd_proc (curproc s) (\<lambda>x. x\<lparr>p_chan := None\<rparr>) s)"

definition kill :: "int \<Rightarrow> ('a ktab_scheme, int) kern" where
  "kill pid =
     kthen lock_ptable
     (kbind (kget (\<lambda>s. find (\<lambda>p. p_pid (ptable s p) = pid) [0..<NPROC])) (\<lambda>r.
     case r of
       Some p \<Rightarrow>
         kthen (kmod (upd_proc p (\<lambda>x. x\<lparr>p_killed := True\<rparr>)))
         (kthen (kmod (\<lambda>s. if p_state (ptable s p) = SLEEPING then upd_proc p (\<lambda>x. x\<lparr>p_state := RUNNABLE\<rparr>) s else s))
         (kthen unlock_ptable
         (kret 0)))
     | None \<Rightarrow> kthen unlock_ptable (kret (- 1))))"

subsection \<open>Fork, exit, wait\<close>

text \<open>\<open>fork\<close>: the fields set before the files are duplicated, and the final locked section.\<close>

definition fork_copy :: "nat \<Rightarrow> ('a ktab_scheme, unit) kern" where
  "fork_copy np = kmod (\<lambda>s. upd_proc np (\<lambda>x. x\<lparr>p_sz := p_sz (myproc s), p_parent := Some (curproc s),
     p_tf := (p_tf (myproc s))\<lparr>tf_eax := 0\<rparr>\<rparr>) s)"

definition fork_publish :: "nat \<Rightarrow> ('a ktab_scheme, unit) kern" where
  "fork_publish np =
     kthen lock_ptable
     (kthen (kmod (\<lambda>s. upd_proc np (\<lambda>x. x\<lparr>p_state := RUNNABLE, ticksAtStart := sint (ticks s), ticksScheduled := 0\<rparr>) s))
     unlock_ptable)"

text \<open>\<open>exit\<close> from \<open>acquire(&ptable.lock)\<close> on.\<close>

definition exit_locked :: "('a ktab_scheme, unit) kern" where
  "exit_locked =
     kthen lock_ptable
     (kbind (kget (\<lambda>s. (p_parent (myproc s), curproc s, initproc s))) (\<lambda>(parent, cur, ini).
     kthen (case parent of Some q \<Rightarrow> wakeup1 (OnProc q) | None \<Rightarrow> kret ())
     (kthen (kfor [0..<NPROC] (\<lambda>p.
        kbind (kget (\<lambda>s. ptable s p)) (\<lambda>x.
        if p_parent x = Some cur then
          kthen (kmod (upd_proc p (\<lambda>x. x\<lparr>p_parent := ini\<rparr>)))
          (if p_state x = ZOMBIE then (case ini of Some i \<Rightarrow> wakeup1 (OnProc i) | None \<Rightarrow> kret ()) else kret ())
        else kret ())))
     (kthen (set_state ZOMBIE)
     sched))))"

text \<open>One round of \<open>wait\<close>; \<open>Sleeps\<close> stands for the call of \<open>sleep\<close>, after which the loop starts again.\<close>

definition reap :: "nat \<Rightarrow> ('a ktab_scheme, int) kern" where
  "reap p =
     kbind (kget (\<lambda>s. ptable s p)) (\<lambda>x.
     kthen (kfree (p_kstack x))
     (kthen (kmod (upd_proc p (\<lambda>x. x\<lparr>p_kstack := 0\<rparr>)))
     (kthen (freevm (p_pgdir x))
     (kthen (kmod (upd_proc p (\<lambda>x. x\<lparr>p_pid := 0, p_parent := None, p_name := [], p_killed := False,
        p_state := UNUSED\<rparr>)))
     (kthen unlock_ptable
     (kret (p_pid x)))))))"

text \<open>The scan of \<open>wait\<close>: the first exited child.\<close>

definition zombie_child :: "'a ktab_scheme \<Rightarrow> nat option" where
  "zombie_child s = find (\<lambda>p. p_parent (ptable s p) = Some (curproc s) \<and> p_state (ptable s p) = ZOMBIE) [0..<NPROC]"

definition wait :: "('a ktab_scheme, int) kern" where
  "wait =
     kthen lock_ptable
     (kbind (kget zombie_child) (\<lambda>r.
     case r of
       Some p \<Rightarrow> reap p
     | None \<Rightarrow>
         kbind (kget (\<lambda>s. (\<exists>p \<in> {..<NPROC}. p_parent (ptable s p) = Some (curproc s)) \<and> \<not> p_killed (myproc s))) (\<lambda>go.
         if \<not> go then kthen unlock_ptable (kret (- 1)) else ksleep ''wait'')))"

text \<open>The panics of \<open>switchuvm\<close> and the load of \<open>cr3\<close>; segment descriptors are not modelled.\<close>

definition switchuvm :: "nat \<Rightarrow> ('a ktab_scheme, unit) kern" where
  "switchuvm p =
     kbind (kget (\<lambda>s. ptable s p)) (\<lambda>x.
     if p_kstack x = 0 then kpanic ''switchuvm: no kstack''
     else if p_pgdir x = 0 then kpanic ''switchuvm: no pgdir''
     else kbind (V2P (p_pgdir x)) (\<lambda>pa. kmod (\<lambda>s. s\<lparr>cr3 := pa\<rparr>)))"

definition growproc :: "int \<Rightarrow> ('a ktab_scheme, int) kern" where
  "growproc n =
     kbind (kget myproc) (\<lambda>x.
     kbind (if n > 0 then allocuvm (p_pgdir x) (p_sz x) (p_sz x + of_int n)
            else if n < 0 then deallocuvm (p_pgdir x) (p_sz x) (p_sz x + of_int n)
            else kret (p_sz x)) (\<lambda>sz.
     if n \<noteq> 0 \<and> sz = 0 then kret (- 1) else
     kthen (kmod (\<lambda>s. upd_proc (curproc s) (\<lambda>x. x\<lparr>p_sz := sz\<rparr>) s))
     (kthen (kbind (kget curproc) switchuvm)
     (kret 0))))"

subsection \<open>Scheduler\<close>

text \<open>One test of the scheduler's loop at slot \<open>p\<close> with \<open>lowestPriority = low\<close>.\<close>

definition chosen :: "'a ktab_scheme \<Rightarrow> int \<Rightarrow> nat \<Rightarrow> bool" where
  "chosen s low p \<longleftrightarrow> \<not> (p_state (ptable s p) \<noteq> RUNNABLE \<or> p_priority (ptable s p) > low)"

definition lowest_init :: int where "lowest_init = 0x77777777"

definition dispatch :: "nat \<Rightarrow> ('a ktab_scheme, unit) kern" where
  "dispatch p =
     kthen (kmod (\<lambda>s. s\<lparr>curproc := p\<rparr>))
     (kthen (switchuvm p)
     (kmod (upd_proc p (\<lambda>x. x\<lparr>p_state := RUNNING\<rparr>))))"

subsection \<open>proc_ps and proc_nice\<close>

definition cpu_percent :: "int \<Rightarrow> proc \<Rightarrow> int" where
  "cpu_percent now x =
     (let elapsed = now - ticksAtStart x in
      if elapsed > 0 \<and> 1 < ticksScheduled x
      then let c = ticksScheduled x * 100 div elapsed in if 100 < c then 100 else c
      else 0)"

text \<open>The entries stored into \<open>arrayOfProcInfo\<close> from index 0 on; their number is the result.\<close>

definition proc_ps :: "int \<Rightarrow> ('a ktab_scheme, int \<times> procInfo list) kern" where
  "proc_ps numberOfProcs =
     kbind (kget (\<lambda>s. sint (ticks s))) (\<lambda>currentTicks.
     kthen lock_ptable
     (kbind (kget (\<lambda>s. map (\<lambda>x. \<lparr>pi_state = p_state x, pi_pid = p_pid x, pi_cpuPercent = cpu_percent currentTicks x,
          pi_name = safe_copy (p_name x) MAX_PROC_NAME_LENGTH\<rparr>)
        (filter (\<lambda>x. p_state x \<noteq> UNUSED) (map (ptable s) [0..<NPROC])))) (\<lambda>infos.
     kthen unlock_ptable
     (kret (int (length infos), infos)))))"

text \<open>\<open>proc_nice\<close> returns \<open>p->priority\<close> with \<open>p\<close> behind the end of the table; \<open>beyond\<close> is what memory
  holds there.\<close>

definition proc_nice :: "int \<Rightarrow> int \<Rightarrow> int \<Rightarrow> ('a ktab_scheme, int) kern" where
  "proc_nice beyond PID priority =
     kthen (kfor [0..<NPROC] (\<lambda>p. kmod (\<lambda>s.
       if p_pid (ptable s p) = PID then upd_proc p (\<lambda>x. x\<lparr>p_priority := priority\<rparr>) s else s)))
     (kret beyond)"

section \<open>Lemmas\<close>

text \<open>The page allocator and the page tables do not touch the process table.\<close>

lemma kmem_leaves [leaves_rules]:
  "leaves kmem.more (load a)" "leaves kmem.more (store a w)" "leaves kmem.more (zero_page p)"
  "leaves kmem.more (V2P a)" "leaves kmem.more (P2V a)" "leaves kmem.more kalloc" "leaves kmem.more (kfree v)"
  unfolding load_def store_def zero_page_def V2P_def P2V_def kalloc_def kfree_def
  by (intro leaves_rules leaves_kmod; simp)+

lemma walkpgdir_leaves [leaves_rules]: "leaves kmem.more (walkpgdir pgdir va alloc)"
  unfolding walkpgdir_def by (intro leaves_rules)

lemma mappages_loop_leaves: "leaves kmem.more (mappages_loop n pgdir a pa perm)"
proof (induction n arbitrary: a pa)
  case 0
  show ?case by (subst mappages_loop.simps) (simp only: nat.case, intro leaves_rules)
next
  case (Suc n)
  show ?case by (subst mappages_loop.simps) (simp only: nat.case, intro leaves_rules Suc.IH)
qed

lemma mappages_leaves [leaves_rules]: "leaves kmem.more (mappages pgdir va sz pa perm)"
  unfolding mappages_def Let_def by (rule mappages_loop_leaves)

lemma dealloc_loop_leaves [leaves_rules]: "leaves kmem.more (dealloc_loop pgdir oldsz a)"
proof (induction pgdir oldsz a rule: dealloc_loop.induct)
  case (1 pgdir oldsz a)
  show ?case
    by (subst dealloc_loop.simps) (intro leaves_rules 1)
qed

lemma uvm_leaves [leaves_rules]:
  "leaves kmem.more (deallocuvm pgdir oldsz newsz)" "leaves kmem.more (freevm pgdir)"
  unfolding deallocuvm_def freevm_def by (intro leaves_rules)+

lemma ktab_frame:
  assumes "kmem.more t = kmem.more (s :: 'a ktab_scheme)"
  shows "ptable t = ptable s" "nextpid t = nextpid s" "initproc t = initproc s" "curproc t = curproc s"
    "ptable_held t = ptable_held s" "cpu_ncli t = cpu_ncli s" "ticks t = ticks s" "cr3 t = cr3 s"
    "cpu_intr t = cpu_intr s"
  using assms by (cases s, cases t, simp)+

lemma upd_proc_sel [simp]:
  "ptable (upd_proc p f s) = (ptable s)(p := f (ptable s p))" "nextpid (upd_proc p f s) = nextpid s"
  "initproc (upd_proc p f s) = initproc s" "curproc (upd_proc p f s) = curproc s"
  "ptable_held (upd_proc p f s) = ptable_held s" "cpu_ncli (upd_proc p f s) = cpu_ncli s"
  "cpu_intr (upd_proc p f s) = cpu_intr s" "ticks (upd_proc p f s) = ticks s"
  by (simp_all add: upd_proc_def)

text \<open>A loop over the table that changes every slot on its own.\<close>

lemma fold_procs:
  "fold (\<lambda>p s. if P (ptable s p) then upd_proc p g s else s) [0..<n] s
     = s\<lparr>ptable := \<lambda>p. if p < n \<and> P (ptable s p) then g (ptable s p) else ptable s p\<rparr>"
proof (induction n)
  case 0
  show ?case by (cases s) simp
next
  case (Suc n)
  let ?h = "\<lambda>n p. if p < n \<and> P (ptable s p) then g (ptable s p) else ptable s p"
  have e: "(?h n)(n := g (ptable s n)) = ?h (Suc n)" if "P (ptable s n)"
    using that by (auto simp: fun_eq_iff less_Suc_eq)
  have f: "?h (Suc n) = ?h n" if "\<not> P (ptable s n)"
    using that by (auto simp: fun_eq_iff less_Suc_eq)
  show ?case
  proof (cases "P (ptable s n)")
    case True
    then show ?thesis using e [OF True] by (simp add: Suc.IH upd_proc_def)
  next
    case False
    then show ?thesis using f [OF False] by (simp add: Suc.IH)
  qed
qed

definition wake_on :: "wchan \<Rightarrow> proc \<Rightarrow> proc" where
  "wake_on ch x = (if p_state x = SLEEPING \<and> p_chan x = Some ch then x\<lparr>p_state := RUNNABLE\<rparr> else x)"

lemma wakeup1_eval: "wakeup1 ch s = Inr ((), s\<lparr>ptable := \<lambda>p. if p < NPROC then wake_on ch (ptable s p) else ptable s p\<rparr>)"
proof -
  have "(\<lambda>p. if p < NPROC \<and> p_state (ptable s p) = SLEEPING \<and> p_chan (ptable s p) = Some ch
      then ptable s p\<lparr>p_state := RUNNABLE\<rparr> else ptable s p)
      = (\<lambda>p. if p < NPROC then wake_on ch (ptable s p) else ptable s p)"
    by (auto simp: wake_on_def fun_eq_iff)
  then show ?thesis
    unfolding wakeup1_def kfor_kmod
    using fold_procs [of "\<lambda>x. p_state x = SLEEPING \<and> p_chan x = Some ch" "\<lambda>x. x\<lparr>p_state := RUNNABLE\<rparr>" NPROC s]
    by simp
qed

lemma wake_on_fields [simp]:
  "p_parent (wake_on ch x) = p_parent x" "p_pid (wake_on ch x) = p_pid x" "p_chan (wake_on ch x) = p_chan x"
  "p_priority (wake_on ch x) = p_priority x" "p_killed (wake_on ch x) = p_killed x"
  by (simp_all add: wake_on_def)

lemma wake_on_state:
  "p_state (wake_on ch x) = (if p_state x = SLEEPING \<and> p_chan x = Some ch then RUNNABLE else p_state x)"
  by (simp add: wake_on_def)

fun scanned :: "(nat \<Rightarrow> proc) \<Rightarrow> nat list \<Rightarrow> nat list" where
  "scanned T [] = []"
| "scanned T (p # ps) = p # (if p_state (T p) = UNUSED then [] else scanned T ps)"

definition zero_prio :: "nat set \<Rightarrow> (nat \<Rightarrow> proc) \<Rightarrow> nat \<Rightarrow> proc" where
  "zero_prio A T p = (if p \<in> A then (T p)\<lparr>p_priority := 0\<rparr> else T p)"

lemma zero_prio_fields [simp]:
  "p_state (zero_prio A T p) = p_state (T p)" "p_pid (zero_prio A T p) = p_pid (T p)"
  "p_parent (zero_prio A T p) = p_parent (T p)" "p_chan (zero_prio A T p) = p_chan (T p)"
  "p_killed (zero_prio A T p) = p_killed (T p)"
  by (simp_all add: zero_prio_def)

lemma zero_prio_insert: "zero_prio A (T(p := (T p)\<lparr>p_priority := 0\<rparr>)) = zero_prio (insert p A) T"
  by (auto simp: zero_prio_def fun_eq_iff)

lemma scanned_prio: "scanned (T(p := (T p)\<lparr>p_priority := 0\<rparr>)) ps = scanned T ps"
  by (induction ps) auto

lemma alloc_scan_eval:
  "alloc_scan ps s = Inr (find (\<lambda>p. p_state (ptable s p) = UNUSED) ps,
     s\<lparr>ptable := zero_prio (set (scanned (ptable s) ps)) (ptable s)\<rparr>)"
proof (induction ps arbitrary: s)
  case Nil
  have "zero_prio {} (ptable s) = ptable s" by (simp add: zero_prio_def fun_eq_iff)
  then show ?case by (simp add: kmonad_simps)
next
  case (Cons p ps)
  let ?s = "upd_proc p (\<lambda>x. x\<lparr>p_priority := 0\<rparr>) s"
  have f: "find (\<lambda>q. p_state (ptable ?s q) = UNUSED) ps = find (\<lambda>q. p_state (ptable s q) = UNUSED) ps"
    by (rule arg_cong [where f = "\<lambda>P. find P ps"]) (simp add: fun_eq_iff)
  have z: "(ptable s)(p := ptable s p\<lparr>p_priority := 0\<rparr>) = zero_prio {p} (ptable s)"
    by (auto simp: zero_prio_def fun_eq_iff)
  show ?case
  proof (cases "p_state (ptable s p) = UNUSED")
    case True
    then show ?thesis by (simp add: kmonad_simps z upd_proc_def)
  next
    case False
    have "alloc_scan (p # ps) s = alloc_scan ps ?s" using False by (simp add: kmonad_simps)
    also have "\<dots> = Inr (find (\<lambda>q. p_state (ptable s q) = UNUSED) ps,
        ?s\<lparr>ptable := zero_prio (set (scanned (ptable ?s) ps)) (ptable ?s)\<rparr>)"
      unfolding Cons.IH f ..
    finally show ?thesis
      using False by (simp add: scanned_prio zero_prio_insert upd_proc_def)
  qed
qed

lemma find_scanned:
  "find (\<lambda>p. p_state (T p) = UNUSED) ps = Some p \<Longrightarrow> p \<in> set (scanned T ps)"
  by (induction ps) (auto split: if_splits)

text \<open>\<open>allocproc\<close>: either no slot is free, or there is no memory for a kernel stack, or a slot is returned.\<close>

lemma allocproc_cases:
  assumes "allocproc s = Inr (r, t)"
  obtains (full) "r = None" "\<forall>p < NPROC. p_state (ptable s p) \<noteq> UNUSED"
      "ptable t = zero_prio (set (scanned (ptable s) [0..<NPROC])) (ptable s)" "nextpid t = nextpid s" "initproc t = initproc s"
    | (slot) p x where "p < NPROC" "p_state (ptable s p) = UNUSED"
      "ptable t = (zero_prio (set (scanned (ptable s) [0..<NPROC])) (ptable s))(p := x)"
      "p_pid x = nextpid s" "p_parent x = p_parent (ptable s p)" "p_chan x = p_chan (ptable s p)"
      "p_killed x = p_killed (ptable s p)" "p_priority x = 0"
      "r = Some p \<and> p_state x = EMBRYO \<or> r = None \<and> p_state x = UNUSED"
      "nextpid t = nextpid s + 1" "initproc t = initproc s"
proof -
  let ?z = "zero_prio (set (scanned (ptable s) [0..<NPROC])) (ptable s)"
  have free: "\<not> ptable_held s" using assms by (auto simp: allocproc_def lock_ptable_def kmonad_simps split: if_splits)
  define u where "u = s\<lparr>ptable_held := True, cpu_ncli := cpu_ncli s + 1, cpu_intr := False, ptable := ?z\<rparr>"
  have scan: "alloc_scan [0..<NPROC] (s\<lparr>ptable_held := True, cpu_ncli := cpu_ncli s + 1, cpu_intr := False\<rparr>)
      = Inr (find (\<lambda>p. p_state (ptable s p) = UNUSED) [0..<NPROC], u)"
    unfolding alloc_scan_eval u_def by simp
  show thesis
  proof (cases "find (\<lambda>p. p_state (ptable s p) = UNUSED) [0..<NPROC]")
    case None
    then have "r = None" "t = u\<lparr>ptable_held := False, cpu_ncli := cpu_ncli s, cpu_intr := cpu_ncli s = 0\<rparr>"
      using assms free scan by (auto simp: allocproc_def lock_ptable_def unlock_ptable_def kmonad_simps u_def)
    moreover have "\<forall>p < NPROC. p_state (ptable s p) \<noteq> UNUSED" using None by (simp add: find_None_iff)
    ultimately show thesis by (intro full) (simp_all add: u_def)
  next
    case (Some p)
    note p = find_SomeD [OF Some] find_scanned [OF Some]
    define v where "v = (upd_proc p (\<lambda>x. x\<lparr>p_state := EMBRYO, p_pid := nextpid s\<rparr>) (u\<lparr>nextpid := nextpid s + 1\<rparr>))
      \<lparr>ptable_held := False, cpu_ncli := cpu_ncli s, cpu_intr := cpu_ncli s = 0\<rparr>"
    obtain ks w where w: "kalloc v = Inr (ks, w)" and
      t: "(if ks = 0 then kthen (kmod (upd_proc p (\<lambda>x. x\<lparr>p_state := UNUSED\<rparr>))) (kret None)
          else kthen (kmod (upd_proc p (\<lambda>x. x\<lparr>p_context := Forkret\<rparr>))) (kret (Some p)))
          (upd_proc p (\<lambda>x. x\<lparr>p_kstack := ks\<rparr>) w) = Inr (r, t)"
      using assms free scan Some
      by (auto simp: allocproc_def lock_ptable_def unlock_ptable_def kmonad_simps u_def v_def upd_proc_def
          kbind_eq_Inr kthen_eq_Inr)
    have f: "kmem.more w = kmem.more v" by (rule leavesD [OF kmem_leaves(6) w])
    note wf = ktab_frame [OF f]
    define x where "x = ptable t p"
    have "ptable t = ?z(p := x)" "nextpid t = nextpid s + 1" "initproc t = initproc s"
      using t by (auto simp: kmonad_simps wf v_def u_def x_def split: if_splits)
    moreover have "p_pid x = nextpid s" "p_parent x = p_parent (ptable s p)" "p_chan x = p_chan (ptable s p)"
      "p_killed x = p_killed (ptable s p)" "p_priority x = 0" "r = Some p \<and> p_state x = EMBRYO \<or> r = None \<and> p_state x = UNUSED"
      using t p(2) by (auto simp: kmonad_simps wf v_def u_def x_def zero_prio_def split: if_splits)
    ultimately show thesis using p(1) by (intro slot [of p x]) simp_all
  qed
qed

subsection \<open>The process table under concurrent operations\<close>

text \<open>
  Any CPU may run the locked sections for its current process, in any order.  \<open>own np = Some c\<close> records
  that \<open>c\<close> is between \<open>allocproc\<close> and the end of \<open>fork\<close> with the slot \<open>np\<close>; a process in the middle of a fork
  does not exit.  \<open>enter c s\<close> is the state as the CPU of process \<open>c\<close> sees it before it takes \<open>ptable.lock\<close>.
\<close>

definition enter :: "nat \<Rightarrow> 'a ktab_scheme \<Rightarrow> 'a ktab_scheme" where
  "enter c s = s\<lparr>curproc := c, ptable_held := False, cpu_ncli := 0, cpu_intr := True\<rparr>"

definition running :: "'a ktab_scheme \<Rightarrow> nat \<Rightarrow> bool" where
  "running s c \<longleftrightarrow> c < NPROC \<and> p_state (ptable s c) = RUNNING"

inductive pt_step :: "'a ktab_scheme \<times> (nat \<Rightarrow> nat option) \<Rightarrow> 'a ktab_scheme \<times> (nat \<Rightarrow> nat option) \<Rightarrow> bool" where
  pt_fork: "running s c \<Longrightarrow> allocproc (enter c s) = Inr (Some np, t) \<Longrightarrow> pt_step (s, own) (t, own(np \<mapsto> c))"
| pt_fork_none: "running s c \<Longrightarrow> allocproc (enter c s) = Inr (None, t) \<Longrightarrow> pt_step (s, own) (t, own)"
| pt_copy: "running s c \<Longrightarrow> own np = Some c \<Longrightarrow> fork_copy np (enter c s) = Inr ((), t) \<Longrightarrow> pt_step (s, own) (t, own)"
| pt_publish: "running s c \<Longrightarrow> own np = Some c \<Longrightarrow> p_parent (ptable s np) = Some c \<Longrightarrow>
    fork_publish np (enter c s) = Inr ((), t) \<Longrightarrow> pt_step (s, own) (t, own(np := None))"
| pt_abort: "running s c \<Longrightarrow> own np = Some c \<Longrightarrow>
    pt_step (s, own) (upd_proc np (\<lambda>x. x\<lparr>p_kstack := 0, p_state := UNUSED\<rparr>) s, own(np := None))"
| pt_exit: "running s c \<Longrightarrow> c \<notin> ran own \<Longrightarrow> initproc s \<noteq> Some c \<Longrightarrow>
    exit_locked (enter c s) = Inr ((), t) \<Longrightarrow> pt_step (s, own) (t, own)"
| pt_wait: "running s c \<Longrightarrow> wait (enter c s) = Inr (r, t) \<Longrightarrow> pt_step (s, own) (t, own)"
| pt_wait_sleep: "running s c \<Longrightarrow> zombie_child (enter c s) = None \<Longrightarrow>
    kthen lock_ptable (sleep (OnProc c) True) (enter c s) = Inr ((), t) \<Longrightarrow> pt_step (s, own) (t, own)"
| pt_sleep: "running s c \<Longrightarrow> ch \<notin> range OnProc \<Longrightarrow>
    sleep ch False ((enter c s)\<lparr>cpu_ncli := 1, cpu_intr := False\<rparr>) = Inr ((), t) \<Longrightarrow> pt_step (s, own) (t, own)"
| pt_resume: "running s c \<Longrightarrow> sleep_resume (enter c s) = Inr ((), t) \<Longrightarrow> pt_step (s, own) (t, own)"
| pt_yield: "running s c \<Longrightarrow> yield (enter c s) = Inr ((), t) \<Longrightarrow> pt_step (s, own) (t, own)"
| pt_wakeup: "wakeup ch (enter c s) = Inr ((), t) \<Longrightarrow> pt_step (s, own) (t, own)"
| pt_kill: "kill pid (enter c s) = Inr (r, t) \<Longrightarrow> pt_step (s, own) (t, own)"
| pt_nice: "proc_nice v pid n (enter c s) = Inr (r, t) \<Longrightarrow> pt_step (s, own) (t, own)"
| pt_dispatch: "p < NPROC \<Longrightarrow> p_state (ptable s p) = RUNNABLE \<Longrightarrow> dispatch p s = Inr ((), t) \<Longrightarrow> pt_step (s, own) (t, own)"

text \<open>After \<open>userinit\<close>: the first process, and no other.\<close>

definition pt_start :: "'a ktab_scheme \<times> (nat \<Rightarrow> nat option) \<Rightarrow> bool" where
  "pt_start = (\<lambda>(s, own). own = (\<lambda>_. None) \<and> nextpid s = 2 \<and> (\<exists>i < NPROC. initproc s = Some i \<and>
     p_state (ptable s i) = RUNNABLE \<and> p_pid (ptable s i) = 1 \<and> p_parent (ptable s i) = None \<and>
     (\<forall>p < NPROC. p \<noteq> i \<longrightarrow> p_state (ptable s p) = UNUSED)))"

definition live :: "procstate \<Rightarrow> bool" where
  "live st \<longleftrightarrow> st = SLEEPING \<or> st = RUNNABLE \<or> st = RUNNING"

definition pt_inv :: "'a ktab_scheme \<times> (nat \<Rightarrow> nat option) \<Rightarrow> bool" where
  "pt_inv = (\<lambda>(s, own). let T = ptable s in
     0 < nextpid s \<and>
     (\<forall>p < NPROC. p_state (T p) \<noteq> UNUSED \<longrightarrow> 0 < p_pid (T p) \<and> p_pid (T p) < nextpid s) \<and>
     (\<forall>p < NPROC. \<forall>q < NPROC. p_state (T p) \<noteq> UNUSED \<longrightarrow> p_state (T q) \<noteq> UNUSED \<longrightarrow> p_pid (T p) = p_pid (T q) \<longrightarrow> p = q) \<and>
     (\<exists>i < NPROC. initproc s = Some i \<and> live (p_state (T i)) \<and> p_parent (T i) = None) \<and>
     (\<forall>p < NPROC. p_state (T p) \<noteq> UNUSED \<longrightarrow> own p = None \<longrightarrow> initproc s \<noteq> Some p \<longrightarrow>
        (\<exists>q < NPROC. q \<noteq> p \<and> p_parent (T p) = Some q \<and> live (p_state (T q)))) \<and>
     (\<forall>p < NPROC. p_state (T p) = EMBRYO \<longrightarrow> own p \<noteq> None) \<and>
     (\<forall>p c. own p = Some c \<longrightarrow> p < NPROC \<and> c < NPROC \<and> p_state (T p) = EMBRYO \<and> live (p_state (T c))) \<and>
     (\<forall>p < NPROC. \<forall>c < NPROC. p_parent (T p) = Some c \<longrightarrow> p_state (T p) = ZOMBIE \<longrightarrow>
        \<not> (p_state (T c) = SLEEPING \<and> p_chan (T c) = Some (OnProc c))))"

lemma pt_invD:
  assumes "pt_inv (s, own)"
  shows "0 < nextpid s"
    "\<And>p. p < NPROC \<Longrightarrow> p_state (ptable s p) \<noteq> UNUSED \<Longrightarrow> 0 < p_pid (ptable s p) \<and> p_pid (ptable s p) < nextpid s"
    "\<And>p q. p < NPROC \<Longrightarrow> q < NPROC \<Longrightarrow> p_state (ptable s p) \<noteq> UNUSED \<Longrightarrow> p_state (ptable s q) \<noteq> UNUSED \<Longrightarrow>
       p_pid (ptable s p) = p_pid (ptable s q) \<Longrightarrow> p = q"
    "\<exists>i < NPROC. initproc s = Some i \<and> live (p_state (ptable s i)) \<and> p_parent (ptable s i) = None"
    "\<And>p. p < NPROC \<Longrightarrow> p_state (ptable s p) \<noteq> UNUSED \<Longrightarrow> own p = None \<Longrightarrow> initproc s \<noteq> Some p \<Longrightarrow>
       \<exists>q < NPROC. q \<noteq> p \<and> p_parent (ptable s p) = Some q \<and> live (p_state (ptable s q))"
    "\<And>p. p < NPROC \<Longrightarrow> p_state (ptable s p) = EMBRYO \<Longrightarrow> own p \<noteq> None"
    "\<And>p c. own p = Some c \<Longrightarrow> p < NPROC \<and> c < NPROC \<and> p_state (ptable s p) = EMBRYO \<and> live (p_state (ptable s c))"
    "\<And>p c. p < NPROC \<Longrightarrow> c < NPROC \<Longrightarrow> p_parent (ptable s p) = Some c \<Longrightarrow> p_state (ptable s p) = ZOMBIE \<Longrightarrow>
       \<not> (p_state (ptable s c) = SLEEPING \<and> p_chan (ptable s c) = Some (OnProc c))"
  using assms unfolding pt_inv_def Let_def prod.case by blast+

lemma pt_invI:
  assumes "0 < nextpid s"
    "\<And>p. p < NPROC \<Longrightarrow> p_state (ptable s p) \<noteq> UNUSED \<Longrightarrow> 0 < p_pid (ptable s p) \<and> p_pid (ptable s p) < nextpid s"
    "\<And>p q. p < NPROC \<Longrightarrow> q < NPROC \<Longrightarrow> p_state (ptable s p) \<noteq> UNUSED \<Longrightarrow> p_state (ptable s q) \<noteq> UNUSED \<Longrightarrow>
       p_pid (ptable s p) = p_pid (ptable s q) \<Longrightarrow> p = q"
    "\<exists>i < NPROC. initproc s = Some i \<and> live (p_state (ptable s i)) \<and> p_parent (ptable s i) = None"
    "\<And>p. p < NPROC \<Longrightarrow> p_state (ptable s p) \<noteq> UNUSED \<Longrightarrow> own p = None \<Longrightarrow> initproc s \<noteq> Some p \<Longrightarrow>
       \<exists>q < NPROC. q \<noteq> p \<and> p_parent (ptable s p) = Some q \<and> live (p_state (ptable s q))"
    "\<And>p. p < NPROC \<Longrightarrow> p_state (ptable s p) = EMBRYO \<Longrightarrow> own p \<noteq> None"
    "\<And>p c. own p = Some c \<Longrightarrow> p < NPROC \<and> c < NPROC \<and> p_state (ptable s p) = EMBRYO \<and> live (p_state (ptable s c))"
    "\<And>p c. p < NPROC \<Longrightarrow> c < NPROC \<Longrightarrow> p_parent (ptable s p) = Some c \<Longrightarrow> p_state (ptable s p) = ZOMBIE \<Longrightarrow>
       \<not> (p_state (ptable s c) = SLEEPING \<and> p_chan (ptable s c) = Some (OnProc c))"
  shows "pt_inv (s, own)"
  using assms unfolding pt_inv_def Let_def prod.case by blast

text \<open>Steps that move processes between the live states, or change fields the invariant does not mention.\<close>

definition kind :: "procstate \<Rightarrow> nat" where
  "kind st = (case st of UNUSED \<Rightarrow> 0 | EMBRYO \<Rightarrow> 1 | ZOMBIE \<Rightarrow> 3 | _ \<Rightarrow> 2)"

lemma kind_simps:
  "kind st = kind st' \<Longrightarrow> (st = UNUSED \<longleftrightarrow> st' = UNUSED) \<and> (st = EMBRYO \<longleftrightarrow> st' = EMBRYO) \<and> (st = ZOMBIE \<longleftrightarrow> st' = ZOMBIE) \<and>
     (live st \<longleftrightarrow> live st')"
  by (cases st; cases st') (simp_all add: kind_def live_def)

definition same_kinds :: "(nat \<Rightarrow> nat option) \<Rightarrow> 'a ktab_scheme \<Rightarrow> 'a ktab_scheme \<Rightarrow> bool" where
  "same_kinds own s t \<longleftrightarrow> nextpid t = nextpid s \<and> initproc t = initproc s \<and>
     (\<forall>p < NPROC. kind (p_state (ptable t p)) = kind (p_state (ptable s p)) \<and> p_pid (ptable t p) = p_pid (ptable s p) \<and>
        (p_parent (ptable t p) = p_parent (ptable s p) \<or> own p \<noteq> None) \<and>
        (p_state (ptable t p) = SLEEPING \<and> p_chan (ptable t p) = Some (OnProc p) \<longrightarrow>
         p_state (ptable s p) = SLEEPING \<and> p_chan (ptable s p) = Some (OnProc p)))"

lemma same_kinds_inv:
  assumes i: "pt_inv (s, own)" and k: "same_kinds own s t"
  shows "pt_inv (t, own)"
proof -
  have n: "nextpid t = nextpid s" "initproc t = initproc s"
    and q: "\<And>p. p < NPROC \<Longrightarrow> kind (p_state (ptable t p)) = kind (p_state (ptable s p))"
    and pid: "\<And>p. p < NPROC \<Longrightarrow> p_pid (ptable t p) = p_pid (ptable s p)"
    and par: "\<And>p. p < NPROC \<Longrightarrow> own p = None \<Longrightarrow> p_parent (ptable t p) = p_parent (ptable s p)"
    and sl: "\<And>p. p < NPROC \<Longrightarrow> p_state (ptable t p) = SLEEPING \<and> p_chan (ptable t p) = Some (OnProc p) \<Longrightarrow>
         p_state (ptable s p) = SLEEPING \<and> p_chan (ptable s p) = Some (OnProc p)"
    using k by (auto simp: same_kinds_def)
  note D = pt_invD [OF i] and ks = kind_simps [OF q]
  show ?thesis
  proof (rule pt_invI, goal_cases)
    case 1 then show ?case using D(1) n by simp
  next
    case (2 p) then show ?case using D(2) [of p] ks [of p] pid n by simp
  next
    case (3 p r) then show ?case using D(3) [of p r] ks pid by simp
  next
    case 4
    obtain i where i: "i < NPROC" "initproc s = Some i" "live (p_state (ptable s i))" "p_parent (ptable s i) = None"
      using D(4) by blast
    then have "own i = None" using D(7) [of i] by (cases "own i") (auto simp: live_def)
    then show ?case using i ks par n by auto
  next
    case (5 p) then show ?case using D(5) [of p] ks par n by fastforce
  next
    case (6 p) then show ?case using D(6) [of p] ks by simp
  next
    case (7 p c) then show ?case using D(7) [of p c] ks by simp
  next
    case (8 p c)
    then have z: "p_state (ptable s p) = ZOMBIE" using ks by simp
    then have "own p = None" using D(7) [of p] by (cases "own p") auto
    then show ?case using 8 D(8) [of p c] z par [of p] sl [of c] by auto
  qed
qed

lemmas section_simps = lock_ptable_def unlock_ptable_def sched_def set_state_def enter_def kmonad_simps

lemma kind_live [simp]: "kind SLEEPING = 2" "kind RUNNABLE = 2" "kind RUNNING = 2"
  by (simp_all add: kind_def)

lemma wakeup_kinds: "wakeup ch (enter c s) = Inr ((), t) \<Longrightarrow> same_kinds own s t"
  by (auto simp: wakeup_def wakeup1_eval section_simps same_kinds_def wake_on_state split: if_splits)

lemma yield_kinds: "running s c \<Longrightarrow> yield (enter c s) = Inr ((), t) \<Longrightarrow> same_kinds own s t"
  by (auto simp: yield_def section_simps same_kinds_def running_def split: if_splits)

lemma sleep_kinds:
  assumes "running s c" "ch \<notin> range OnProc"
    "sleep ch False ((enter c s)\<lparr>cpu_ncli := 1, cpu_intr := False\<rparr>) = Inr ((), t)"
  shows "same_kinds own s t"
  using assms by (auto simp: sleep_def section_simps same_kinds_def running_def split: if_splits)

lemma resume_kinds: "running s c \<Longrightarrow> sleep_resume (enter c s) = Inr ((), t) \<Longrightarrow> same_kinds own s t"
  by (auto simp: sleep_resume_def section_simps same_kinds_def running_def split: if_splits)

lemma kill_kinds: "kill pid (enter c s) = Inr (r, t) \<Longrightarrow> same_kinds own s t"
  by (auto simp: kill_def section_simps same_kinds_def split: option.splits if_splits)

lemma nice_kinds: "proc_nice v pid n (enter c s) = Inr (r, t) \<Longrightarrow> same_kinds own s t"
  by (auto simp: proc_nice_def kfor_kmod fold_procs [of "\<lambda>x. p_pid x = pid"] section_simps same_kinds_def split: if_splits)

lemma copy_kinds: "own np = Some c \<Longrightarrow> fork_copy np (enter c s) = Inr ((), t) \<Longrightarrow> same_kinds own s t"
  by (auto simp: fork_copy_def section_simps same_kinds_def split: if_splits)

lemma switchuvm_frame: "switchuvm p s = Inr ((), t) \<Longrightarrow> ptable t = ptable s \<and> nextpid t = nextpid s \<and> initproc t = initproc s"
  by (auto simp: switchuvm_def V2P_def kmonad_simps kbind_eq_Inr split: if_splits)

lemma dispatch_kinds:
  assumes "p_state (ptable s p) = RUNNABLE" "dispatch p s = Inr ((), t)"
  shows "same_kinds own s t"
proof -
  obtain u where u: "switchuvm p (s\<lparr>curproc := p\<rparr>) = Inr ((), u)" "t = upd_proc p (\<lambda>x. x\<lparr>p_state := RUNNING\<rparr>) u"
    using assms(2) by (auto simp: dispatch_def kthen_eq_Inr kmonad_simps)
  show ?thesis using switchuvm_frame [OF u(1)] assms(1) by (auto simp: u(2) same_kinds_def split: if_splits)
qed

text \<open>The other steps.\<close>

text \<open>A step that only changes the fields of the slot \<open>np\<close>, which is not in use.\<close>

lemma slot_inv:
  assumes i: "pt_inv (s, own)" and np: "np < NPROC" "p_state (ptable s np) = UNUSED"
    and n: "nextpid t = nextpid s + 1" "initproc t = initproc s" "p_pid (ptable t np) = nextpid s"
    and o: "\<And>q. q \<noteq> np \<Longrightarrow> p_state (ptable t q) = p_state (ptable s q) \<and> p_pid (ptable t q) = p_pid (ptable s q) \<and>
      p_parent (ptable t q) = p_parent (ptable s q) \<and> p_chan (ptable t q) = p_chan (ptable s q)"
    and new: "p_state (ptable t np) = EMBRYO \<and> own' = own(np \<mapsto> c) \<and> running s c \<or> p_state (ptable t np) = UNUSED \<and> own' = own"
  shows "pt_inv (t, own')"
proof -
  note D = pt_invD [OF i]
  have no: "np \<noteq> q" if "live (p_state (ptable s q))" for q using that np by (auto simp: live_def)
  have tl: "live (p_state (ptable t q))" if "live (p_state (ptable s q))" for q using o [of q] no [OF that] that by simp
  have own: "own' q = own q" if "q \<noteq> np" for q using new that by auto
  have nz: "p_state (ptable t np) \<noteq> ZOMBIE" "p_state (ptable t np) \<noteq> SLEEPING" using new by auto
  show ?thesis
  proof (rule pt_invI, goal_cases)
    case 1 then show ?case using D(1) n by simp
  next
    case (2 q) then show ?case using D(1) D(2) [of q] n o [of q] by (cases "q = np") auto
  next
    case (3 q r)
    have lt: "p_pid (ptable t p) < p_pid (ptable t np)" if "p \<noteq> np" "p < NPROC" "p_state (ptable t p) \<noteq> UNUSED" for p
      using that D(2) [of p] o [OF that(1)] n(3) by simp
    from 3 lt [of q] lt [of r] have "q = np \<longleftrightarrow> r = np" by fastforce
    then show ?case using 3 D(3) [of q r] o [of q] o [of r] by (cases "q = np") simp_all
  next
    case 4
    obtain i where i: "i < NPROC" "initproc s = Some i" "live (p_state (ptable s i))" "p_parent (ptable s i) = None"
      using D(4) by blast
    then show ?case using tl [of i] no [of i] o [of i] n by auto
  next
    case (5 q)
    then have "q \<noteq> np" using new by auto
    then show ?case using 5 D(5) [of q] o [of q] own [of q] tl n by auto
  next
    case (6 q) then show ?case using D(6) [of q] o [of q] own [of q] new by (cases "q = np") auto
  next
    case (7 q d)
    show ?case
    proof (cases "q = np")
      case True
      then have "own' = own(np \<mapsto> c)" "d = c" "running s c" "p_state (ptable t np) = EMBRYO"
        using 7 new D(7) [of np d] np by auto
      then show ?thesis using True np tl [of c] by (auto simp: running_def live_def)
    next
      case False
      then show ?thesis using 7 D(7) [of q d] o [of q] own [of q] tl [of d] by auto
    qed
  next
    case (8 q d)
    then show ?case using D(8) [of q d] o [of q] o [of d] nz by (cases "q = np"; cases "d = np") auto
  qed
qed

lemma fork_inv:
  assumes i: "pt_inv (s, own)" and c: "running s c" and a: "allocproc (enter c s) = Inr (r, t)"
  shows "pt_inv (t, case r of Some np \<Rightarrow> own(np \<mapsto> c) | None \<Rightarrow> own)"
  using a
proof (cases rule: allocproc_cases)
  case full
  then have "same_kinds own s t" by (simp add: same_kinds_def enter_def)
  with i full show ?thesis by (simp add: same_kinds_inv)
next
  case (slot p x)
  show ?thesis
    by (rule slot_inv [OF i, of p]) (use slot c in \<open>auto simp: enter_def\<close>)
qed

lemma publish_inv:
  assumes i: "pt_inv (s, own)" and c: "running s c" "own np = Some c" "p_parent (ptable s np) = Some c"
    and a: "fork_publish np (enter c s) = Inr ((), t)"
  shows "pt_inv (t, own(np := None))"
proof -
  note D = pt_invD [OF i]
  have t: "nextpid t = nextpid s" "initproc t = initproc s" "p_state (ptable t np) = RUNNABLE"
    "p_pid (ptable t np) = p_pid (ptable s np)" "p_parent (ptable t np) = Some c"
    "\<And>q. q \<noteq> np \<Longrightarrow> ptable t q = ptable s q"
    using a c by (auto simp: fork_publish_def section_simps)
  have np: "np < NPROC" "p_state (ptable s np) = EMBRYO" and cl: "c < NPROC" "live (p_state (ptable s c))"
    using D(7) [OF c(2)] by auto
  have ne: "c \<noteq> np" using np cl by (auto simp: live_def)
  have tl: "live (p_state (ptable t q))" if "live (p_state (ptable s q))" for q
    using that t(6) [of q] t(3) by (cases "q = np") (auto simp: live_def)
  show ?thesis
  proof (rule pt_invI, goal_cases)
    case 1 then show ?case using D(1) t by simp
  next
    case (2 q) then show ?case using D(2) [of q] t(1,4,6) np by (cases "q = np") auto
  next
    case (3 q r) then show ?case using D(3) [of q r] t(4) t(6) [of q] t(6) [of r] np by (cases "q = np"; cases "r = np") auto
  next
    case 4
    obtain i where i: "i < NPROC" "initproc s = Some i" "live (p_state (ptable s i))" "p_parent (ptable s i) = None"
      using D(4) by blast
    then have "i \<noteq> np" using np by (auto simp: live_def)
    then show ?case using i tl [of i] t by auto
  next
    case (5 q)
    show ?case
    proof (cases "q = np")
      case True then show ?thesis using t(5) cl tl ne by auto
    next
      case False then show ?thesis using 5 D(5) [of q] t(2) t(6) [of q] tl by auto
    qed
  next
    case (6 q) then show ?case using D(6) [of q] t(3) t(6) [of q] by (cases "q = np") auto
  next
    case (7 q d)
    then have "q \<noteq> np" "own q = Some d" by (auto split: if_splits)
    then show ?case using D(7) [of q d] t(6) [of q] tl by auto
  next
    case (8 q d) then show ?case using D(8) [of q d] t(3) t(6) [of q] t(6) [of d] by (cases "q = np"; cases "d = np") auto
  qed
qed

lemma abort_inv:
  assumes i: "pt_inv (s, own)" and c: "own np = Some c"
  shows "pt_inv (upd_proc np (\<lambda>x. x\<lparr>p_kstack := 0, p_state := UNUSED\<rparr>) s, own(np := None))"
proof -
  note D = pt_invD [OF i]
  have np: "p_state (ptable s np) = EMBRYO" using D(7) [OF c] by auto
  have no: "np \<noteq> q" if "live (p_state (ptable s q))" for q using that np by (auto simp: live_def)
  show ?thesis
  proof (rule pt_invI, goal_cases)
    case 1 then show ?case using D(1) by simp
  next
    case (2 q) then show ?case using D(2) [of q] by (cases "q = np") auto
  next
    case (3 q r) then show ?case using D(3) [of q r] by (cases "q = np"; cases "r = np") auto
  next
    case 4 then show ?case using D(4) no by fastforce
  next
    case (5 q) then show ?case using D(5) [of q] no by (cases "q = np") fastforce+
  next
    case (6 q) then show ?case using D(6) [of q] by (cases "q = np") auto
  next
    case (7 q d) then show ?case using D(7) [of q d] no by (cases "q = np") auto
  next
    case (8 q d) then show ?case using D(8) [of q d] by (cases "q = np"; cases "d = np") auto
  qed
qed

lemma wake_on_parent: "wake_on ch (x\<lparr>p_parent := v\<rparr>) = (wake_on ch x)\<lparr>p_parent := v\<rparr>"
  by (simp add: wake_on_def)

lemma wake_on_twice [simp]: "wake_on ch (wake_on ch x) = wake_on ch x"
  by (simp add: wake_on_def)

text \<open>The table after the first \<open>n\<close> rounds of the loop of \<open>exit\<close>.\<close>

definition reparent :: "nat \<Rightarrow> nat \<Rightarrow> proc \<Rightarrow> proc" where
  "reparent cur i x = (if p_parent x = Some cur then x\<lparr>p_parent := Some i\<rparr> else x)"

definition left_zombie :: "(nat \<Rightarrow> proc) \<Rightarrow> nat \<Rightarrow> nat \<Rightarrow> bool" where
  "left_zombie T cur n \<longleftrightarrow> (\<exists>p < n. p_parent (T p) = Some cur \<and> p_state (T p) = ZOMBIE)"

definition after_exit :: "(nat \<Rightarrow> proc) \<Rightarrow> nat \<Rightarrow> nat \<Rightarrow> nat \<Rightarrow> nat \<Rightarrow> proc" where
  "after_exit T cur i n p =
     (let y = (if p < n then reparent cur i (T p) else T p) in
      if left_zombie T cur n \<and> p < NPROC then wake_on (OnProc i) y else y)"

lemma left_zombie_Suc:
  "left_zombie T cur (Suc n) \<longleftrightarrow> left_zombie T cur n \<or> p_parent (T n) = Some cur \<and> p_state (T n) = ZOMBIE"
  by (auto simp: left_zombie_def less_Suc_eq)

lemma after_exit_fields:
  "p_parent (after_exit T cur i n p) = (if p < n \<and> p_parent (T p) = Some cur then Some i else p_parent (T p))"
  "p_pid (after_exit T cur i n p) = p_pid (T p)" "p_chan (after_exit T cur i n p) = p_chan (T p)"
  "p_state (after_exit T cur i n p) = (if left_zombie T cur n \<and> p < NPROC \<and> p_state (T p) = SLEEPING \<and>
     p_chan (T p) = Some (OnProc i) then RUNNABLE else p_state (T p))"
  by (simp_all add: after_exit_def reparent_def Let_def wake_on_state)

lemma exit_loop:
  "kfor [0..<n] (\<lambda>p.
      kbind (kget (\<lambda>s. ptable s p)) (\<lambda>x.
      if p_parent x = Some cur then
        kthen (kmod (upd_proc p (\<lambda>x. x\<lparr>p_parent := Some i\<rparr>)))
        (if p_state x = ZOMBIE then (case Some i of Some i \<Rightarrow> wakeup1 (OnProc i) | None \<Rightarrow> kret ()) else kret ())
      else kret ())) s = Inr ((), s\<lparr>ptable := after_exit (ptable s) cur i n\<rparr>)"
    (is "kfor [0..<n] ?b s = _")
proof (induction n)
  case 0
  have "after_exit (ptable s) cur i 0 = ptable s" by (simp add: after_exit_def left_zombie_def fun_eq_iff)
  then show ?case by (simp add: kmonad_simps)
next
  case (Suc n)
  let ?T = "ptable s"
  let ?u = "s\<lparr>ptable := after_exit ?T cur i n\<rparr>"
  have body: "?b n ?u = Inr ((), s\<lparr>ptable := after_exit ?T cur i (Suc n)\<rparr>)"
  proof (cases "p_parent (?T n) = Some cur")
    case False
    then have "after_exit ?T cur i (Suc n) = after_exit ?T cur i n"
      by (auto simp: fun_eq_iff after_exit_def left_zombie_Suc less_Suc_eq reparent_def Let_def)
    then show ?thesis using False by (simp add: kmonad_simps after_exit_fields)
  next
    case True
    show ?thesis
    proof (cases "p_state (?T n) = ZOMBIE")
      case z: False
      have "(after_exit ?T cur i n)(n := (after_exit ?T cur i n n)\<lparr>p_parent := Some i\<rparr>) = after_exit ?T cur i (Suc n)"
        using True z by (auto simp: fun_eq_iff after_exit_def left_zombie_Suc less_Suc_eq reparent_def Let_def wake_on_parent)
      then show ?thesis using True z by (simp add: kmonad_simps after_exit_fields upd_proc_def)
    next
      case z: True
      have "(\<lambda>p. if p < NPROC then wake_on (OnProc i) (((after_exit ?T cur i n)(n := (after_exit ?T cur i n n)\<lparr>p_parent := Some i\<rparr>)) p)
          else ((after_exit ?T cur i n)(n := (after_exit ?T cur i n n)\<lparr>p_parent := Some i\<rparr>)) p) = after_exit ?T cur i (Suc n)"
        using True z by (auto simp: fun_eq_iff after_exit_def left_zombie_Suc less_Suc_eq reparent_def Let_def wake_on_parent)
      then show ?thesis using True z by (simp add: kmonad_simps after_exit_fields upd_proc_def wakeup1_eval cong: if_cong)
    qed
  qed
  show ?case unfolding upt_Suc_append [OF zero_le] kfor_append
    using Suc.IH body by (simp add: kthen_Inr kret_def)
qed

definition exit_woken :: "(nat \<Rightarrow> proc) \<Rightarrow> nat \<Rightarrow> nat \<Rightarrow> proc" where
  "exit_woken T c p = (if p < NPROC then (case p_parent (T c) of Some q \<Rightarrow> wake_on (OnProc q) (T p) | None \<Rightarrow> T p) else T p)"

lemma exit_run:
  assumes ini: "initproc s = Some i"
  shows "exit_locked (enter c s) = kthen (set_state ZOMBIE) sched
    (s\<lparr>curproc := c, ptable_held := True, cpu_ncli := 1, cpu_intr := False, ptable := after_exit (exit_woken (ptable s) c) c i NPROC\<rparr>)"
proof -
  define u where "u = s\<lparr>curproc := c, ptable_held := True, cpu_ncli := 1, cpu_intr := False, ptable := exit_woken (ptable s) c\<rparr>"
  have w: "(case p_parent (ptable s c) of Some q \<Rightarrow> wakeup1 (OnProc q) | None \<Rightarrow> kret ())
      (s\<lparr>curproc := c, ptable_held := True, cpu_ncli := 1, cpu_intr := False\<rparr>) = Inr ((), u)"
    by (cases "p_parent (ptable s c)") (simp_all add: wakeup1_eval u_def exit_woken_def [abs_def] kmonad_simps cong: if_cong)
  show ?thesis
    using w exit_loop [of NPROC c i u] ini
    by (simp add: exit_locked_def section_simps u_def del: option.case)
qed

lemma exit_eval:
  assumes ini: "initproc s = Some i" and e: "exit_locked (enter c s) = Inr ((), t)"
  defines "W \<equiv> exit_woken (ptable s) c"
  shows "nextpid t = nextpid s" "initproc t = initproc s"
    "\<exists>z. p_state z = ZOMBIE \<and> p_pid z = p_pid (ptable s c) \<and> p_chan z = p_chan (ptable s c) \<and>
      p_parent z = p_parent (after_exit W c i NPROC c) \<and> ptable t = (after_exit W c i NPROC)(c := z)"
proof -
  define u where "u = s\<lparr>curproc := c, ptable_held := True, cpu_ncli := 1, cpu_intr := False\<rparr>"
  define z where "z = (after_exit W c i NPROC c)\<lparr>p_state := ZOMBIE,
    ticksScheduled := ticksScheduled (after_exit W c i NPROC c) + 1, p_context := InSched\<rparr>"
  have t: "t = u\<lparr>ptable := (after_exit W c i NPROC)(c := z)\<rparr>"
    using e unfolding exit_run [OF ini] by (simp add: section_simps u_def upd_proc_def z_def W_def)
  then show "nextpid t = nextpid s" "initproc t = initproc s" by (simp_all add: u_def)
  have "p_pid (W c) = p_pid (ptable s c)" "p_chan (W c) = p_chan (ptable s c)"
    by (simp_all add: W_def exit_woken_def split: option.split)
  then have "p_state z = ZOMBIE \<and> p_pid z = p_pid (ptable s c) \<and> p_chan z = p_chan (ptable s c) \<and>
      p_parent z = p_parent (after_exit W c i NPROC c) \<and> ptable t = (after_exit W c i NPROC)(c := z)"
    by (simp add: z_def after_exit_fields t)
  then show "\<exists>z. p_state z = ZOMBIE \<and> p_pid z = p_pid (ptable s c) \<and> p_chan z = p_chan (ptable s c) \<and>
      p_parent z = p_parent (after_exit W c i NPROC c) \<and> ptable t = (after_exit W c i NPROC)(c := z)" ..
qed

lemma exit_inv:
  assumes inv: "pt_inv (s, own)" and c: "running s c" "c \<notin> ran own" "initproc s \<noteq> Some c"
    and e: "exit_locked (enter c s) = Inr ((), t)"
  shows "pt_inv (t, own)"
proof -
  note D = pt_invD [OF inv]
  obtain i where i: "i < NPROC" "initproc s = Some i" "live (p_state (ptable s i))" "p_parent (ptable s i) = None" using D(4) by blast
  obtain q where q: "q < NPROC" "p_parent (ptable s c) = Some q" "live (p_state (ptable s q))" "q \<noteq> c"
  proof -
    have "own c = None" using c(1) D(7) [of c] by (cases "own c") (auto simp: running_def)
    then show thesis using that D(5) [of c] c by (auto simp: running_def)
  qed
  define W where "W p = (if p < NPROC then wake_on (OnProc q) (ptable s p) else ptable s p)" for p
  obtain z where z: "p_state z = ZOMBIE" "p_pid z = p_pid (ptable s c)" "p_parent z = p_parent (after_exit W c i NPROC c)"
    and t: "ptable t = (after_exit W c i NPROC)(c := z)" and n: "nextpid t = nextpid s" "initproc t = initproc s"
    using exit_eval [OF i(2) e] unfolding exit_woken_def [abs_def] q(2) option.case W_def [abs_def] by auto
  have cn: "c < NPROC" "p_state (ptable s c) = RUNNING" using c(1) by (simp_all add: running_def)
  have k: "kind (p_state (ptable t p)) = (if p = c then 3 else kind (p_state (ptable s p)))" if "p < NPROC" for p
    using that z(1) by (auto simp: t after_exit_fields W_def wake_on_state kind_def)
  have st: "p_state (ptable t p) = UNUSED \<longleftrightarrow> p_state (ptable s p) = UNUSED" "p_state (ptable t p) = EMBRYO \<longleftrightarrow> p_state (ptable s p) = EMBRYO"
    "p_state (ptable t p) = ZOMBIE \<longleftrightarrow> p = c \<or> p_state (ptable s p) = ZOMBIE"
    "live (p_state (ptable t p)) \<longleftrightarrow> p \<noteq> c \<and> live (p_state (ptable s p))" if "p < NPROC" for p
    using that z(1) cn by (auto simp: t after_exit_fields W_def wake_on_state live_def)
  have pid: "p_pid (ptable t p) = p_pid (ptable s p)" for p
    using z(2) by (simp add: t after_exit_fields W_def)
  have par: "p_parent (ptable t p) = (if p_parent (ptable s p) = Some c then Some i else p_parent (ptable s p))" if "p < NPROC" for p
    using that z(3) by (simp add: t after_exit_fields W_def)
  have sl: "p_state (ptable s p) = SLEEPING \<and> p_chan (ptable s p) = Some (OnProc p) \<and> p \<noteq> q \<and> (left_zombie W c NPROC \<longrightarrow> p \<noteq> i)"
    if "p < NPROC" "p_state (ptable t p) = SLEEPING" "p_chan (ptable t p) = Some (OnProc p)" for p
    using that z(1) by (auto simp: t after_exit_fields W_def wake_on_state split: if_splits)
  have ic: "i \<noteq> c" using c(3) i(2) by auto
  show ?thesis
  proof (rule pt_invI, goal_cases)
    case 1 then show ?case using D(1) n by simp
  next
    case (2 p) then show ?case using D(2) [of p] st pid n by simp
  next
    case (3 p r) then show ?case using D(3) [of p r] st pid by simp
  next
    case 4 then show ?case using i n st par ic by auto
  next
    case (5 p) then show ?case using D(5) [of p] i n st par ic by auto
  next
    case (6 p) then show ?case using D(6) [of p] st by simp
  next
    case (7 p d) then show ?case using D(7) [of p d] st c(2) by (auto simp: ran_def)
  next
    case (8 p d)
    have "d \<noteq> q \<and> (left_zombie W c NPROC \<longrightarrow> d \<noteq> i) \<and> p_state (ptable s d) = SLEEPING \<and> p_chan (ptable s d) = Some (OnProc d)"
      if "p_state (ptable t d) = SLEEPING \<and> p_chan (ptable t d) = Some (OnProc d)"
      using sl [of d] that 8(2) by auto
    moreover have "left_zombie W c NPROC" if "p_parent (ptable s p) = Some c" "p_state (ptable s p) = ZOMBIE"
      unfolding left_zombie_def by (rule exI [of _ p]) (use that 8(1) in \<open>simp add: W_def wake_on_state\<close>)
    ultimately show ?case
      using 8 D(8) [of p d] st(3) [of p] par [of p] q(2,4) cn by (auto split: if_splits)
  qed
qed

lemma wait_cases:
  assumes "wait (enter c s) = Inr (r, t)"
  obtains (none) "ptable t = ptable s" "nextpid t = nextpid s" "initproc t = initproc s"
    | (reaped) p x where "p < NPROC" "p_parent (ptable s p) = Some c" "p_state (ptable s p) = ZOMBIE"
      "ptable t = (ptable s)(p := x)" "p_state x = UNUSED" "p_parent x = None" "\<not> p_killed x"
      "r = p_pid (ptable s p)" "nextpid t = nextpid s" "initproc t = initproc s"
proof -
  define u where "u = s\<lparr>curproc := c, ptable_held := True, cpu_ncli := 1, cpu_intr := False\<rparr>"
  define P where "P p \<longleftrightarrow> p_parent (ptable s p) = Some c \<and> p_state (ptable s p) = ZOMBIE" for p
  have w: "wait (enter c s) = (case find P [0..<NPROC] of Some p \<Rightarrow> reap p
     | None \<Rightarrow> kbind (kget (\<lambda>s. (\<exists>p \<in> {..<NPROC}. p_parent (ptable s p) = Some (curproc s)) \<and> \<not> p_killed (myproc s)))
         (\<lambda>go. if \<not> go then kthen unlock_ptable (kret (- 1)) else ksleep ''wait'')) u"
    by (simp add: wait_def zombie_child_def section_simps u_def P_def [abs_def])
  show thesis
  proof (cases "find P [0..<NPROC]")
    case None
    then show thesis
      using assms unfolding w by (intro none) (auto simp: section_simps u_def split: if_splits)
  next
    case (Some p)
    note p = find_SomeD [OF Some]
    have "reap p u = Inr (r, t)" using assms unfolding w Some by simp
    then obtain v v' where v: "kfree (p_kstack (ptable s p)) u = Inr ((), v)"
      "freevm (p_pgdir (ptable s p)) (upd_proc p (\<lambda>x. x\<lparr>p_kstack := 0\<rparr>) v) = Inr ((), v')"
      and t: "kthen unlock_ptable (kret (p_pid (ptable s p))) (upd_proc p (\<lambda>x. x\<lparr>p_pid := 0, p_parent := None, p_name := [],
         p_killed := False, p_state := UNUSED\<rparr>) v') = Inr (r, t)"
      by (auto simp: reap_def kbind_eq_Inr kthen_eq_Inr kmonad_simps u_def)
    note f1 = ktab_frame [OF leavesD [OF kmem_leaves(7) v(1)]] and f2 = ktab_frame [OF leavesD [OF uvm_leaves(2) v(2)]]
    show thesis
      using t p by (intro reaped [of p "ptable t p"])
        (auto simp: section_simps P_def f1 f2 u_def split: if_splits)
  qed
qed

lemma wait_inv:
  assumes i: "pt_inv (s, own)" and w: "wait (enter c s) = Inr (r, t)"
  shows "pt_inv (t, own)"
  using w
proof (cases rule: wait_cases)
  case none
  with i show ?thesis by (simp add: pt_inv_def)
next
  case (reaped p x)
  note D = pt_invD [OF i]
  have no: "p \<noteq> q" if "live (p_state (ptable s q))" for q using that reaped by (auto simp: live_def)
  have ow: "own p = None" using D(7) [of p] reaped by (cases "own p") auto
  show ?thesis
  proof (rule pt_invI, goal_cases)
    case 1 then show ?case using D(1) reaped by simp
  next
    case (2 q) then show ?case using D(2) [of q] reaped by (cases "q = p") auto
  next
    case (3 q r) then show ?case using D(3) [of q r] reaped by (cases "q = p"; cases "r = p") auto
  next
    case 4 then show ?case using D(4) no reaped by fastforce
  next
    case (5 q) then show ?case using D(5) [of q] no reaped by (cases "q = p") fastforce+
  next
    case (6 q) then show ?case using D(6) [of q] reaped by (cases "q = p") auto
  next
    case (7 q d) then show ?case using D(7) [of q d] no ow reaped by (cases "q = p") auto
  next
    case (8 q d) then show ?case using D(8) [of q d] reaped by (cases "q = p"; cases "d = p") auto
  qed
qed

lemma wait_sleep_inv:
  assumes i: "pt_inv (s, own)" and c: "running s c" and w: "zombie_child (enter c s) = None"
    and e: "kthen lock_ptable (sleep (OnProc c) True) (enter c s) = Inr ((), t)"
  shows "pt_inv (t, own)"
proof -
  note D = pt_invD [OF i]
  have nz: "p_state (ptable s p) \<noteq> ZOMBIE" if "p < NPROC" "p_parent (ptable s p) = Some c" for p
    using w that by (auto simp: zombie_child_def enter_def find_None_iff)
  have t: "nextpid t = nextpid s" "initproc t = initproc s" "\<And>p. p \<noteq> c \<Longrightarrow> ptable t p = ptable s p"
    "p_pid (ptable t c) = p_pid (ptable s c)" "p_parent (ptable t c) = p_parent (ptable s c)"
    "p_state (ptable t c) = SLEEPING"
    using e by (auto simp: sleep_def section_simps)
  have cn: "p_state (ptable s c) = RUNNING" using c by (simp add: running_def)
  have tl: "live (p_state (ptable t q)) = live (p_state (ptable s q))" for q
    using t(3) [of q] t(6) cn by (cases "q = c") (auto simp: live_def)
  have ts: "p_state (ptable t q) = st \<longleftrightarrow> p_state (ptable s q) = st" if "st \<in> {UNUSED, EMBRYO, ZOMBIE}" for q st
    using that t(3) [of q] t(6) cn by (cases "q = c") auto
  have tp: "p_pid (ptable t q) = p_pid (ptable s q)" "p_parent (ptable t q) = p_parent (ptable s q)" for q
    using t(3) [of q] t(4,5) by (cases "q = c"; simp)+
  show ?thesis
  proof (rule pt_invI, goal_cases)
    case (8 p d)
    then show ?case using D(8) [of p d] nz [of p] t(3) [of d] ts [of ZOMBIE p] tp [of p] by (cases "d = c") auto
  qed (use D t(1,2) tl ts tp in auto)
qed

lemma pt_step_inv: "pt_step x y \<Longrightarrow> pt_inv x \<Longrightarrow> pt_inv y"
proof (induction rule: pt_step.induct)
  case (pt_fork s c np t own) then show ?case using fork_inv [OF pt_fork(3,1,2)] by simp
next
  case (pt_fork_none s c t own) then show ?case using fork_inv [OF pt_fork_none(3,1,2)] by simp
next
  case (pt_copy s c own np t) then show ?case using same_kinds_inv copy_kinds by blast
next
  case (pt_publish s c own np t) then show ?case using publish_inv by blast
next
  case (pt_abort s c own np) then show ?case using abort_inv by blast
next
  case (pt_exit s c own t) then show ?case using exit_inv by blast
next
  case (pt_wait s c r t own) then show ?case using wait_inv by blast
next
  case (pt_wait_sleep s c t own) then show ?case using wait_sleep_inv by blast
next
  case (pt_sleep s c ch t own) then show ?case using same_kinds_inv sleep_kinds by blast
next
  case (pt_resume s c t own) then show ?case using same_kinds_inv resume_kinds by blast
next
  case (pt_yield s c t own) then show ?case using same_kinds_inv yield_kinds by blast
next
  case (pt_wakeup ch c s t own) then show ?case using same_kinds_inv wakeup_kinds by blast
next
  case (pt_kill pid c s r t own) then show ?case using same_kinds_inv kill_kinds by blast
next
  case (pt_nice v pid n c s r t own) then show ?case using same_kinds_inv nice_kinds by blast
next
  case (pt_dispatch p s t own) then show ?case using same_kinds_inv dispatch_kinds by blast
qed

lemma pt_start_inv: "pt_start x \<Longrightarrow> pt_inv x"
proof (cases x)
  case (Pair s own)
  assume "pt_start x"
  then obtain i where i: "own = (\<lambda>_. None)" "nextpid s = 2" "i < NPROC" "initproc s = Some i" "p_state (ptable s i) = RUNNABLE"
    "p_pid (ptable s i) = 1" "p_parent (ptable s i) = None"
    and u: "\<And>p. p < NPROC \<Longrightarrow> p_state (ptable s p) \<noteq> UNUSED \<Longrightarrow> p = i"
    unfolding pt_start_def Pair prod.case by blast
  show ?thesis unfolding Pair
  proof (rule pt_invI, goal_cases)
    case (2 p) then show ?case using u [of p] i by simp
  next
    case (3 p q) then show ?case using u [of p] u [of q] by simp
  next
    case 4 then show ?case using i by (auto simp: live_def)
  next
    case (5 p) then show ?case using u [of p] i by simp
  next
    case (6 p) then show ?case using u [of p] i by simp
  next
    case (8 p c) then show ?case using u [of p] i by simp
  qed (use i in simp_all)
qed

interpretation pt_sys: step_invariant pt_start pt_step pt_inv
  by unfold_locales (rule pt_start_inv, assumption, rule pt_step_inv)

subsection \<open>The scheduler\<close>

text \<open>
  The loop of \<open>scheduler\<close> with its local variables: \<open>low\<close> is \<open>lowestPriority\<close>, \<open>i\<close> the slot \<open>p\<close> points to.
  While a process runs, and while \<open>ptable.lock\<close> is released between two rounds, the table may change in any way.
\<close>

inductive sched_step :: "'a ktab_scheme \<times> int \<times> nat \<Rightarrow> (nat \<times> int) list \<Rightarrow> 'a ktab_scheme \<times> int \<times> nat \<Rightarrow> bool" where
  sched_skip: "i < NPROC \<Longrightarrow> \<not> chosen s low i \<Longrightarrow> sched_step (s, low, i) [] (s, low, Suc i)"
| sched_run: "i < NPROC \<Longrightarrow> chosen s low i \<Longrightarrow> dispatch i s = Inr ((), t) \<Longrightarrow>
    sched_step (s, low, i) [(i, p_priority (ptable s i))] (u, p_priority (ptable s i), Suc i)"
| sched_again: "sched_step (s, low, NPROC) [] (u, low, 0)"

inductive sched_trace :: "'a ktab_scheme \<times> int \<times> nat \<Rightarrow> (nat \<times> int) list \<Rightarrow> 'a ktab_scheme \<times> int \<times> nat \<Rightarrow> bool" where
  trace_nil: "sched_trace x [] x"
| trace_step: "sched_trace x ds y \<Longrightarrow> sched_step y d z \<Longrightarrow> sched_trace x (ds @ d) z"

lemma sched_step_low:
  "sched_step y d z \<Longrightarrow> fst (snd z) \<le> fst (snd y) \<and> (\<forall>e \<in> set d. snd e = fst (snd z)) \<and> length d \<le> 1"
  by (induction rule: sched_step.induct) (auto simp: chosen_def)

lemma sched_trace_low:
  "sched_trace x ds y \<Longrightarrow> fst (snd y) \<le> fst (snd x) \<and> sorted_wrt (\<ge>) (map snd ds) \<and> (\<forall>e \<in> set ds. fst (snd y) \<le> snd e \<and> snd e \<le> fst (snd x))"
proof (induction rule: sched_trace.induct)
  case (trace_step x ds y d z)
  note d = sched_step_low [OF trace_step.hyps(2)]
  have "sorted_wrt (\<ge>) (map snd d)" using d by (cases d rule: list.exhaust; cases "tl d") auto
  then show ?case using trace_step.IH d by (auto simp: sorted_wrt_append)
qed simp

subsection \<open>A small process table\<close>

definition tf_ex :: trapframe where
  "tf_ex = \<lparr>tf_edi = 0, tf_esi = 0, tf_ebp = 0, tf_oesp = 0, tf_ebx = 0, tf_edx = 0, tf_ecx = 0, tf_eax = 0, tf_gs = 0, tf_fs = 0, tf_es = 0, tf_ds = 0,
     tf_trapno = 0, tf_err = 0, tf_eip = 0, tf_cs = 0, tf_eflags = 0, tf_esp = 0, tf_ss = 0\<rparr>"

definition proc_ex :: "procstate \<Rightarrow> int \<Rightarrow> nat option \<Rightarrow> proc" where
  "proc_ex st pid parent = \<lparr>p_sz = 4096, p_pgdir = 0x80300000, p_kstack = 0x80301000, p_state = st, p_pid = pid, p_parent = parent,
     p_tf = tf_ex, p_context = Forkret, p_chan = None, p_killed = False, p_ofile = replicate NOFILE None, p_cwd = None,
     p_name = [], ticksAtStart = 0, ticksScheduled = 0, p_priority = 0\<rparr>"

definition tab_ex :: "(nat \<Rightarrow> proc) \<Rightarrow> ktab" where
  "tab_ex T = \<lparr>kmem_lock = \<lparr>locked = False, lkname = [], lkcpu = None, pcs = []\<rparr>, use_lock = True, freelist = 0x80400000,
     kmemory = (\<lambda>_. 0), kend = 0x80000000, ptable_held = False, cpu_ncli = 0, cpu_intr = True, ptable = T,
     nextpid = 2, initproc = Some 0, curproc = 0, ticks = 0, cr3 = 0\<rparr>"

definition boot_table :: "nat \<Rightarrow> proc" where
  "boot_table p = (if p = 0 then proc_ex RUNNABLE 1 None else proc_ex UNUSED 0 None)"

lemma upt_NPROC: "[0..<NPROC] = 0 # 1 # [2..<NPROC]"
  by (simp add: NPROC_def upt_conv_Cons)

lemma boot_start: "pt_start (tab_ex boot_table, \<lambda>_. None)"
  by (simp add: pt_start_def tab_ex_def boot_table_def proc_ex_def NPROC_def)

text \<open>The first process runs, and forks a child in slot 1.\<close>

lemma fork_trace:
  "\<exists>(s :: ktab) own. reach pt_start pt_step (s, own) \<and> p_state (ptable s 0) = RUNNING \<and> p_state (ptable s 1) = RUNNABLE \<and>
     p_parent (ptable s 1) = Some 0 \<and> own = (\<lambda>_. None) \<and> p_kstack (ptable s 1) \<noteq> 0 \<and> KERNBASE \<le> p_pgdir (ptable s 1) \<and> initproc s = Some 0"
proof -
  let ?o = "\<lambda>_ :: nat. None :: nat option"
  have r0: "reach pt_start pt_step (tab_ex boot_table, ?o)" by (rule reach_init) (rule boot_start)
  obtain s1 where d: "dispatch 0 (tab_ex boot_table) = Inr ((), s1)" and s1: "s1 = (tab_ex (boot_table(0 := proc_ex RUNNING 1 None)))\<lparr>cr3 := 0x300000\<rparr>"
    by (simp add: dispatch_def switchuvm_def V2P_def kmonad_simps tab_ex_def boot_table_def proc_ex_def upd_proc_def KERNBASE_def)
  have r1: "reach pt_start pt_step (s1, ?o)"
    by (rule reach_step [OF r0 pt_dispatch [OF _ _ d]]) (simp_all add: tab_ex_def boot_table_def proc_ex_def NPROC_def)
  have run: "running s1 0" by (simp add: running_def s1 tab_ex_def proc_ex_def NPROC_def)
  obtain s2 where a: "allocproc (enter 0 s1) = Inr (Some 1, s2)" and s2: "p_state (ptable s2 0) = RUNNING" "initproc s2 = Some 0"
    "p_kstack (ptable s2 1) = 0x80400000" "p_pgdir (ptable s2 1) = 0x80300000"
    by (simp add: allocproc_def alloc_scan_eval upt_NPROC section_simps kalloc_def s1 tab_ex_def boot_table_def proc_ex_def upd_proc_def zero_prio_def)
  have r2: "reach pt_start pt_step (s2, ?o(1 \<mapsto> 0))" by (rule reach_step [OF r1 pt_fork [OF run a]])
  have run2: "running s2 0" using run s2 by (simp add: running_def)
  obtain s3 where c: "fork_copy 1 (enter 0 s2) = Inr ((), s3)" and s3: "ptable s3 = (ptable s2)(1 := (ptable s2 1)\<lparr>p_sz := p_sz (ptable s2 0), p_parent := Some 0,
      p_tf := (p_tf (ptable s2 0))\<lparr>tf_eax := 0\<rparr>\<rparr>)" "initproc s3 = Some 0"
    using s2(2) by (simp add: fork_copy_def section_simps)
  have r3: "reach pt_start pt_step (s3, ?o(1 \<mapsto> 0))" by (rule reach_step [OF r2 pt_copy [OF run2 _ c]]) simp
  have run3: "running s3 0" using run2 by (simp add: running_def s3)
  obtain s4 where p: "fork_publish 1 (enter 0 s3) = Inr ((), s4)" and s4: "ptable s4 = (ptable s3)(1 := (ptable s3 1)\<lparr>p_state := RUNNABLE, ticksAtStart := sint (ticks s3), ticksScheduled := 0\<rparr>)"
      "initproc s4 = Some 0"
    using s3(2) by (simp add: fork_publish_def section_simps)
  have "reach pt_start pt_step (s4, (?o(1 \<mapsto> 0))(1 := None))"
    by (rule reach_step [OF r3 pt_publish [OF run3 _ _ p]]) (simp_all add: s3)
  then have r4: "reach pt_start pt_step (s4, ?o)" by simp
  have "p_state (ptable s4 0) = RUNNING \<and> p_state (ptable s4 1) = RUNNABLE \<and> p_parent (ptable s4 1) = Some 0 \<and> p_kstack (ptable s4 1) \<noteq> 0 \<and>
      KERNBASE \<le> p_pgdir (ptable s4 1)"
    using s2 by (simp add: s4 s3 KERNBASE_def)
  with r4 s4(2) show ?thesis by blast
qed


text \<open>The child runs and exits while its parent is still busy.\<close>

lemma exit_trace:
  "\<exists>(s :: ktab) own. reach pt_start pt_step (s, own) \<and> p_state (ptable s 1) = ZOMBIE \<and> p_parent (ptable s 1) = Some 0"
proof -
  obtain s :: ktab and own where r: "reach pt_start pt_step (s, own)" and s: "p_state (ptable s 0) = RUNNING" "p_state (ptable s 1) = RUNNABLE"
    "p_parent (ptable s 1) = Some 0" "own = (\<lambda>_. None)" "p_kstack (ptable s 1) \<noteq> 0" "KERNBASE \<le> p_pgdir (ptable s 1)" "initproc s = Some 0"
    using fork_trace by blast
  have "p_pgdir (ptable s 1) \<noteq> 0" using s(6) by (auto simp: KERNBASE_def)
  then obtain t where d: "dispatch 1 s = Inr ((), t)" and t: "ptable t = (ptable s)(1 := (ptable s 1)\<lparr>p_state := RUNNING\<rparr>)" "initproc t = Some 0"
    using s(5-7) by (simp add: dispatch_def switchuvm_def V2P_def kmonad_simps not_less [symmetric])
  have r1: "reach pt_start pt_step (t, own)"
    by (rule reach_step [OF r pt_dispatch [OF _ _ d]]) (use s(2) in \<open>simp_all add: NPROC_def\<close>)
  have run: "running t 1" by (simp add: running_def t NPROC_def)
  have "\<exists>u. exit_locked (enter 1 t) = Inr ((), u)"
    unfolding exit_run [OF t(2)] by (simp add: section_simps)
  then obtain u where u: "exit_locked (enter 1 t) = Inr ((), u)" ..
  have r2: "reach pt_start pt_step (u, own)"
    by (rule reach_step [OF r1 pt_exit [OF run _ _ u]]) (simp_all add: s(4) t ran_def)
  have "p_state (ptable u 1) = ZOMBIE \<and> p_parent (ptable u 1) = Some 0"
    using exit_eval(3) [OF t(2) u] s(3) by (auto simp: t after_exit_fields exit_woken_def)
  with r2 show ?thesis by blast
qed

section \<open>Properties\<close>



text \<open>C22. No orphans: every exited process (a zombie) has a parent that is alive and can collect it with \<open>wait\<close>;
  \<open>exit\<close> hands the children of an exiting process to \<open>initproc\<close>, which never exits.\<close>

theorem zombie_has_live_parent:
  assumes "reach pt_start pt_step (s, own)" and "p < NPROC" "p_state (ptable s p) = ZOMBIE"
  shows "\<exists>q < NPROC. q \<noteq> p \<and> p_parent (ptable s p) = Some q \<and> p_state (ptable s q) \<in> {SLEEPING, RUNNABLE, RUNNING}"
proof -
  note D = pt_invD [OF pt_sys.reach_inv [OF assms(1)]]
  have "own p = None" using D(7) [of p] assms(3) by (cases "own p") auto
  moreover have "initproc s \<noteq> Some p" using D(4) assms(3) by (auto simp: live_def)
  ultimately show ?thesis using D(5) [OF assms(2)] assms(3) by (auto simp: live_def)
qed

theorem zombie_has_live_parent_witness:
  "\<exists>(s :: ktab) own q. reach pt_start pt_step (s, own) \<and> p_state (ptable s 1) = ZOMBIE \<and> q < NPROC \<and>
     p_parent (ptable s 1) = Some q \<and> p_state (ptable s q) \<in> {SLEEPING, RUNNABLE, RUNNING}"
proof -
  obtain s :: ktab and own where r: "reach pt_start pt_step (s, own)" and s: "p_state (ptable s 1) = ZOMBIE" using exit_trace by blast
  show ?thesis using zombie_has_live_parent [OF r _ s] r s by (auto simp: NPROC_def)
qed

text \<open>C23. No lost exit: a process never sleeps in \<open>wait\<close> while it has a child that has already exited, whatever
  the order of the child's exit and the parent's call (reparenting of zombies to \<open>initproc\<close> included).\<close>

theorem wait_no_lost_exit:
  assumes "reach pt_start pt_step (s, own)" and "p < NPROC" "c < NPROC"
    and "p_parent (ptable s p) = Some c" "p_state (ptable s p) = ZOMBIE"
  shows "\<not> (p_state (ptable s c) = SLEEPING \<and> p_chan (ptable s c) = Some (OnProc c))"
  using pt_invD(8) [OF pt_sys.reach_inv [OF assms(1)] assms(2-5)] .

theorem wait_no_lost_exit_witness:
  "\<exists>(s :: ktab) own. reach pt_start pt_step (s, own) \<and> p_state (ptable s 1) = ZOMBIE \<and> p_parent (ptable s 1) = Some 0 \<and>
     \<not> (p_state (ptable s 0) = SLEEPING \<and> p_chan (ptable s 0) = Some (OnProc 0))"
proof -
  obtain s :: ktab and own where r: "reach pt_start pt_step (s, own)" and s: "p_state (ptable s 1) = ZOMBIE" "p_parent (ptable s 1) = Some 0"
    using exit_trace by blast
  have "1 < NPROC" "0 < NPROC" by (simp_all add: NPROC_def)
  from wait_no_lost_exit [OF r this s(2,1)] r s show ?thesis by blast
qed

text \<open>C24. The scheduler starves: \<open>lowestPriority\<close> is never reset, so along every run of the loop, whatever happens to
  the process table in between, the priority numbers of the processes it dispatches never increase; after it has
  run a process of priority \<open>n\<close> no process with a larger number is ever run again, even if it is the only runnable one.\<close>

theorem scheduler_starves:
  assumes "sched_trace (s, lowest_init, 0) ds (t, low, i)"
  shows "sorted_wrt (\<ge>) (map snd ds) \<and>
    (\<forall>e \<in> set ds. \<forall>p. p_priority (ptable t p) > snd e \<longrightarrow> \<not> chosen t low p)"
proof -
  note d = sched_trace_low [OF assms]
  have "\<not> chosen t low p" if "e \<in> set ds" "p_priority (ptable t p) > snd e" for e p
    using d that by (fastforce simp: chosen_def)
  with d show ?thesis by blast
qed

theorem scheduler_starves_witness:
  "\<not> chosen ((tab_ex boot_table)\<lparr>ptable := \<lambda>_. (proc_ex RUNNABLE 3 None)\<lparr>p_priority := 5\<rparr>\<rparr>) 0 2"
proof -
  let ?s = "tab_ex boot_table"
  let ?t = "(tab_ex boot_table)\<lparr>ptable := \<lambda>_. (proc_ex RUNNABLE 3 None)\<lparr>p_priority := 5\<rparr>\<rparr>"
  have c: "chosen ?s lowest_init 0" by (simp add: chosen_def tab_ex_def boot_table_def proc_ex_def lowest_init_def)
  have p0: "p_priority (ptable ?s 0) = 0" by (simp add: tab_ex_def boot_table_def proc_ex_def)
  have "\<exists>u. dispatch 0 ?s = Inr ((), u)"
    by (simp add: dispatch_def switchuvm_def V2P_def kmonad_simps tab_ex_def boot_table_def proc_ex_def upd_proc_def KERNBASE_def)
  then obtain u where "dispatch 0 ?s = Inr ((), u)" ..
  from sched_run [OF _ c this, of ?t]
  have "sched_step (?s, lowest_init, 0) [(0, 0)] (?t, 0, Suc 0)" by (simp add: NPROC_def p0)
  from trace_step [OF trace_nil this] have "sched_trace (?s, lowest_init, 0) [(0, 0)] (?t, 0, Suc 0)" by simp
  from scheduler_starves [OF this] show ?thesis by (simp add: tab_ex_def)
qed

text \<open>C25. \<open>allocproc\<close> resets priorities: every fork sets the priority of all processes in the slots it
  scans, up to the first free one, back to 0, undoing what \<open>nice\<close> has set for them.\<close>

theorem allocproc_resets_priorities:
  assumes "allocproc s = Inr (r, t)" and "p < NPROC" and "\<forall>q < p. p_state (ptable s q) \<noteq> UNUSED"
  shows "p_priority (ptable t p) = 0"
proof -
  have "p \<in> set (scanned (ptable s) [k..<NPROC])" if "k \<le> p" "p < NPROC" "\<forall>q < p. p_state (ptable s q) \<noteq> UNUSED" for k
    using that
  proof (induction "p - k" arbitrary: k)
    case 0
    then show ?case by (simp add: upt_conv_Cons)
  next
    case (Suc d)
    then have "p \<in> set (scanned (ptable s) [Suc k..<NPROC])" by auto
    then show ?case using Suc.prems Suc.hyps(2) by (simp add: upt_conv_Cons)
  qed
  from this [of 0] assms have "zero_prio (set (scanned (ptable s) [0..<NPROC])) (ptable s) p = (ptable s p)\<lparr>p_priority := 0\<rparr>"
    by (simp add: zero_prio_def)
  with assms(1) show ?thesis by (cases rule: allocproc_cases) auto
qed

theorem allocproc_resets_priorities_witness:
  "\<exists>t. allocproc (enter 0 (tab_ex (boot_table(0 := (proc_ex RUNNING 1 None)\<lparr>p_priority := 7\<rparr>)))) = Inr (Some 1, t) \<and>
     p_priority (ptable t 0) = 0"
proof -
  let ?s = "enter 0 (tab_ex (boot_table(0 := (proc_ex RUNNING 1 None)\<lparr>p_priority := 7\<rparr>)))"
  have "\<exists>t. allocproc ?s = Inr (Some 1, t)"
    by (simp add: allocproc_def alloc_scan_eval upt_NPROC section_simps kalloc_def tab_ex_def boot_table_def proc_ex_def upd_proc_def)
  then obtain t where t: "allocproc ?s = Inr (Some 1, t)" ..
  have "p_priority (ptable t 0) = 0" by (rule allocproc_resets_priorities [OF t]) (simp_all add: NPROC_def)
  with t show ?thesis by blast
qed

text \<open>C26. A failed fork leaves its pid in the free slot, where \<open>kill\<close> still finds it: the kill succeeds, and the
  next process that is created in the slot starts its life killed.\<close>

theorem kill_stale_pid:
  assumes "find (\<lambda>p. p_pid (ptable s p) = pid) [0..<NPROC] = Some p" "p_state (ptable s p) = UNUSED"
    and "kill pid (enter c s) = Inr (r, t)" "allocproc (enter c t) = Inr (Some p, u)"
  shows "r = 0 \<and> p_killed (ptable u p)"
proof -
  have t: "r = 0" "p_killed (ptable t p)"
    using assms(1-3) by (auto simp: kill_def section_simps)
  from assms(4) show ?thesis
    using t by (cases rule: allocproc_cases) (auto simp: enter_def)
qed

theorem kill_stale_pid_witness:
  "\<exists>t u. kill 9 (enter 0 (tab_ex (boot_table(0 := proc_ex RUNNING 1 None, 1 := proc_ex UNUSED 9 None)))) = Inr (0, t) \<and>
     allocproc (enter 0 t) = Inr (Some 1, u) \<and> p_killed (ptable u 1)"
proof -
  let ?s = "tab_ex (boot_table(0 := proc_ex RUNNING 1 None, 1 := proc_ex UNUSED 9 None))"
  have f: "find (\<lambda>p. p_pid (ptable ?s p) = 9) [0..<NPROC] = Some 1"
    by (simp add: upt_NPROC tab_ex_def proc_ex_def)
  obtain t where k: "kill 9 (enter 0 ?s) = Inr (0, t)" and t: "ptable t = (ptable ?s)(1 := (ptable ?s 1)\<lparr>p_killed := True\<rparr>)" "freelist t = 0x80400000"
    using f by (simp add: kill_def section_simps tab_ex_def proc_ex_def upd_proc_def)
  have "\<exists>u. allocproc (enter 0 t) = Inr (Some 1, u)"
    by (simp add: allocproc_def alloc_scan_eval upt_NPROC section_simps kalloc_def t tab_ex_def proc_ex_def upd_proc_def)
  then obtain u where u: "allocproc (enter 0 t) = Inr (Some 1, u)" ..
  have "p_state (ptable ?s 1) = UNUSED" by (simp add: tab_ex_def proc_ex_def)
  from kill_stale_pid [OF f this k u] k u show ?thesis by blast
qed

text \<open>\<open>proc_ps\<close> ignores the size of the caller's array: it stores one entry for every slot in use, however small
  \<open>numberOfProcs\<close> is, and returns that number.\<close>

lemma proc_ps_ignores_limit:
  assumes "proc_ps n s = Inr ((r, infos), t)"
  shows "r = int (length infos) \<and> length infos = card {p. p < NPROC \<and> p_state (ptable s p) \<noteq> UNUSED}"
proof -
  have "length infos = length (filter (\<lambda>p. p_state (ptable s p) \<noteq> UNUSED) [0..<NPROC])" "r = int (length infos)"
    using assms by (auto simp: proc_ps_def section_simps kthen_eq_Inr kbind_eq_Inr filter_map o_def split: if_splits)
  moreover have "length (filter (\<lambda>p. p_state (ptable s p) \<noteq> UNUSED) [0..<NPROC])
      = card (set (filter (\<lambda>p. p_state (ptable s p) \<noteq> UNUSED) [0..<NPROC]))"
    by (rule distinct_card [symmetric]) simp
  moreover have "set (filter (\<lambda>p. p_state (ptable s p) \<noteq> UNUSED) [0..<NPROC]) = {p. p < NPROC \<and> p_state (ptable s p) \<noteq> UNUSED}"
    by auto
  ultimately show ?thesis by simp
qed

lemma proc_ps_ignores_limit_witness:
  "\<exists>infos t. proc_ps 0 (tab_ex boot_table) = Inr ((1, infos), t) \<and> length infos = 1"
proof -
  have "\<exists>r infos t. proc_ps 0 (tab_ex boot_table) = Inr ((r, infos), t)"
    by (simp add: proc_ps_def section_simps tab_ex_def)
  then obtain r infos t where p: "proc_ps 0 (tab_ex boot_table) = Inr ((r, infos), t)" by blast
  have "{p. p < NPROC \<and> p_state (ptable (tab_ex boot_table) p) \<noteq> UNUSED} = {0}"
    by (auto simp: tab_ex_def boot_table_def proc_ex_def NPROC_def)
  with proc_ps_ignores_limit [OF p] p show ?thesis by auto
qed

end
