(* ===== verification/Bio.thy ===== *)
theory Bio
  imports Sleeplock Ptable
begin

text \<open>
  The block cache (\<open>bio.c\<close>, \<open>buf.h\<close>) on top of the in-memory disk driver (\<open>memide.c\<close>).  A buffer
  is named by its index in \<open>bcache.buf\<close>, and \<open>bhead\<close> is the list head \<open>bcache.head\<close>; the
  \<open>prev\<close>/\<open>next\<close> pointers are the fields \<open>b_prev\<close>/\<open>b_next\<close>.  The bits \<open>B_VALID\<close> and \<open>B_DIRTY\<close>
  of \<open>flags\<close> are two booleans.  \<open>bcache.lock\<close> is held over every access of the list, so each
  list operation is one atomic step.  \<open>disk_writes\<close> records the write requests the disk has
  served, oldest first: no operation reads it, the crash theorems of the log do.  The state
  extends the process table and the page allocator, as does everything built on the cache.
\<close>

section \<open>Definitions\<close>

definition NBUF :: nat where [param_defs]: "NBUF = 30"

definition BSIZE :: nat where [param_defs]: "BSIZE = 512"

definition bhead :: nat where "bhead = NBUF"

record buf =
  b_valid :: bool
  b_dirty :: bool
  b_dev :: nat
  b_blockno :: nat
  b_lock :: sleeplock
  b_refcnt :: uint
  b_prev :: nat
  b_next :: nat
  b_data :: "uchar list"

record bio = ktab +
  bcache_lock :: spinlock
  bcache :: "nat \<Rightarrow> buf"
  memdisk :: "nat \<Rightarrow> uchar list"
  disksize :: nat
  disk_writes :: "(nat \<times> uchar list) list"

text \<open>\<open>myproc()->pid\<close>.\<close>

abbreviation curpid :: "'a ktab_scheme \<Rightarrow> int" where
  "curpid s \<equiv> p_pid (myproc s)"

definition upd_buf :: "nat \<Rightarrow> (buf \<Rightarrow> buf) \<Rightarrow> 'a bio_scheme \<Rightarrow> 'a bio_scheme" where
  "upd_buf b f s = s\<lparr>bcache := (bcache s)(b := f (bcache s b))\<rparr>"

definition set_next :: "nat \<Rightarrow> nat \<Rightarrow> 'a bio_scheme \<Rightarrow> 'a bio_scheme" where
  "set_next b v = upd_buf b (b_next_update (\<lambda>_. v))"

definition set_prev :: "nat \<Rightarrow> nat \<Rightarrow> 'a bio_scheme \<Rightarrow> 'a bio_scheme" where
  "set_prev b v = upd_buf b (b_prev_update (\<lambda>_. v))"

definition next_of :: "'a bio_scheme \<Rightarrow> nat \<Rightarrow> nat" where
  "next_of s b = b_next (bcache s b)"

definition prev_of :: "'a bio_scheme \<Rightarrow> nat \<Rightarrow> nat" where
  "prev_of s b = b_prev (bcache s b)"

text \<open>The body of the loop of \<open>binit\<close>, and the second half of \<open>brelse\<close>, put \<open>b\<close> behind the head.\<close>

definition link_front :: "nat \<Rightarrow> ('a bio_scheme, unit) kern" where
  "link_front b =
     kthen (kmod (\<lambda>s. set_next b (next_of s bhead) s))
     (kthen (kmod (set_prev b bhead))
     (kthen (kmod (\<lambda>s. set_prev (next_of s bhead) b s))
     (kmod (set_next bhead b))))"

definition binit :: "('a bio_scheme, unit) kern" where
  "binit =
     kthen (kmod (\<lambda>s. s\<lparr>bcache_lock := init_lock ''bcache'' (bcache_lock s)\<rparr>))
     (kthen (kmod (set_prev bhead bhead))
     (kthen (kmod (set_next bhead bhead))
     (kfor [0..<NBUF] (\<lambda>b.
       kthen (kmod (upd_buf b (\<lambda>x. x\<lparr>b_lock := initsleeplock ''buffer'' (b_lock x)\<rparr>)))
       (link_front b)))))"

text \<open>\<open>memide.c\<close>: the driver the cache runs on.\<close>

definition iderw :: "nat \<Rightarrow> ('a bio_scheme, unit) kern" where
  "iderw b =
     kbind (kget (\<lambda>s. (bcache s b, curpid s, disksize s))) (\<lambda>(x, pid, sz).
     if \<not> holdingsleep pid (b_lock x) then kpanic ''iderw: buf not locked''
     else if b_valid x \<and> \<not> b_dirty x then kpanic ''iderw: nothing to do''
     else if b_dev x \<noteq> 1 then kpanic ''iderw: request not for disk 1''
     else if b_blockno x \<ge> sz then kpanic ''iderw: block out of range''
     else kthen
       (if b_dirty x then
          kthen (kmod (upd_buf b (\<lambda>y. y\<lparr>b_dirty := False\<rparr>)))
          (kmod (\<lambda>s. s\<lparr>memdisk := (memdisk s)(b_blockno x := b_data x),
             disk_writes := disk_writes s @ [(b_blockno x, b_data x)]\<rparr>))
        else kmod (\<lambda>s. upd_buf b (\<lambda>y. y\<lparr>b_data := memdisk s (b_blockno x)\<rparr>) s))
       (kmod (upd_buf b (\<lambda>y. y\<lparr>b_valid := True\<rparr>))))"

text \<open>
  The two loops of \<open>bget\<close> walk the list along \<open>step\<close> until they meet the head or a buffer that
  satisfies \<open>P\<close>; on a list that does not come back to the head such a walk has no value.
\<close>

partial_function (option) scan :: "(nat \<Rightarrow> nat) \<Rightarrow> (nat \<Rightarrow> bool) \<Rightarrow> nat \<Rightarrow> nat option option" where
  "scan step P b =
     (if b = bhead then Some None else if P b then Some (Some b) else scan step P (step b))"

definition buf_acquiresleep :: "nat \<Rightarrow> ('a bio_scheme, unit) kern" where
  "buf_acquiresleep b = (\<lambda>s. case acquiresleep (curpid s) (b_lock (bcache s b)) of
     Inl e \<Rightarrow> Inl e | Inr lk \<Rightarrow> Inr ((), upd_buf b (\<lambda>x. x\<lparr>b_lock := lk\<rparr>) s))"

definition bget :: "nat \<Rightarrow> nat \<Rightarrow> ('a bio_scheme, nat) kern" where
  "bget dev blockno = (\<lambda>s.
     case scan (next_of s) (\<lambda>b. b_dev (bcache s b) = dev \<and> b_blockno (bcache s b) = blockno)
            (next_of s bhead) of
       None \<Rightarrow> Inl Diverges
     | Some (Some b) \<Rightarrow>
         kthen (kmod (upd_buf b (\<lambda>x. x\<lparr>b_refcnt := b_refcnt x + 1\<rparr>)))
         (kthen (buf_acquiresleep b) (kret b)) s
     | Some None \<Rightarrow>
         (case scan (prev_of s) (\<lambda>b. b_refcnt (bcache s b) = 0 \<and> \<not> b_dirty (bcache s b))
                 (prev_of s bhead) of
            None \<Rightarrow> Inl Diverges
          | Some (Some b) \<Rightarrow>
              kthen (kmod (upd_buf b (\<lambda>x. x\<lparr>b_dev := dev, b_blockno := blockno,
                b_valid := False, b_dirty := False, b_refcnt := 1\<rparr>)))
              (kthen (buf_acquiresleep b) (kret b)) s
          | Some None \<Rightarrow> Inl (Panic ''bget: no buffers'')))"

definition bread :: "nat \<Rightarrow> nat \<Rightarrow> ('a bio_scheme, nat) kern" where
  "bread dev blockno =
     kbind (bget dev blockno) (\<lambda>b.
     kbind (kget (\<lambda>s. b_valid (bcache s b))) (\<lambda>v.
     kthen (if \<not> v then iderw b else kret ())
     (kret b)))"

definition bwrite :: "nat \<Rightarrow> ('a bio_scheme, unit) kern" where
  "bwrite b =
     kbind (kget (\<lambda>s. holdingsleep (curpid s) (b_lock (bcache s b)))) (\<lambda>h.
     if \<not> h then kpanic ''bwrite'' else
     kthen (kmod (upd_buf b (\<lambda>x. x\<lparr>b_dirty := True\<rparr>)))
     (iderw b))"

definition brelse :: "nat \<Rightarrow> ('a bio_scheme, unit) kern" where
  "brelse b =
     kbind (kget (\<lambda>s. holdingsleep (curpid s) (b_lock (bcache s b)))) (\<lambda>h.
     if \<not> h then kpanic ''brelse'' else
     kthen (kmod (upd_buf b (\<lambda>x. x\<lparr>b_lock := releasesleep (b_lock x)\<rparr>)))
     (kthen (kmod (upd_buf b (\<lambda>x. x\<lparr>b_refcnt := b_refcnt x - 1\<rparr>)))
     (kbind (kget (\<lambda>s. b_refcnt (bcache s b))) (\<lambda>r.
     if r = 0 then
       kthen (kmod (\<lambda>s. set_prev (next_of s b) (prev_of s b) s))
       (kthen (kmod (\<lambda>s. set_next (prev_of s b) (next_of s b) s))
       (link_front b))
     else kret ()))))"

subsection \<open>The circular list as a list, and the cache invariant\<close>

text \<open>\<open>dseg n p a xs z\<close>: following \<open>n\<close> from \<open>a\<close> visits \<open>xs\<close> and then \<open>z\<close>, and \<open>p\<close> goes back.\<close>

fun dseg :: "(nat \<Rightarrow> nat) \<Rightarrow> (nat \<Rightarrow> nat) \<Rightarrow> nat \<Rightarrow> nat list \<Rightarrow> nat \<Rightarrow> bool" where
  "dseg n p a [] z \<longleftrightarrow> n a = z \<and> p z = a"
| "dseg n p a (x # xs) z \<longleftrightarrow> n a = x \<and> p x = a \<and> dseg n p x xs z"

definition lru :: "'a bio_scheme \<Rightarrow> nat list \<Rightarrow> bool" where
  "lru s xs \<longleftrightarrow> dseg (next_of s) (prev_of s) bhead xs bhead \<and> distinct xs \<and> set xs = {..<NBUF}"

text \<open>
  What the clients of the cache see: the contents of every block (\<open>bview\<close>, through the cache),
  the blocks the log has pinned (\<open>bpinned\<close>, dirty buffers) and the blocks somebody holds (\<open>bheld\<close>).
  \<open>buf_at s b bn\<close>: the running process holds buffer \<open>b\<close>, which caches block \<open>bn\<close>.
\<close>

definition is_cached :: "'a bio_scheme \<Rightarrow> nat \<Rightarrow> nat \<Rightarrow> bool" where
  "is_cached s bn b \<longleftrightarrow> b < NBUF \<and> b_dev (bcache s b) = 1 \<and> b_blockno (bcache s b) = bn"

definition bview :: "'a bio_scheme \<Rightarrow> nat \<Rightarrow> uchar list" where
  "bview s bn = (case find (is_cached s bn) [0..<NBUF] of
     Some b \<Rightarrow> b_data (bcache s b) | None \<Rightarrow> memdisk s bn)"

definition bpinned :: "'a bio_scheme \<Rightarrow> nat set" where
  "bpinned s = {bn. \<exists>b. is_cached s bn b \<and> b_dirty (bcache s b)}"

definition bheld :: "'a bio_scheme \<Rightarrow> nat set" where
  "bheld s = {bn. \<exists>b. is_cached s bn b \<and> slocked (b_lock (bcache s b))}"

definition buf_at :: "'a bio_scheme \<Rightarrow> nat \<Rightarrow> nat \<Rightarrow> bool" where
  "buf_at s b bn \<longleftrightarrow> is_cached s bn b \<and> holdingsleep (curpid s) (b_lock (bcache s b))"

text \<open>A buffer slot is either unused since start-up or caches a valid block of the disk.\<close>

definition buf_ok :: "nat \<Rightarrow> (nat \<Rightarrow> uchar list) \<Rightarrow> buf \<Rightarrow> bool" where
  "buf_ok sz disk x \<longleftrightarrow>
     b_refcnt x = (if slocked (b_lock x) then 1 else 0) \<and>
     (if b_dev x = 1
      then b_valid x \<and> b_blockno x < sz \<and> length (b_data x) = BSIZE \<and>
        (\<not> b_dirty x \<and> \<not> slocked (b_lock x) \<longrightarrow> b_data x = disk (b_blockno x))
      else b_dev x = 0 \<and> \<not> b_valid x \<and> \<not> b_dirty x \<and> \<not> slocked (b_lock x))"

definition bcache_inv :: "'a bio_scheme \<Rightarrow> bool" where
  "bcache_inv s \<longleftrightarrow> (\<exists>xs. lru s xs) \<and>
     (\<forall>b c bn. is_cached s bn b \<and> is_cached s bn c \<longrightarrow> b = c) \<and>
     (\<forall>b < NBUF. buf_ok (disksize s) (memdisk s) (bcache s b)) \<and>
     (\<forall>bn < disksize s. length (memdisk s bn) = BSIZE)"

section \<open>Lemmas\<close>

lemma dseg_append: "dseg n p a (xs @ y # ys) z \<longleftrightarrow> dseg n p a xs y \<and> dseg n p y ys z"
  by (induction xs arbitrary: a) auto

lemma dseg_cong:
  assumes "\<And>x. x \<in> set (a # xs) \<Longrightarrow> n x = n' x" and "\<And>x. x \<in> set (xs @ [z]) \<Longrightarrow> p x = p' x"
  shows "dseg n p a xs z = dseg n' p' a xs z"
  using assms by (induction xs arbitrary: a) auto

lemma dseg_upd_next: "x \<notin> set (a # xs) \<Longrightarrow> dseg (n(x := y)) p a xs z = dseg n p a xs z"
  by (rule dseg_cong) auto

lemma dseg_upd_prev: "x \<notin> set (xs @ [z]) \<Longrightarrow> dseg n (p(x := y)) a xs z = dseg n p a xs z"
  by (rule dseg_cong) auto

lemma dseg_last: "dseg n p a xs z \<Longrightarrow> p z = last (a # xs)"
  by (induction xs arbitrary: a) auto

lemma dseg_first: "dseg n p a xs z \<Longrightarrow> n a = hd (xs @ [z])"
  by (cases xs) auto

lemma dseg_unlink:
  assumes "dseg n p a (us @ b # vs) z" and "distinct (us @ b # vs)"
    and "a \<notin> set (us @ b # vs)" and "z \<notin> set (us @ b # vs)"
  shows "dseg (n(p b := n b)) (p(n b := p b)) a (us @ vs) z"
proof -
  have seg: "dseg n p a us b" "dseg n p b vs z" using assms(1) by (simp_all add: dseg_append)
  have pb: "p b = last (a # us)" and nb: "n b = hd (vs @ [z])"
    using dseg_last [OF seg(1)] dseg_first [OF seg(2)] by simp_all
  have tail: "dseg (n(x := hd (vs @ [z]))) (p(hd (vs @ [z]) := x)) x vs z" if "x \<notin> set vs" for x
  proof (cases vs)
    case (Cons v vs')
    with assms that seg(2) show ?thesis by (simp add: dseg_upd_next dseg_upd_prev)
  qed simp
  show ?thesis
  proof (cases us rule: rev_cases)
    case Nil
    then show ?thesis using tail [of a] assms(3) pb nb by simp
  next
    case (snoc us' u)
    with assms seg(1) have "dseg n p a us' u" by (simp add: dseg_append)
    with assms snoc have
      "dseg (n(u := hd (vs @ [z]))) (p(hd (vs @ [z]) := u)) a us' u"
      by (cases vs) (auto simp: dseg_upd_next dseg_upd_prev)
    then show ?thesis using tail [of u] assms(2) snoc pb nb by (simp add: dseg_append)
  qed
qed

lemma dseg_link:
  assumes "dseg n p a xs z" and "b \<notin> set (a # xs @ [z])" and "a \<notin> set xs" and "z \<notin> set xs"
    and "distinct xs"
  shows "dseg (n(b := n a, a := b)) (p(b := a, n a := b)) a (b # xs) z"
proof (cases xs)
  case (Cons x xs')
  with assms show ?thesis by (simp add: dseg_upd_next dseg_upd_prev)
qed (use assms in simp)

lemma dseg_rev: "dseg n p a xs z \<longleftrightarrow> dseg p n z (rev xs) a"
  by (induction xs arbitrary: a) (auto simp: dseg_append)

lemma scan_dseg:
  "dseg n p a xs bhead \<Longrightarrow> bhead \<notin> set xs \<Longrightarrow> scan n P (n a) = Some (find P xs)"
  by (induction xs arbitrary: a) (auto simp: scan.simps [of n P])

lemma lru_set: "lru s xs \<Longrightarrow> set xs = {..<NBUF}"
  by (simp add: lru_def)

lemma lru_scan:
  assumes "lru s xs"
  shows "scan (next_of s) P (next_of s bhead) = Some (find P xs)"
    and "scan (prev_of s) P (prev_of s bhead) = Some (find P (rev xs))"
proof -
  have "bhead \<notin> set xs" using assms by (simp add: lru_def bhead_def)
  with assms show "scan (next_of s) P (next_of s bhead) = Some (find P xs)"
    "scan (prev_of s) P (prev_of s bhead) = Some (find P (rev xs))"
    using dseg_rev by (auto simp: lru_def intro!: scan_dseg)
qed

lemma link_upd [simp]:
  "next_of (set_next b v s) = (next_of s)(b := v)" "prev_of (set_next b v s) = prev_of s"
  "prev_of (set_prev b v s) = (prev_of s)(b := v)" "next_of (set_prev b v s) = next_of s"
  by (auto simp: next_of_def prev_of_def set_next_def set_prev_def upd_buf_def fun_eq_iff)

lemma upd_buf_links:
  "(\<And>x. b_next (f x) = b_next x) \<Longrightarrow> next_of (upd_buf b f s) = next_of s"
  "(\<And>x. b_prev (f x) = b_prev x) \<Longrightarrow> prev_of (upd_buf b f s) = prev_of s"
  by (auto simp: next_of_def prev_of_def upd_buf_def fun_eq_iff)

text \<open>A buffer without its list pointers, and states that differ in the pointers only.\<close>

definition strip :: "buf \<Rightarrow> buf" where
  "strip x = x\<lparr>b_prev := 0, b_next := 0\<rparr>"

definition relinked :: "'a bio_scheme \<Rightarrow> 'a bio_scheme \<Rightarrow> bool" where
  "relinked s t \<longleftrightarrow> t = s\<lparr>bcache := bcache t\<rparr> \<and> (\<forall>b. strip (bcache t b) = strip (bcache s b))"

lemma strip_eq:
  "strip x = strip y \<longleftrightarrow> b_valid x = b_valid y \<and> b_dirty x = b_dirty y \<and> b_dev x = b_dev y \<and>
     b_blockno x = b_blockno y \<and> b_lock x = b_lock y \<and> b_refcnt x = b_refcnt y \<and>
     b_data x = b_data y"
  by (cases x, cases y) (auto simp: strip_def)

lemma relinked_refl: "relinked s s"
  by (simp add: relinked_def)

lemma relinked_trans:
  assumes "relinked s t" and "relinked t u"
  shows "relinked s u"
proof -
  have t: "t = s\<lparr>bcache := bcache t\<rparr>" and u: "u = t\<lparr>bcache := bcache u\<rparr>"
    using assms unfolding relinked_def by blast+
  have "t\<lparr>bcache := bcache u\<rparr> = s\<lparr>bcache := bcache t\<rparr>\<lparr>bcache := bcache u\<rparr>"
    by (rule arg_cong [where f = "bcache_update (\<lambda>_. bcache u)", OF t])
  then have "u = s\<lparr>bcache := bcache u\<rparr>" using trans [OF u] by simp
  then show ?thesis using assms unfolding relinked_def by metis
qed

lemma relinked_set: "relinked s (set_next b v s)" "relinked s (set_prev b v s)"
  by (simp_all add: relinked_def set_next_def set_prev_def upd_buf_def strip_def)

lemma link_front_spec:
  assumes "dseg (next_of s) (prev_of s) bhead xs bhead" and "b \<noteq> bhead" "b \<notin> set xs"
    and "bhead \<notin> set xs" and "distinct xs"
  obtains t where "link_front b s = Inr ((), t)" "relinked s t"
    "dseg (next_of t) (prev_of t) bhead (b # xs) bhead"
proof -
  let ?t = "set_next bhead b (set_prev (next_of s bhead) b (set_prev b bhead
    (set_next b (next_of s bhead) s)))"
  have "link_front b s = Inr ((), ?t)"
    using assms(2) by (simp add: link_front_def kmonad_simps)
  moreover have "relinked s ?t" by (meson relinked_set relinked_trans)
  moreover have "dseg (next_of ?t) (prev_of ?t) bhead (b # xs) bhead"
    using dseg_link [OF assms(1), of b] assms by simp
  ultimately show ?thesis by (rule that)
qed

subsection \<open>Invariant and views under updates of one buffer\<close>

lemma relinked_views:
  assumes "relinked s t"
  shows "is_cached t = is_cached s" "bview t = bview s" "bpinned t = bpinned s"
    "bheld t = bheld s" "buf_at t = buf_at s"
    "buf_ok n d (bcache t b) = buf_ok n d (bcache s b)"
    "bio.more t = bio.more s" "curpid t = curpid s" "memdisk t = memdisk s"
    "disksize t = disksize s" "disk_writes t = disk_writes s"
proof -
  have c: "strip (bcache t b) = strip (bcache s b)" for b using assms by (simp add: relinked_def)
  obtain bc where bc: "t = s\<lparr>bcache := bc\<rparr>" using assms by (metis relinked_def)
  show t: "bio.more t = bio.more s" "curpid t = curpid s" "memdisk t = memdisk s"
    "disksize t = disksize s" "disk_writes t = disk_writes s" by (simp_all add: bc)
  have f: "b_data (bcache t b) = b_data (bcache s b)" "b_dirty (bcache t b) = b_dirty (bcache s b)"
    "b_lock (bcache t b) = b_lock (bcache s b)" for b using c [of b] by (auto simp: strip_eq)
  show ic: "is_cached t = is_cached s" using c by (auto simp: is_cached_def strip_eq fun_eq_iff)
  show "bview t = bview s" unfolding bview_def ic f t by (rule refl)
  show "bpinned t = bpinned s" "bheld t = bheld s" unfolding bpinned_def bheld_def ic f by simp_all
  show "buf_at t = buf_at s" unfolding buf_at_def ic f by (simp add: t)
  show "buf_ok n d (bcache t b) = buf_ok n d (bcache s b)" using c by (auto simp: buf_ok_def strip_eq)
qed

lemma invD:
  assumes "bcache_inv s"
  shows inv_lru: "\<exists>xs. lru s xs"
    and inv_unique: "is_cached s bn b \<Longrightarrow> is_cached s bn c \<Longrightarrow> b = c"
    and inv_buf: "b < NBUF \<Longrightarrow> buf_ok (disksize s) (memdisk s) (bcache s b)"
    and inv_disk: "bn < disksize s \<Longrightarrow> length (memdisk s bn) = BSIZE"
  using assms by (auto simp: bcache_inv_def)

lemma bview_cached:
  assumes "bcache_inv s" and "is_cached s bn b" shows "bview s bn = b_data (bcache s b)"
proof -
  have "find (is_cached s bn) [0..<NBUF] = Some b"
    using assms by (intro find_unique inv_unique [OF assms(1)]) (auto simp: is_cached_def)
  then show ?thesis by (simp add: bview_def)
qed

lemma bview_uncached: "(\<And>b. \<not> is_cached s bn b) \<Longrightarrow> bview s bn = memdisk s bn"
  by (auto simp: bview_def find_Some_iff split: option.splits)

lemma bview_disk:
  assumes "bcache_inv s" and "bn \<notin> bpinned s" and "bn \<notin> bheld s"
  shows "bview s bn = memdisk s bn"
proof (cases "\<exists>b. is_cached s bn b")
  case True
  then obtain b where b: "is_cached s bn b" ..
  then have "\<not> b_dirty (bcache s b)" "\<not> slocked (b_lock (bcache s b))" "b < NBUF"
    using assms by (auto simp: bpinned_def bheld_def is_cached_def)
  with inv_buf [OF assms(1), of b] b show ?thesis
    by (simp add: bview_cached [OF assms(1) b] buf_ok_def is_cached_def)
qed (simp add: bview_uncached)

lemma bview_length: "bcache_inv s \<Longrightarrow> bn < disksize s \<Longrightarrow> length (bview s bn) = BSIZE"
  by (metis bview_cached bview_uncached buf_ok_def inv_buf inv_disk is_cached_def)

lemma lru_cong:
  "next_of t = next_of s \<Longrightarrow> prev_of t = prev_of s \<Longrightarrow> lru t xs = lru s xs"
  by (simp add: lru_def)

lemma is_cached_upd:
  "is_cached (upd_buf b f s) bn c \<longleftrightarrow>
     (if c = b then b < NBUF \<and> b_dev (f (bcache s b)) = 1 \<and> b_blockno (f (bcache s b)) = bn
      else is_cached s bn c)"
  by (auto simp: is_cached_def upd_buf_def)

lemma upd_buf_sel [simp]:
  "curpid (upd_buf b f s) = curpid s" "memdisk (upd_buf b f s) = memdisk s"
  "disksize (upd_buf b f s) = disksize s" "disk_writes (upd_buf b f s) = disk_writes s"
  "bio.more (upd_buf b f s) = bio.more s" "bcache (upd_buf b f s) c = (if c = b then f (bcache s b) else bcache s c)"
  by (simp_all add: upd_buf_def)

lemma bcache_inv_upd:
  assumes "bcache_inv s" and "next_of (upd_buf b f s) = next_of s" "prev_of (upd_buf b f s) = prev_of s"
    and "buf_ok (disksize s) (memdisk s) (f (bcache s b))"
    and "\<And>c. is_cached s (b_blockno (f (bcache s b))) c \<Longrightarrow> c = b"
  shows "bcache_inv (upd_buf b f s)"
  using assms lru_cong [OF assms(2,3)] unfolding bcache_inv_def
  by (auto simp: is_cached_upd split: if_splits) metis+

definition block_of :: "buf \<Rightarrow> nat set" where
  "block_of x = (if b_dev x = 1 then {b_blockno x} else {})"

lemma is_cached_block_of: "is_cached s m b \<longleftrightarrow> b < NBUF \<and> m \<in> block_of (bcache s b)"
  by (auto simp: is_cached_def block_of_def)

lemma views_upd:
  assumes "bcache_inv s" and "bcache_inv (upd_buf b (\<lambda>_. y) s)" and "b < NBUF"
  shows bview_upd: "bview (upd_buf b (\<lambda>_. y) s) m =
      (if m \<in> block_of y then b_data y else if m \<in> block_of (bcache s b) then memdisk s m
       else bview s m)"
    and bpinned_upd: "bpinned (upd_buf b (\<lambda>_. y) s) =
      (bpinned s - block_of (bcache s b)) \<union> (if b_dirty y then block_of y else {})"
    and bheld_upd: "bheld (upd_buf b (\<lambda>_. y) s) =
      (bheld s - block_of (bcache s b)) \<union> (if slocked (b_lock y) then block_of y else {})"
proof -
  let ?t = "upd_buf b (\<lambda>_. y) s"
  have c: "is_cached ?t m c \<longleftrightarrow> (if c = b then m \<in> block_of y else is_cached s m c)" for m c
    using assms(3) by (auto simp: is_cached_upd block_of_def)
  have u: "is_cached s m c \<Longrightarrow> m \<in> block_of (bcache s b) \<Longrightarrow> c = b" for m c
    using inv_unique [OF assms(1), of m c b] assms(3) by (simp add: is_cached_block_of)
  show "bview ?t m = (if m \<in> block_of y then b_data y
      else if m \<in> block_of (bcache s b) then memdisk s m else bview s m)"
  proof (cases "\<exists>d. is_cached ?t m d")
    case True
    then obtain d where d: "is_cached ?t m d" ..
    show ?thesis
    proof (cases "d = b")
      case True
      then show ?thesis using c [of m d] d bview_cached [OF assms(2) d] by simp
    next
      case False
      then have "is_cached s m d" "m \<notin> block_of y"
        using c [of m d] c [of m b] d inv_unique [OF assms(2) d, of b] by auto
      then show ?thesis
        using u [of m d] False bview_cached [OF assms(2) d] bview_cached [OF assms(1), of m d] by auto
    qed
  next
    case False
    then have n: "\<not> is_cached ?t m d" for d by simp
    then have "bview ?t m = memdisk s m" using bview_uncached [of ?t m] by simp
    moreover have "m \<notin> block_of y" using n [of b] c [of m b] by simp
    moreover have "\<not> is_cached s m d" if "m \<notin> block_of (bcache s b)" for d
      using that n [of d] c [of m d] by (cases "d = b") (auto simp: is_cached_block_of)
    ultimately show ?thesis using bview_uncached [of s m] by auto
  qed
  show "bpinned ?t = (bpinned s - block_of (bcache s b)) \<union> (if b_dirty y then block_of y else {})"
    unfolding bpinned_def c using u by (fastforce simp: is_cached_block_of split: if_splits)
  show "bheld ?t = (bheld s - block_of (bcache s b)) \<union> (if slocked (b_lock y) then block_of y else {})"
    unfolding bheld_def c using u by (fastforce simp: is_cached_block_of split: if_splits)
qed

subsection \<open>bread\<close>

text \<open>What every cache operation leaves alone.\<close>

definition bio_frame :: "'a bio_scheme \<Rightarrow> 'a bio_scheme \<Rightarrow> bool" where
  "bio_frame s t \<longleftrightarrow> bcache_inv t \<and> bio.more t = bio.more s \<and> curpid t = curpid s \<and>
     disksize t = disksize s"

text \<open>Handing buffer \<open>b\<close> out as the locked buffer of block \<open>bn\<close>.\<close>

lemma take_buf:
  assumes inv: "bcache_inv s" and b: "b < NBUF" "\<not> slocked (b_lock (bcache s b))"
    and bn: "bn < disksize s" "\<And>c. is_cached s bn c \<Longrightarrow> c = b"
    and old: "bn \<notin> block_of (bcache s b) \<Longrightarrow> \<not> b_dirty (bcache s b)"
    and y: "b_dev y = 1" "b_blockno y = bn" "b_valid y" "b_refcnt y = 1"
      "slocked (b_lock y)" "slpid (b_lock y) = curpid s" "b_data y = bview s bn"
      "b_dirty y = (bn \<in> bpinned s)" "b_next y = b_next (bcache s b)" "b_prev y = b_prev (bcache s b)"
  shows "bio_frame s (upd_buf b (\<lambda>_. y) s)" "buf_at (upd_buf b (\<lambda>_. y) s) b bn"
    "bview (upd_buf b (\<lambda>_. y) s) = bview s" "bpinned (upd_buf b (\<lambda>_. y) s) = bpinned s"
    "bheld (upd_buf b (\<lambda>_. y) s) = insert bn (bheld s)"
    "buf_at s c cn \<Longrightarrow> buf_at (upd_buf b (\<lambda>_. y) s) c cn"
proof -
  let ?t = "upd_buf b (\<lambda>_. y) s"
  have links: "next_of ?t = next_of s" "prev_of ?t = prev_of s"
    using y by (auto simp: next_of_def prev_of_def fun_eq_iff)
  have "buf_ok (disksize s) (memdisk s) y"
    using y bn(1) bview_length [OF inv bn(1)] by (simp add: buf_ok_def)
  then have t: "bcache_inv ?t" using inv links bn(2) y(2) by (intro bcache_inv_upd) auto
  then show "bio_frame s ?t" by (simp add: bio_frame_def)
  show "buf_at ?t b bn"
    using b y by (simp add: buf_at_def is_cached_upd holdingsleep_def)
  have blk: "block_of y = {bn}" using y by (simp add: block_of_def)
  have x: "buf_ok (disksize s) (memdisk s) (bcache s b)" using inv_buf [OF inv b(1)] .
  have free: "m \<in> block_of (bcache s b) \<Longrightarrow> is_cached s m b" for m
    using b by (simp add: is_cached_block_of)
  have pin: "m \<in> block_of (bcache s b) \<Longrightarrow> m \<in> bpinned s \<longleftrightarrow> b_dirty (bcache s b)" for m
    using inv_unique [OF inv free] free by (auto simp: bpinned_def)
  have "m \<in> block_of (bcache s b) \<Longrightarrow> m \<noteq> bn \<Longrightarrow> bview s m = memdisk s m" for m
    using bview_cached [OF inv free] x old b(2)
    by (auto simp: buf_ok_def block_of_def split: if_splits)
  then show "bview ?t = bview s" by (auto simp: bview_upd [OF inv t b(1)] blk y(7))
  show "bpinned ?t = bpinned s"
    unfolding bpinned_upd [OF inv t b(1)] blk y(8) using pin old
    by (cases "bn \<in> block_of (bcache s b)") (auto simp: block_of_def split: if_splits)
  have "m \<in> block_of (bcache s b) \<Longrightarrow> m \<notin> bheld s" for m
    using inv_unique [OF inv free] b(2) by (auto simp: bheld_def)
  then show "bheld ?t = insert bn (bheld s)"
    unfolding bheld_upd [OF inv t b(1)] blk using y(5) by auto
  show "buf_at ?t c cn" if "buf_at s c cn"
    using that b(2) by (auto simp: buf_at_def is_cached_upd holdingsleep_def)
qed

text \<open>The buffer \<open>bread\<close> returns when the block is cached, and when a buffer is recycled for it.\<close>

definition hit_buf :: "'a bio_scheme \<Rightarrow> nat \<Rightarrow> buf" where
  "hit_buf s b = (bcache s b)\<lparr>b_refcnt := b_refcnt (bcache s b) + 1,
     b_lock := (b_lock (bcache s b))\<lparr>slocked := True, slpid := curpid s\<rparr>\<rparr>"

definition miss_buf :: "'a bio_scheme \<Rightarrow> nat \<Rightarrow> nat \<Rightarrow> buf" where
  "miss_buf s b bn = (bcache s b)\<lparr>b_dev := 1, b_blockno := bn, b_dirty := False,
     b_refcnt := 1, b_lock := (b_lock (bcache s b))\<lparr>slocked := True, slpid := curpid s\<rparr>,
     b_data := memdisk s bn, b_valid := True\<rparr>"

lemma upd_buf_upd_buf: "upd_buf b f (upd_buf b g s) = upd_buf b (\<lambda>x. f (g x)) s"
  by (simp add: upd_buf_def)

lemma upd_buf_const: "upd_buf b f s = upd_buf b (\<lambda>_. f (bcache s b)) s"
  by (simp add: upd_buf_def)

lemma bread_hit:
  assumes "bcache_inv s" and "is_cached s bn b" and "bn \<notin> bheld s"
  shows "bread 1 bn s = Inr (b, upd_buf b (\<lambda>_. hit_buf s b) s)"
proof -
  obtain xs where xs: "lru s xs" using inv_lru [OF assms(1)] ..
  have b: "b < NBUF" "b_dev (bcache s b) = 1" "b_blockno (bcache s b) = bn"
    "\<not> slocked (b_lock (bcache s b))"
    using assms by (auto simp: is_cached_def bheld_def)
  have f: "find (\<lambda>b. b_dev (bcache s b) = 1 \<and> b_blockno (bcache s b) = bn) xs = Some b"
  proof (rule find_unique)
    show "b \<in> set xs" using xs b by (simp add: lru_def)
    fix c assume "c \<in> set xs" "b_dev (bcache s c) = 1 \<and> b_blockno (bcache s c) = bn"
    then show "c = b" using xs by (intro inv_unique [OF assms(1) _ assms(2)]) (simp add: lru_def is_cached_def)
  qed (use b in simp)
  have "b_valid (bcache s b)" using inv_buf [OF assms(1) b(1)] b(2) by (simp add: buf_ok_def)
  then show ?thesis using b(4)
    by (simp add: bread_def bget_def lru_scan [OF xs] f [simplified] buf_acquiresleep_def acquiresleep_def
        hit_buf_def kbind_def kthen_def kmod_def kget_def kret_def upd_buf_def)
qed

lemma bread_miss:
  assumes "bcache_inv s" and "bn < disksize s" and "\<And>b. \<not> is_cached s bn b"
    and "lru s xs" and f: "find (\<lambda>b. b_refcnt (bcache s b) = 0 \<and> \<not> b_dirty (bcache s b)) (rev xs) = Some b"
  shows "bread 1 bn s = Inr (b, upd_buf b (\<lambda>_. miss_buf s b bn) s)"
proof -
  have "b \<in> set (rev xs)" "b_refcnt (bcache s b) = 0"
    using find_SomeD [OF f] by simp_all
  then have b: "b < NBUF" "\<not> slocked (b_lock (bcache s b))"
    using inv_buf [OF assms(1), of b] by (auto simp: lru_set [OF assms(4)] buf_ok_def)
  have n: "find (\<lambda>b. b_dev (bcache s b) = Suc 0 \<and> b_blockno (bcache s b) = bn) xs = None"
    using assms(3) by (auto simp: find_None_iff lru_set [OF assms(4)] is_cached_def)
  show ?thesis using b assms(2)
    by (simp add: bread_def bget_def lru_scan [OF assms(4)] f n buf_acquiresleep_def acquiresleep_def
        miss_buf_def kbind_def kthen_def kmod_def kget_def kret_def upd_buf_def iderw_def holdingsleep_def)
qed

text \<open>A buffer can be recycled as long as fewer than \<open>NBUF\<close> blocks are pinned or held.\<close>

lemma free_buf_exists:
  assumes inv: "bcache_inv s" and "\<And>b. \<not> is_cached s bn b"
    and card: "card (insert bn (bpinned s \<union> bheld s)) \<le> NBUF"
  shows "\<exists>b < NBUF. b_refcnt (bcache s b) = 0 \<and> \<not> b_dirty (bcache s b)"
proof (rule ccontr)
  let ?blk = "\<lambda>b. b_blockno (bcache s b)"
  assume a: "\<not> (\<exists>b < NBUF. b_refcnt (bcache s b) = 0 \<and> \<not> b_dirty (bcache s b))"
  have c: "is_cached s (?blk b) b \<and> ?blk b \<in> bpinned s \<union> bheld s" if "b < NBUF" for b
    using a inv_buf [OF inv that] that
    by (auto simp: buf_ok_def is_cached_def bpinned_def bheld_def split: if_splits)
  have inj: "inj_on ?blk {..<NBUF}"
    using c inv_unique [OF inv] by (intro inj_onI) (metis lessThan_iff)
  have sub: "?blk ` {..<NBUF} \<subseteq> bpinned s \<union> bheld s" using c by auto
  have fin: "bpinned s \<union> bheld s \<subseteq> ?blk ` {..<NBUF}"
    by (auto simp: bpinned_def bheld_def is_cached_def)
  have "bn \<notin> bpinned s \<union> bheld s" using assms(2) by (auto simp: bpinned_def bheld_def)
  moreover have "finite (bpinned s \<union> bheld s)" by (rule finite_subset [OF fin]) simp
  ultimately have "card (insert bn (bpinned s \<union> bheld s)) = Suc (card (?blk ` {..<NBUF}))"
    using sub fin by (simp add: subset_antisym)
  with card inj show False by (simp add: card_image)
qed

lemma bread_spec_free:
  assumes inv: "bcache_inv s" and bn: "bn < disksize s" "bn \<notin> bheld s"
    and free: "(\<exists>b. is_cached s bn b) \<or>
      (\<exists>b < NBUF. b_refcnt (bcache s b) = 0 \<and> \<not> b_dirty (bcache s b))"
  obtains b t where "bread 1 bn s = Inr (b, t)" "bio_frame s t" "buf_at t b bn"
    "bview t = bview s" "bpinned t = bpinned s" "bheld t = insert bn (bheld s)"
    "\<And>c cn. buf_at s c cn \<Longrightarrow> buf_at t c cn" "memdisk t = memdisk s" "disk_writes t = disk_writes s"
proof (cases "\<exists>b. is_cached s bn b")
  case True
  then obtain b where b: "is_cached s bn b" ..
  then have x: "b < NBUF" "bn \<in> block_of (bcache s b)" "\<not> slocked (b_lock (bcache s b))"
    "buf_ok (disksize s) (memdisk s) (bcache s b)"
    using bn inv_buf [OF inv] by (auto simp: is_cached_block_of bheld_def)
  have u: "is_cached s bn c \<Longrightarrow> c = b" for c by (rule inv_unique [OF inv _ b])
  have d: "b_dirty (bcache s b) = (bn \<in> bpinned s)" using b u unfolding bpinned_def by blast
  have y: "b_dev (bcache s b) = 1" "b_blockno (bcache s b) = bn" using b by (auto simp: is_cached_def)
  have h: "b_dev (hit_buf s b) = 1" "b_blockno (hit_buf s b) = bn" "b_valid (hit_buf s b)"
    "b_refcnt (hit_buf s b) = 1" "slocked (b_lock (hit_buf s b))" "slpid (b_lock (hit_buf s b)) = curpid s"
    "b_data (hit_buf s b) = bview s bn" "b_dirty (hit_buf s b) = (bn \<in> bpinned s)"
    "b_next (hit_buf s b) = b_next (bcache s b)" "b_prev (hit_buf s b) = b_prev (bcache s b)"
    using x y d by (simp_all add: hit_buf_def buf_ok_def bview_cached [OF inv b])
  have old: "bn \<notin> block_of (bcache s b) \<Longrightarrow> \<not> b_dirty (bcache s b)" using x by simp
  note tk = take_buf [OF inv x(1,3) bn(1) u old h]
  show thesis by (rule that [OF bread_hit [OF inv b bn(2)] tk]) simp_all
next
  case False
  then have nc: "\<And>b. \<not> is_cached s bn b" by simp
  obtain xs where xs: "lru s xs" using inv_lru [OF inv] ..
  obtain b where f: "find (\<lambda>b. b_refcnt (bcache s b) = 0 \<and> \<not> b_dirty (bcache s b)) (rev xs) = Some b"
    using free False
    by (cases "find (\<lambda>b. b_refcnt (bcache s b) = 0 \<and> \<not> b_dirty (bcache s b)) (rev xs)")
      (auto simp: find_None_iff lru_set [OF xs])
  then have "b \<in> set (rev xs)" "b_refcnt (bcache s b) = 0" "\<not> b_dirty (bcache s b)"
    by (auto dest: find_SomeD)
  then have x: "b < NBUF" "\<not> slocked (b_lock (bcache s b))" "\<not> b_dirty (bcache s b)"
    using inv_buf [OF inv, of b] by (auto simp: lru_set [OF xs] buf_ok_def)
  have p: "bn \<notin> bpinned s" using nc by (auto simp: bpinned_def)
  let ?y = "miss_buf s b bn"
  have h: "b_dev ?y = 1" "b_blockno ?y = bn" "b_valid ?y" "b_refcnt ?y = 1" "slocked (b_lock ?y)"
    "slpid (b_lock ?y) = curpid s" "b_data ?y = bview s bn" "b_dirty ?y = (bn \<in> bpinned s)"
    "b_next ?y = b_next (bcache s b)" "b_prev ?y = b_prev (bcache s b)"
    using p by (simp_all add: miss_buf_def bview_uncached [OF nc])
  have u: "is_cached s bn c \<Longrightarrow> c = b" for c using nc by simp
  note tk = take_buf [OF inv x(1,2) bn(1) u x(3) h]
  show thesis by (rule that [OF bread_miss [OF inv bn(1) nc xs f] tk]) simp_all
qed

lemma bread_spec:
  assumes inv: "bcache_inv s" and bn: "bn < disksize s" "bn \<notin> bheld s"
    and card: "card (insert bn (bpinned s \<union> bheld s)) \<le> NBUF"
  obtains b t where "bread 1 bn s = Inr (b, t)" "bio_frame s t" "buf_at t b bn"
    "bview t = bview s" "bpinned t = bpinned s" "bheld t = insert bn (bheld s)"
    "\<And>c cn. buf_at s c cn \<Longrightarrow> buf_at t c cn" "memdisk t = memdisk s" "disk_writes t = disk_writes s"
  using bread_spec_free [OF inv bn] free_buf_exists [OF inv _ card] by metis

subsection \<open>Writing to a held buffer, bwrite and brelse\<close>

lemma buf_atD:
  assumes "bcache_inv s" and "buf_at s b bn"
  shows "b < NBUF" "is_cached s bn b" "b_dev (bcache s b) = 1" "b_blockno (bcache s b) = bn"
    "b_valid (bcache s b)" "bn < disksize s" "slocked (b_lock (bcache s b))"
    "holdingsleep (curpid s) (b_lock (bcache s b))" "b_refcnt (bcache s b) = 1"
    "b_data (bcache s b) = bview s bn" "bn \<in> bheld s"
    "b_dirty (bcache s b) = (bn \<in> bpinned s)" "block_of (bcache s b) = {bn}"
    "length (bview s bn) = BSIZE"
proof -
  show c: "is_cached s bn b" and h: "holdingsleep (curpid s) (b_lock (bcache s b))"
    using assms(2) by (simp_all add: buf_at_def)
  then show b: "b < NBUF" "b_dev (bcache s b) = 1" "b_blockno (bcache s b) = bn"
    "slocked (b_lock (bcache s b))" "block_of (bcache s b) = {bn}"
    by (auto simp: is_cached_def holdingsleep_def block_of_def)
  with inv_buf [OF assms(1) b(1)] show "b_valid (bcache s b)" "b_refcnt (bcache s b) = 1"
    "bn < disksize s" by (auto simp: buf_ok_def)
  then show "length (bview s bn) = BSIZE" using bview_length [OF assms(1)] by simp
  show "b_data (bcache s b) = bview s bn" using bview_cached [OF assms(1) c] by simp
  show "bn \<in> bheld s" using c b by (auto simp: bheld_def)
  show "b_dirty (bcache s b) = (bn \<in> bpinned s)"
    using c inv_unique [OF assms(1) _ c] unfolding bpinned_def by blast
qed

lemma buf_at_inj: "bcache_inv s \<Longrightarrow> buf_at s b bn \<Longrightarrow> buf_at s c bn \<Longrightarrow> b = c"
  unfolding buf_at_def by (blast intro: inv_unique)

lemma held_upd:
  fixes s :: "'a bio_scheme" and e :: bool
  assumes inv: "bcache_inv s" and at: "buf_at s b bn" and d: "length d = BSIZE"
  defines "t \<equiv> upd_buf b (\<lambda>x. x\<lparr>b_data := d, b_dirty := e\<rparr>) s"
  shows "bio_frame s t" "buf_at t c cn = buf_at s c cn" "bview t = (bview s)(bn := d)"
    "bpinned t = (if e then insert bn (bpinned s) else bpinned s - {bn})" "bheld t = bheld s"
proof -
  note b = buf_atD [OF inv at]
  let ?y = "(bcache s b)\<lparr>b_data := d, b_dirty := e\<rparr>"
  have t: "t = upd_buf b (\<lambda>_. ?y) s" by (simp add: t_def upd_buf_def)
  have links: "next_of t = next_of s" "prev_of t = prev_of s"
    unfolding t_def by (simp_all add: upd_buf_links)
  have "buf_ok (disksize s) (memdisk s) ?y" using b d by (simp add: buf_ok_def)
  then have i: "bcache_inv t"
    unfolding t using inv links b by (intro bcache_inv_upd) (auto simp: t intro: inv_unique [OF inv])
  then show "bio_frame s t" by (simp add: bio_frame_def t)
  show "buf_at t c cn = buf_at s c cn"
    unfolding t using b(1,3,4) by (auto simp: buf_at_def is_cached_def)
  have y: "block_of ((bcache s b)\<lparr>b_data := d, b_dirty := e'\<rparr>) = {bn}" for e'
    using b by (simp add: block_of_def)
  show "bview t = (bview s)(bn := d)"
    using bview_upd [OF inv i [unfolded t] b(1)] by (auto simp: t y b)
  show "bpinned t = (if e then insert bn (bpinned s) else bpinned s - {bn})"
    using bpinned_upd [OF inv i [unfolded t] b(1)] by (auto simp: t y b)
  show "bheld t = bheld s"
    using bheld_upd [OF inv i [unfolded t] b(1)] b by (auto simp: t y)
qed

text \<open>The stores of the clients into \<open>b->data\<close>.\<close>

definition buf_store :: "nat \<Rightarrow> (uchar list \<Rightarrow> uchar list) \<Rightarrow> ('a bio_scheme, unit) kern" where
  "buf_store b f = kmod (upd_buf b (\<lambda>x. x\<lparr>b_data := f (b_data x)\<rparr>))"

lemma dirty_same: "b_dirty x = e \<Longrightarrow> x\<lparr>b_data := d, b_dirty := e\<rparr> = x\<lparr>b_data := d\<rparr>"
  by (cases x) simp

lemma buf_store_spec:
  assumes inv: "bcache_inv s" and at: "buf_at s b bn" and f: "length (f (bview s bn)) = BSIZE"
  obtains t where "buf_store b f s = Inr ((), t)" "bio_frame s t" "\<And>c cn. buf_at t c cn = buf_at s c cn"
    "bview t = (bview s)(bn := f (bview s bn))" "bpinned t = bpinned s" "bheld t = bheld s"
    "memdisk t = memdisk s" "disk_writes t = disk_writes s"
proof -
  let ?t = "upd_buf b (\<lambda>x. x\<lparr>b_data := f (bview s bn), b_dirty := bn \<in> bpinned s\<rparr>) s"
  note b = buf_atD [OF inv at] and u = held_upd [OF inv at f, where e = "bn \<in> bpinned s"]
  have "buf_store b f s = Inr ((), ?t)"
    using b(10,12) by (simp add: buf_store_def kmod_def upd_buf_def dirty_same)
  moreover have "(if bn \<in> bpinned s then insert bn (bpinned s) else bpinned s - {bn}) = bpinned s" by auto
  ultimately show thesis using u by (intro that [of ?t]) simp_all
qed

lemma bcache_inv_disk:
  assumes "bcache_inv s" and "buf_at s b bn" and "length d = BSIZE"
  shows "bcache_inv (s\<lparr>memdisk := (memdisk s)(bn := d), disk_writes := w\<rparr>)"
proof -
  let ?t = "s\<lparr>memdisk := (memdisk s)(bn := d), disk_writes := w\<rparr>"
  have c: "is_cached ?t = is_cached s" by (auto simp: is_cached_def fun_eq_iff)
  have "buf_ok (disksize s) (memdisk ?t) (bcache s c)" if "c < NBUF" for c
  proof (cases "c = b")
    case True
    then show ?thesis using inv_buf [OF assms(1) that] buf_atD(3,7) [OF assms(1,2)] by (simp add: buf_ok_def)
  next
    case False
    then have "bn \<notin> block_of (bcache s c)"
      using inv_unique [OF assms(1), of bn b c] buf_atD(2) [OF assms(1,2)] that
      by (auto simp: is_cached_block_of)
    then show ?thesis using inv_buf [OF assms(1) that] by (auto simp: buf_ok_def block_of_def split: if_splits)
  qed
  with assms show ?thesis
    by (auto simp: bcache_inv_def c lru_def next_of_def [abs_def] prev_of_def [abs_def])
qed

lemma view_disk_cong:
  assumes "bcache t = bcache s" and "curpid t = curpid s"
  shows "is_cached t = is_cached s" "bpinned t = bpinned s" "bheld t = bheld s" "buf_at t = buf_at s"
  using assms by (simp_all add: fun_eq_iff is_cached_def bpinned_def bheld_def buf_at_def)

lemma bview_disk_upd:
  assumes "is_cached s bn b"
  shows "bview (s\<lparr>memdisk := (memdisk s)(bn := d), disk_writes := w\<rparr>) = bview s"
proof
  fix m
  let ?t = "s\<lparr>memdisk := (memdisk s)(bn := d), disk_writes := w\<rparr>"
  have c: "is_cached ?t = is_cached s" by (rule view_disk_cong) simp_all
  show "bview ?t m = bview s m"
  proof (cases "find (is_cached s m) [0..<NBUF]")
    case None
    then have "m \<noteq> bn" using assms by (auto simp: find_None_iff is_cached_def)
    with None show ?thesis by (simp add: bview_def c)
  qed (simp add: bview_def c)
qed

lemma bwrite_spec:
  assumes inv: "bcache_inv s" and at: "buf_at s b bn"
  obtains t where "bwrite b s = Inr ((), t)" "bio_frame s t" "\<And>c cn. buf_at t c cn = buf_at s c cn"
    "bview t = bview s" "bpinned t = bpinned s - {bn}" "bheld t = bheld s"
    "memdisk t = (memdisk s)(bn := bview s bn)" "disk_writes t = disk_writes s @ [(bn, bview s bn)]"
proof -
  note b = buf_atD [OF inv at]
  let ?u = "upd_buf b (\<lambda>x. x\<lparr>b_data := bview s bn, b_dirty := False\<rparr>) s"
  let ?t = "?u\<lparr>memdisk := (memdisk s)(bn := bview s bn), disk_writes := disk_writes s @ [(bn, bview s bn)]\<rparr>"
  note u = held_upd [OF inv at b(14), where e = False]
  have iu: "bcache_inv ?u" using u(1) by (simp add: bio_frame_def)
  have au: "buf_at ?u b bn" using u(2) at by simp
  have eq: "(bcache s b)\<lparr>b_data := bview s bn, b_dirty := False\<rparr> =
    (bcache s b)\<lparr>b_dirty := False, b_valid := True\<rparr>"
    using b(5,10) by (cases "bcache s b") simp
  have "bwrite b s = Inr ((), ?t)"
    using b by (simp add: bwrite_def iderw_def kmonad_simps upd_buf_def eq) 
  moreover have i: "bcache_inv ?t" using bcache_inv_disk [OF iu au b(14)] by simp
  moreover have "bview ?t = bview s"
    using bview_disk_upd [of ?u bn b] b u(3) by (simp add: is_cached_def)
  ultimately show thesis
    using u by (intro that [of ?t]) (simp_all add: bio_frame_def view_disk_cong [of ?t ?u])
qed

lemma brelse_lru:
  assumes xs: "lru s xs" and b: "b < NBUF" and h: "holdingsleep (curpid s) (b_lock (bcache s b))"
    and r: "b_refcnt (bcache s b) = 1"
  obtains t where "brelse b s = Inr ((), t)" "lru t (b # remove1 b xs)"
    "relinked (upd_buf b (\<lambda>x. x\<lparr>b_lock := releasesleep (b_lock x), b_refcnt := 0\<rparr>) s) t"
proof -
  let ?u = "upd_buf b (\<lambda>x. x\<lparr>b_lock := releasesleep (b_lock x), b_refcnt := 0\<rparr>) s"
  let ?v = "set_next (prev_of s b) (next_of s b) (set_prev (next_of s b) (prev_of s b) ?u)"
  have lu: "next_of ?u = next_of s" "prev_of ?u = prev_of s" by (simp_all add: upd_buf_links)
  obtain us vs where sp: "xs = us @ b # vs" using xs b by (metis lru_set lessThan_iff split_list)
  have d: "dseg (next_of s) (prev_of s) bhead (us @ b # vs) bhead" "distinct (us @ b # vs)"
    "set xs = {..<NBUF}" using xs by (auto simp: lru_def sp)
  then have nh: "bhead \<notin> set (us @ b # vs)" by (simp add: sp [symmetric] bhead_def)
  have dv: "dseg (next_of ?v) (prev_of ?v) bhead (us @ vs) bhead"
    using dseg_unlink [OF d(1,2) nh nh] by (simp add: lu)
  have p: "b \<noteq> bhead" "b \<notin> set (us @ vs)" "bhead \<notin> set (us @ vs)" "distinct (us @ vs)"
    using d(2) nh by auto
  obtain t where t: "link_front b ?v = Inr ((), t)" "relinked ?v t"
    "dseg (next_of t) (prev_of t) bhead (b # us @ vs) bhead"
    by (rule link_front_spec [OF dv p])
  have ne: "next_of s b \<noteq> b"
    using dseg_first [of "next_of s" "prev_of s" b vs bhead] d nh by (auto simp: dseg_append) (metis hd_append hd_in_set list.sel(1))
  have w: "upd_buf b (\<lambda>x. x\<lparr>b_lock := releasesleep (b_lock x), b_refcnt := b_refcnt x - 1\<rparr>) s = ?u"
    using r by (simp add: upd_buf_def)
  have "brelse b s = Inr ((), t)"
    using h t(1) ne by (simp add: brelse_def kmonad_simps upd_buf_upd_buf w lu)
  moreover have "lru t (b # remove1 b xs)"
  proof -
    have r: "remove1 b xs = us @ vs" using d(2) by (simp add: sp remove1_append)
    have "set (b # us @ vs) = {..<NBUF}" using d(3) by (simp add: sp)
    then show ?thesis unfolding lru_def r by (intro conjI t(3)) (use d(2) in simp_all)
  qed
  moreover have "relinked ?u t" 
    by (rule relinked_trans [OF relinked_trans [OF relinked_set(2) relinked_set(1)] t(2)])
  ultimately show thesis by (rule that)
qed

lemma relinked_inv: "bcache_inv s \<Longrightarrow> relinked s t \<Longrightarrow> lru t ys \<Longrightarrow> bcache_inv t"
  by (auto simp: bcache_inv_def relinked_views)

lemma brelse_spec:
  assumes inv: "bcache_inv s" and at: "buf_at s b bn"
    and clean: "bn \<in> bpinned s \<or> bview s bn = memdisk s bn"
  obtains t where "brelse b s = Inr ((), t)" "bio_frame s t"
    "\<And>c cn. buf_at t c cn \<longleftrightarrow> c \<noteq> b \<and> buf_at s c cn"
    "bview t = bview s" "bpinned t = bpinned s" "bheld t = bheld s - {bn}"
    "memdisk t = memdisk s" "disk_writes t = disk_writes s"
proof -
  note b = buf_atD [OF inv at]
  obtain xs where xs: "lru s xs" using inv_lru [OF inv] ..
  let ?y = "(bcache s b)\<lparr>b_lock := releasesleep (b_lock (bcache s b)), b_refcnt := 0\<rparr>"
  let ?u = "upd_buf b (\<lambda>_. ?y) s"
  have ueq: "upd_buf b (\<lambda>x. x\<lparr>b_lock := releasesleep (b_lock x), b_refcnt := 0\<rparr>) s = ?u"
    by (simp add: upd_buf_def)
  obtain t where t: "brelse b s = Inr ((), t)" "lru t (b # remove1 b xs)" "relinked ?u t"
    using brelse_lru [OF xs b(1,8,9)] unfolding ueq by blast
  have "buf_ok (disksize s) (memdisk s) ?y"
    using b clean by (auto simp: buf_ok_def releasesleep_def)
  moreover have "next_of ?u = next_of s" "prev_of ?u = prev_of s"
    by (auto simp: next_of_def prev_of_def fun_eq_iff)
  ultimately have iu: "bcache_inv ?u"
    using inv b by (intro bcache_inv_upd) (auto intro: inv_unique [OF inv])
  have y: "block_of ?y = {bn}" using b by (simp add: block_of_def)
  have bv: "bview ?u = bview s" using bview_upd [OF inv iu b(1)] b by (auto simp: y)
  have bp: "bpinned ?u = bpinned s" using bpinned_upd [OF inv iu b(1)] b by (auto simp: y)
  have bh: "bheld ?u = bheld s - {bn}"
    using bheld_upd [OF inv iu b(1)] b by (simp add: y releasesleep_def)
  have ba: "buf_at ?u c cn \<longleftrightarrow> c \<noteq> b \<and> buf_at s c cn" for c cn
    by (auto simp: buf_at_def is_cached_def holdingsleep_def releasesleep_def)
  show thesis
    using t(1) relinked_inv [OF iu t(3,2)] bv bp bh ba
    by (intro that [of t]) (simp_all add: bio_frame_def relinked_views [OF t(3)])
qed

subsection \<open>binit\<close>

definition init_bufs :: "nat \<Rightarrow> 'a bio_scheme \<Rightarrow> 'a bio_scheme" where
  "init_bufs n s = s\<lparr>bcache := (\<lambda>b. if b < n
     then (bcache s b)\<lparr>b_lock := initsleeplock ''buffer'' (b_lock (bcache s b))\<rparr> else bcache s b)\<rparr>"

lemma relinked_lock:
  assumes "relinked (init_bufs n s) t"
  shows "relinked (init_bufs (Suc n) s)
    (upd_buf n (\<lambda>x. x\<lparr>b_lock := initsleeplock ''buffer'' (b_lock x)\<rparr>) t)"
proof -
  have c: "strip (bcache t b) = strip (bcache (init_bufs n s) b)" for b
    using assms by (simp add: relinked_def)
  obtain bc where "t = (init_bufs n s)\<lparr>bcache := bc\<rparr>" using assms by (metis relinked_def)
  then show ?thesis using c
    by (auto simp: relinked_def init_bufs_def upd_buf_def strip_eq)
qed

lemma binit_loop:
  assumes "dseg (next_of s) (prev_of s) bhead [] bhead" and "n \<le> NBUF"
  shows "\<exists>t. kfor [0..<n] (\<lambda>b. kthen (kmod (upd_buf b
      (\<lambda>x. x\<lparr>b_lock := initsleeplock ''buffer'' (b_lock x)\<rparr>))) (link_front b)) s = Inr ((), t) \<and>
    relinked (init_bufs n s) t \<and> dseg (next_of t) (prev_of t) bhead (rev [0..<n]) bhead"
  using assms(2)
proof (induction n)
  case 0
  have "init_bufs 0 s = s" by (simp add: init_bufs_def)
  with assms(1) show ?case by (simp add: kret_def relinked_refl)
next
  case (Suc n)
  let ?body = "\<lambda>b. kthen (kmod (upd_buf b
      (\<lambda>x. x\<lparr>b_lock := initsleeplock ''buffer'' (b_lock x)\<rparr>))) (link_front b)"
  obtain t where t: "kfor [0..<n] ?body s = Inr ((), t)" "relinked (init_bufs n s) t"
    "dseg (next_of t) (prev_of t) bhead (rev [0..<n]) bhead" using Suc by auto
  let ?u = "upd_buf n (\<lambda>x. x\<lparr>b_lock := initsleeplock ''buffer'' (b_lock x)\<rparr>) t"
  have du: "dseg (next_of ?u) (prev_of ?u) bhead (rev [0..<n]) bhead"
    using t(3) by (simp add: upd_buf_links)
  have p: "n \<noteq> bhead" "n \<notin> set (rev [0..<n])" "bhead \<notin> set (rev [0..<n])" "distinct (rev [0..<n])"
    using Suc.prems by (auto simp: bhead_def)
  obtain v where v: "link_front n ?u = Inr ((), v)" "relinked ?u v"
    "dseg (next_of v) (prev_of v) bhead (n # rev [0..<n]) bhead"
    by (rule link_front_spec [OF du p])
  have "kfor [0..<Suc n] ?body s = Inr ((), v)"
    using t(1) v(1) by (simp add: kfor_append kmonad_simps)
  with relinked_trans [OF relinked_lock [OF t(2)] v(2)] v(3) show ?case by (intro exI [of _ v]) simp
qed

text \<open>The state of the zero-initialised \<open>bcache\<close> at start-up.\<close>

definition bio_boot :: "'a bio_scheme \<Rightarrow> bool" where
  "bio_boot s \<longleftrightarrow> (\<forall>b < NBUF. b_dev (bcache s b) = 0 \<and> \<not> b_valid (bcache s b) \<and>
       \<not> b_dirty (bcache s b) \<and> b_refcnt (bcache s b) = 0) \<and>
     (\<forall>bn < disksize s. length (memdisk s bn) = BSIZE)"

lemma binit_spec:
  assumes "bio_boot s"
  obtains t where "binit s = Inr ((), t)" "bio_frame s t" "lru t (rev [0..<NBUF])"
    "bview t = memdisk s" "bpinned t = {}" "bheld t = {}" "memdisk t = memdisk s"
    "disk_writes t = disk_writes s"
proof -
  let ?s = "set_next bhead bhead (set_prev bhead bhead (s\<lparr>bcache_lock := init_lock ''bcache'' (bcache_lock s)\<rparr>))"
  let ?u = "init_bufs NBUF ?s"
  obtain t where t: "kfor [0..<NBUF] (\<lambda>b. kthen (kmod (upd_buf b
      (\<lambda>x. x\<lparr>b_lock := initsleeplock ''buffer'' (b_lock x)\<rparr>))) (link_front b)) ?s = Inr ((), t)"
    "relinked ?u t" "dseg (next_of t) (prev_of t) bhead (rev [0..<NBUF]) bhead"
    using binit_loop [of ?s NBUF] by auto
  have r: "binit s = Inr ((), t)" using t(1) by (simp add: binit_def kmonad_simps)
  have l: "lru t (rev [0..<NBUF])" using t(3) by (auto simp: lru_def)
  have z: "b_dev (bcache ?u b) = 0" "\<not> b_valid (bcache ?u b)" "\<not> b_dirty (bcache ?u b)"
    "b_refcnt (bcache ?u b) = 0" "\<not> slocked (b_lock (bcache ?u b))" if "b < NBUF" for b
    using assms that
    by (auto simp: bio_boot_def init_bufs_def set_next_def set_prev_def initsleeplock_def bhead_def)
  have d: "memdisk ?u = memdisk s" "disksize ?u = disksize s" "disk_writes ?u = disk_writes s"
    "bio.more ?u = bio.more s" "curpid ?u = curpid s"
    by (simp_all add: init_bufs_def set_next_def set_prev_def)
  have nc: "\<not> is_cached ?u bn b" for bn b using z(1) [of b] by (auto simp: is_cached_def)
  have "bcache_inv t"
    unfolding bcache_inv_def relinked_views [OF t(2)] d using l nc z assms
    by (auto simp: buf_ok_def bio_boot_def)
  moreover have "bview ?u = memdisk s" using bview_uncached [OF nc] d by auto
  moreover have "bpinned ?u = {}" "bheld ?u = {}" using nc by (auto simp: bpinned_def bheld_def)
  ultimately show thesis using r l
    by (intro that [of t]) (simp_all add: bio_frame_def relinked_views [OF t(2)] d)
qed

lemma binit_fresh:
  assumes boot: "bio_boot s" and r: "binit s = Inr ((), t)" and b: "b < NBUF"
  shows "b_refcnt (bcache t b) = 0" "b_dev (bcache t b) = 0" "\<not> b_dirty (bcache t b)"
proof -
  let ?s = "set_next bhead bhead (set_prev bhead bhead (s\<lparr>bcache_lock := init_lock ''bcache'' (bcache_lock s)\<rparr>))"
  obtain u where u: "kfor [0..<NBUF] (\<lambda>b. kthen (kmod (upd_buf b
      (\<lambda>x. x\<lparr>b_lock := initsleeplock ''buffer'' (b_lock x)\<rparr>))) (link_front b)) ?s = Inr ((), u)"
    "relinked (init_bufs NBUF ?s) u"
    using binit_loop [of ?s NBUF] by auto
  have "u = t" using r u(1) by (simp add: binit_def kmonad_simps)
  then have "strip (bcache t b) = strip (bcache (init_bufs NBUF ?s) b)" using u(2) by (simp add: relinked_def)
  then show "b_refcnt (bcache t b) = 0" "b_dev (bcache t b) = 0" "\<not> b_dirty (bcache t b)"
    using boot b by (auto simp: strip_eq bio_boot_def init_bufs_def set_next_def set_prev_def bhead_def)
qed

lemma pin_spec:
  fixes s :: "'a bio_scheme"
  assumes inv: "bcache_inv s" and at: "buf_at s b bn"
  defines "t \<equiv> upd_buf b (\<lambda>x. x\<lparr>b_dirty := True\<rparr>) s"
  shows "bio_frame s t" "buf_at t c cn = buf_at s c cn" "bview t = bview s"
    "bpinned t = insert bn (bpinned s)" "bheld t = bheld s"
proof -
  note b = buf_atD [OF inv at]
  have e: "x\<lparr>b_data := d, b_dirty := True\<rparr> = x\<lparr>b_dirty := True\<rparr>" if "b_data x = d" for x :: buf and d
    using that by (cases x) simp
  have "t = upd_buf b (\<lambda>x. x\<lparr>b_data := bview s bn, b_dirty := True\<rparr>) s"
    by (simp add: t_def upd_buf_def e [OF b(10)])
  then show "bio_frame s t" "buf_at t c cn = buf_at s c cn" "bview t = bview s"
    "bpinned t = insert bn (bpinned s)" "bheld t = bheld s"
    using held_upd [OF inv at b(14), of True] by simp_all
qed

subsection \<open>Interleavings of the cache operations\<close>

text \<open>
  Any number of processes use the cache: \<open>bio_run\<close> switches the running process, the other steps
  are the operations of \<open>bio.c\<close>, a client's store into a buffer it holds, and the pinning that
  \<open>log_write\<close> does.  Clients release a buffer pinned or unmodified.
\<close>

inductive bio_step :: "'a bio_scheme \<Rightarrow> 'a bio_scheme \<Rightarrow> bool" where
  bio_run: "bio_step s (s\<lparr>curproc := p\<rparr>)"
| bio_read: "bread 1 bn s = Inr (b, t) \<Longrightarrow> bio_step s t"
| bio_store: "buf_at s b bn \<Longrightarrow> length (f (b_data (bcache s b))) = BSIZE \<Longrightarrow>
    buf_store b f s = Inr ((), t) \<Longrightarrow> bio_step s t"
| bio_pin: "buf_at s b bn \<Longrightarrow> bio_step s (upd_buf b (\<lambda>x. x\<lparr>b_dirty := True\<rparr>) s)"
| bio_write: "b < NBUF \<Longrightarrow> bwrite b s = Inr ((), t) \<Longrightarrow> bio_step s t"
| bio_relse: "b < NBUF \<Longrightarrow> brelse b s = Inr ((), t) \<Longrightarrow>
    b_dirty (bcache s b) \<or> b_data (bcache s b) = memdisk s (b_blockno (bcache s b)) \<Longrightarrow> bio_step s t"

definition bio_init :: "'a bio_scheme \<Rightarrow> bool" where
  "bio_init s \<longleftrightarrow> (\<exists>s0. bio_boot s0 \<and> binit s0 = Inr ((), s))"

lemma bcache_inv_cong:
  assumes "bcache t = bcache s" "memdisk t = memdisk s" "disksize t = disksize s"
  shows "bcache_inv t = bcache_inv s"
proof -
  have c: "is_cached t = is_cached s" "next_of t = next_of s" "prev_of t = prev_of s"
    by (simp_all add: fun_eq_iff is_cached_def next_of_def prev_of_def assms)
  show ?thesis unfolding bcache_inv_def lru_def c assms by (rule refl)
qed

lemma bread_returnsD:
  assumes inv: "bcache_inv s" and r: "bread 1 bn s = Inr (b, t)"
  shows "bn < disksize s" "bn \<notin> bheld s" "(\<exists>b. is_cached s bn b) \<or>
      (\<exists>b < NBUF. b_refcnt (bcache s b) = 0 \<and> \<not> b_dirty (bcache s b))"
proof -
  obtain xs where xs: "lru s xs" using inv_lru [OF inv] ..
  let ?P = "\<lambda>b. b_dev (bcache s b) = Suc 0 \<and> b_blockno (bcache s b) = bn"
  let ?Q = "\<lambda>b. b_refcnt (bcache s b) = 0 \<and> \<not> b_dirty (bcache s b)"
  have "bn < disksize s \<and> bn \<notin> bheld s \<and> ((\<exists>b. is_cached s bn b) \<or> (\<exists>b < NBUF. ?Q b))"
  proof (cases "find ?P xs")
    case (Some c)
    then have c: "is_cached s bn c" using find_SomeD [OF Some] by (auto simp: lru_set [OF xs] is_cached_def)
    have "\<not> slocked (b_lock (bcache s c))"
      using r by (auto simp: bread_def bget_def lru_scan [OF xs] Some buf_acquiresleep_def acquiresleep_def
          kbind_def kthen_def kmod_def split: if_splits)
    moreover have "d = c" if "is_cached s bn d" for d using inv_unique [OF inv that c] .
    ultimately have "bn \<notin> bheld s" unfolding bheld_def by auto
    moreover have "bn < disksize s"
      using inv_buf [OF inv, of c] c by (auto simp: is_cached_def buf_ok_def)
    ultimately show ?thesis using c by auto
  next
    case None
    then have nc: "\<not> is_cached s bn d" for d
      by (auto simp: find_None_iff lru_set [OF xs] is_cached_def)
    obtain c where c: "find ?Q (rev xs) = Some c"
      using r by (cases "find ?Q (rev xs)") (auto simp: bread_def bget_def lru_scan [OF xs] None kbind_def)
    have q: "c < NBUF" "?Q c" using find_SomeD [OF c] by (auto simp: lru_set [OF xs])
    have "\<not> slocked (b_lock (bcache s c))" using inv_buf [OF inv q(1)] q(2) by (auto simp: buf_ok_def)
    then have "bn < disksize s"
      using r by (auto simp: bread_def bget_def lru_scan [OF xs] None c buf_acquiresleep_def acquiresleep_def
          iderw_def kbind_def kthen_def kmod_def kget_def kpanic_def kret_def holdingsleep_def split: if_splits)
    then show ?thesis using q nc by (auto simp: bheld_def)
  qed
  then show "bn < disksize s" "bn \<notin> bheld s" "(\<exists>b. is_cached s bn b) \<or>
      (\<exists>b < NBUF. b_refcnt (bcache s b) = 0 \<and> \<not> b_dirty (bcache s b))" by auto
qed

lemma holding_buf_at:
  assumes "bcache_inv s" and "b < NBUF" and "holdingsleep (curpid s) (b_lock (bcache s b))"
  shows "buf_at s b (b_blockno (bcache s b))"
  using inv_buf [OF assms(1,2)] assms(2,3)
  by (auto simp: buf_at_def is_cached_def holdingsleep_def buf_ok_def split: if_splits)

lemma bio_step_inv: "bio_step s t \<Longrightarrow> bcache_inv s \<Longrightarrow> bcache_inv t"
proof (induction rule: bio_step.induct)
  case (bio_run s p)
  then show ?case using bcache_inv_cong [of "s\<lparr>curproc := p\<rparr>" s] by simp
next
  case (bio_read bn s b t)
  note d = bread_returnsD [OF bio_read(2,1)]
  obtain c u where "bread 1 bn s = Inr (c, u)" "bio_frame s u"
    using bread_spec_free [OF bio_read(2) d] by metis
  with bio_read(1) show ?case by (simp add: bio_frame_def)
next
  case (bio_store s b bn f t)
  have "length (f (bview s bn)) = BSIZE" using bio_store buf_atD(10) by metis
  then obtain u where "buf_store b f s = Inr ((), u)" "bio_frame s u"
    using buf_store_spec [OF bio_store(4,1)] by metis
  with bio_store(3) show ?case by (simp add: bio_frame_def)
next
  case (bio_pin s b bn)
  then show ?case using pin_spec(1) by (auto simp: bio_frame_def)
next
  case (bio_write b s t)
  then have "holdingsleep (curpid s) (b_lock (bcache s b))"
    by (auto simp: bwrite_def kbind_def kget_def kpanic_def split: if_splits)
  then have "buf_at s b (b_blockno (bcache s b))" using bio_write holding_buf_at by blast
  with bio_write(3) obtain u where "bwrite b s = Inr ((), u)" "bio_frame s u"
    using bwrite_spec by metis
  with bio_write(2) show ?case by (simp add: bio_frame_def)
next
  case (bio_relse b s t)
  then have "holdingsleep (curpid s) (b_lock (bcache s b))"
    by (auto simp: brelse_def kbind_def kget_def kpanic_def split: if_splits)
  then have at: "buf_at s b (b_blockno (bcache s b))" using bio_relse holding_buf_at by blast
  with bio_relse(3,4) buf_atD(10,12) [OF _ at] obtain u where "brelse b s = Inr ((), u)" "bio_frame s u"
    using brelse_spec [OF _ at] by metis
  with bio_relse(2) show ?case by (simp add: bio_frame_def)
qed

lemma bio_init_inv: "bio_init s \<Longrightarrow> bcache_inv s"
  unfolding bio_init_def bio_frame_def [symmetric] using binit_spec
  by (metis Inr_inject bio_frame_def prod.inject)

interpretation bio_sys: step_invariant bio_init bio_step bcache_inv
  by unfold_locales (auto intro: bio_init_inv bio_step_inv)

subsection \<open>The contract with the clients\<close>

text \<open>
  What the log and the file system rely on: reading a block gives the buffer of that block with its
  current contents, and giving it back unmodified changes nothing a client can see.
\<close>

locale block_cache =
  fixes inv :: "'s \<Rightarrow> bool" and frame :: "'s \<Rightarrow> 's \<Rightarrow> bool" and may_read :: "'s \<Rightarrow> nat \<Rightarrow> bool"
    and rd :: "nat \<Rightarrow> ('s, nat) kern" and rel :: "nat \<Rightarrow> ('s, unit) kern"
    and data :: "'s \<Rightarrow> nat \<Rightarrow> uchar list" and at :: "'s \<Rightarrow> nat \<Rightarrow> nat \<Rightarrow> bool"
    and view :: "'s \<Rightarrow> nat \<Rightarrow> uchar list" and pinned :: "'s \<Rightarrow> nat set" and held :: "'s \<Rightarrow> nat set"
    and disk :: "'s \<Rightarrow> (nat \<Rightarrow> uchar list) \<times> (nat \<times> uchar list) list"
  assumes rd_law: "inv s \<Longrightarrow> may_read s bn \<Longrightarrow> \<exists>b t. rd bn s = Inr (b, t) \<and> frame s t \<and> at t b bn \<and>
      data t b = view s bn \<and> view t = view s \<and> pinned t = pinned s \<and> bn \<notin> held s \<and>
      held t = insert bn (held s) \<and> (\<forall>c cn. at s c cn \<longrightarrow> c \<noteq> b \<and> at t c cn) \<and> disk t = disk s"
    and rel_law: "inv s \<Longrightarrow> at s b bn \<Longrightarrow> bn \<in> pinned s \<or> view s bn = fst (disk s) bn \<Longrightarrow>
      \<exists>t. rel b s = Inr ((), t) \<and> frame s t \<and> view t = view s \<and> pinned t = pinned s \<and>
      held t = held s - {bn} \<and> (\<forall>c cn. c \<noteq> b \<longrightarrow> at s c cn \<longrightarrow> at t c cn) \<and> disk t = disk s"
    and frame_inv: "frame s t \<Longrightarrow> inv t" and frame_trans: "frame s t \<Longrightarrow> frame t u \<Longrightarrow> frame s u"
    and clean: "inv s \<Longrightarrow> bn \<notin> held s \<Longrightarrow> bn \<notin> pinned s \<Longrightarrow> view s bn = fst (disk s) bn"
begin

text \<open>Reading a block: \<open>b = bread(dev, bn)\<close>, a computation on \<open>b->data\<close>, \<open>brelse(b)\<close>.\<close>

lemma peek:
  assumes "inv s" and "may_read s bn"
  obtains t where "kbind (rd bn) (\<lambda>b. kbind (kget (\<lambda>s. f (data s b))) (\<lambda>x. kthen (rel b) (kret x))) s =
      Inr (f (view s bn), t)" "frame s t" "view t = view s" "pinned t = pinned s" "held t = held s"
    "\<And>c cn. at s c cn \<Longrightarrow> at t c cn" "disk t = disk s"
proof -
  obtain b t where t: "rd bn s = Inr (b, t)" "frame s t" "at t b bn" "data t b = view s bn"
    "view t = view s" "pinned t = pinned s" "bn \<notin> held s" "held t = insert bn (held s)"
    "\<And>c cn. at s c cn \<Longrightarrow> c \<noteq> b \<and> at t c cn" "disk t = disk s"
    using rd_law [OF assms] by metis
  have "bn \<in> pinned t \<or> view t bn = fst (disk t) bn"
    using clean [OF assms(1) t(7)] t(5,6,10) by auto
  then obtain u where u: "rel b t = Inr ((), u)" "frame t u" "view u = view t" "pinned u = pinned t"
    "held u = held t - {bn}" "\<And>c cn. c \<noteq> b \<Longrightarrow> at t c cn \<Longrightarrow> at u c cn" "disk u = disk t"
    using rel_law [OF frame_inv [OF t(2)] t(3)] by metis
  show thesis
    using t u frame_trans [OF t(2) u(2)] by (intro that [of u]) (auto simp: kmonad_simps)
qed

end

text \<open>The condition under which \<open>bread\<close> neither sleeps nor panics.\<close>

definition may_read :: "'a bio_scheme \<Rightarrow> nat \<Rightarrow> bool" where
  "may_read s bn \<longleftrightarrow> bn < disksize s \<and> bn \<notin> bheld s \<and>
     card (insert bn (bpinned s \<union> bheld s)) \<le> NBUF"

lemma bread_law:
  assumes "bcache_inv s" and "may_read s bn"
  shows "\<exists>b t. bread 1 bn s = Inr (b, t) \<and> bio_frame s t \<and> buf_at t b bn \<and>
    b_data (bcache t b) = bview s bn \<and> bview t = bview s \<and> bpinned t = bpinned s \<and> bn \<notin> bheld s \<and>
    bheld t = insert bn (bheld s) \<and> (\<forall>c cn. buf_at s c cn \<longrightarrow> c \<noteq> b \<and> buf_at t c cn) \<and>
    (memdisk t, disk_writes t) = (memdisk s, disk_writes s)"
proof -
  have m: "bn < disksize s" "bn \<notin> bheld s" "card (insert bn (bpinned s \<union> bheld s)) \<le> NBUF"
    using assms(2) by (simp_all add: may_read_def)
  obtain b t where t: "bread 1 bn s = Inr (b, t)" "bio_frame s t" "buf_at t b bn"
    "bview t = bview s" "bpinned t = bpinned s" "bheld t = insert bn (bheld s)"
    "\<And>c cn. buf_at s c cn \<Longrightarrow> buf_at t c cn" "memdisk t = memdisk s" "disk_writes t = disk_writes s"
    using bread_spec [OF assms(1) m] by blast
  have i: "bcache_inv t" using t(2) by (simp add: bio_frame_def)
  have "c \<noteq> b" if "buf_at s c cn" for c cn
  proof
    assume "c = b"
    then have "cn = bn" using t(3) t(7) [OF that] by (simp add: buf_at_def is_cached_def)
    with buf_atD(11) [OF assms(1) that] m(2) show False by simp
  qed
  with t m buf_atD(10) [OF i t(3)] show ?thesis by (intro exI [of _ b] exI [of _ t]) simp
qed

lemma brelse_law:
  assumes "bcache_inv s" and "buf_at s b bn" and "bn \<in> bpinned s \<or> bview s bn = memdisk s bn"
  shows "\<exists>t. brelse b s = Inr ((), t) \<and> bio_frame s t \<and> bview t = bview s \<and> bpinned t = bpinned s \<and>
    bheld t = bheld s - {bn} \<and> (\<forall>c cn. c \<noteq> b \<longrightarrow> buf_at s c cn \<longrightarrow> buf_at t c cn) \<and>
    (memdisk t, disk_writes t) = (memdisk s, disk_writes s)"
  using brelse_spec [OF assms] by (metis (no_types, lifting))

lemma bio_frame_trans: "bio_frame s t \<Longrightarrow> bio_frame t u \<Longrightarrow> bio_frame s u"
  by (simp add: bio_frame_def)

interpretation bio: block_cache bcache_inv bio_frame may_read "bread 1" brelse
  "\<lambda>s b. b_data (bcache s b)" buf_at bview bpinned bheld "\<lambda>s. (memdisk s, disk_writes s)"
proof (unfold_locales, goal_cases)
  case (1 s bn)
  then show ?case by (rule bread_law)
next
  case (2 s b bn)
  then show ?case by (intro brelse_law) simp_all
next
  case (4 s t u)
  then show ?case by (rule bio_frame_trans)
qed (simp_all add: bio_frame_def bview_disk)

section \<open>Properties\<close>


text \<open>A boot state whose disk has four zeroed blocks.\<close>

definition bio_ex :: bio where
  "bio_ex = ktab.extend (tab_ex (boot_table(0 := proc_ex RUNNING 7 None)))
    \<lparr>bcache_lock = \<lparr>locked = False, lkname = [], lkcpu = None, pcs = []\<rparr>,
     bcache = (\<lambda>_. \<lparr>b_valid = False, b_dirty = False, b_dev = 0, b_blockno = 0,
       b_lock = \<lparr>slocked = False, slk = \<lparr>locked = False, lkname = [], lkcpu = None, pcs = []\<rparr>,
         slname = [], slpid = 0\<rparr>,
       b_refcnt = 0, b_prev = 0, b_next = 0, b_data = []\<rparr>),
     memdisk = (\<lambda>_. replicate 512 0), disksize = 4, disk_writes = []\<rparr>"

lemmas bio_ex_simps = bio_ex_def ktab.defs tab_ex_def boot_table_def proc_ex_def

lemma bio_ex_boot: "bio_boot bio_ex"
  by (simp add: bio_boot_def bio_ex_simps BSIZE_def)


text \<open>C9. \<open>bread\<close> is total and exact: whenever block \<open>bn\<close> is on the disk, nobody holds its buffer, and
  it fits with the pinned and held blocks into the \<open>NBUF\<close> buffers, \<open>bread\<close> returns (no panic, no
  sleep, no endless walk) a buffer locked by the caller that holds the current contents of the
  block, and no block changes as seen through the cache.\<close>

theorem bread_correct:
  assumes "bcache_inv s" and "bn < disksize s" and "bn \<notin> bheld s"
    and "card (insert bn (bpinned s \<union> bheld s)) \<le> NBUF"
  shows "\<exists>b t. bread 1 bn s = Inr (b, t) \<and> bcache_inv t \<and> b < NBUF \<and> b_blockno (bcache t b) = bn \<and>
    holdingsleep (curpid s) (b_lock (bcache t b)) \<and> b_data (bcache t b) = bview s bn \<and>
    bview t = bview s \<and> memdisk t = memdisk s \<and> bheld t = insert bn (bheld s)"
proof -
  obtain b t where t: "bread 1 bn s = Inr (b, t)" "bio_frame s t" "buf_at t b bn"
    "bview t = bview s" "bheld t = insert bn (bheld s)" "memdisk t = memdisk s"
    using bread_spec [OF assms] by metis
  then have i: "bcache_inv t" "curpid t = curpid s" by (auto simp: bio_frame_def)
  show ?thesis using t i buf_atD(1,4,8,10) [OF i(1) t(3)] by (intro exI [of _ b] exI [of _ t]) simp
qed

theorem bread_correct_witness:
  "\<exists>(s :: bio) b t. bread 1 3 s = Inr (b, t) \<and> b_data (bcache t b) = replicate 512 0 \<and> bheld t = {3}"
proof -
  obtain s where s: "bio_frame bio_ex s" "bpinned s = {}" "bheld s = {}" "bview s = memdisk bio_ex"
    using binit_spec [OF bio_ex_boot] by metis
  then have "bcache_inv s" "disksize s = 4" by (auto simp: bio_frame_def bio_ex_simps)
  then show ?thesis using bread_correct [of s 3] s by (auto simp: NBUF_def bio_ex_simps)
qed

text \<open>C10. Replacement is least-recently-used: a miss recycles the free clean buffer nearest to the
  old end of the list, and the buffer is moved to the front when it is released.\<close>

theorem bread_brelse_lru:
  assumes "bcache_inv s" and "lru s (us @ b # vs)" and "bn < disksize s"
    and "\<forall>c < NBUF. \<not> (b_dev (bcache s c) = 1 \<and> b_blockno (bcache s c) = bn)"
    and "b_refcnt (bcache s b) = 0" and "\<not> b_dirty (bcache s b)"
    and "\<forall>c \<in> set vs. b_refcnt (bcache s c) \<noteq> 0 \<or> b_dirty (bcache s c)"
  shows "\<exists>t u. bread 1 bn s = Inr (b, t) \<and> lru t (us @ b # vs) \<and>
    brelse b t = Inr ((), u) \<and> lru u (b # us @ vs)"
proof -
  have nc: "\<not> is_cached s bn c" for c using assms(4) by (auto simp: is_cached_def)
  have "find (\<lambda>b. b_refcnt (bcache s b) = 0 \<and> \<not> b_dirty (bcache s b)) (rev vs @ b # rev us) = Some b"
    if "\<forall>c \<in> set vs. b_refcnt (bcache s c) \<noteq> 0 \<or> b_dirty (bcache s c)"
    using that assms(5,6) by (induction vs rule: rev_induct) auto
  then have f: "find (\<lambda>b. b_refcnt (bcache s b) = 0 \<and> \<not> b_dirty (bcache s b)) (rev (us @ b # vs)) = Some b"
    using assms(7) by simp
  let ?t = "upd_buf b (\<lambda>_. miss_buf s b bn) s"
  have r: "bread 1 bn s = Inr (b, ?t)" by (rule bread_miss [OF assms(1,3) nc assms(2) f])
  have "next_of ?t = next_of s" "prev_of ?t = prev_of s"
    by (auto simp: next_of_def prev_of_def miss_buf_def fun_eq_iff)
  then have l: "lru ?t (us @ b # vs)" by (rule iffD2 [OF lru_cong assms(2)])
  have "b \<in> {..<NBUF}" unfolding lru_set [OF assms(2), symmetric] by simp
  then have "b < NBUF" by simp
  moreover have "holdingsleep (curpid ?t) (b_lock (bcache ?t b))" "b_refcnt (bcache ?t b) = 1"
    by (simp_all add: miss_buf_def holdingsleep_def)
  ultimately obtain u where "brelse b ?t = Inr ((), u)" "lru u (b # remove1 b (us @ b # vs))"
    using brelse_lru [OF l] by blast
  moreover have "remove1 b (us @ b # vs) = us @ vs"
    using assms(2) by (simp add: lru_def remove1_append)
  ultimately show ?thesis using r l by auto
qed

theorem bread_brelse_lru_witness:
  "\<exists>(s :: bio) t u. bread 1 3 s = Inr (0, t) \<and> brelse 0 t = Inr ((), u) \<and> lru u (0 # rev [1..<NBUF])"
proof -
  obtain s where s: "binit bio_ex = Inr ((), s)" "bio_frame bio_ex s" "bpinned s = {}" "bheld s = {}"
    "lru s (rev [0..<NBUF])" using binit_spec [OF bio_ex_boot] by metis
  have inv: "bcache_inv s" "disksize s = 4" using s(2) by (auto simp: bio_frame_def bio_ex_simps)
  have z: "b_refcnt (bcache s c) = 0 \<and> b_dev (bcache s c) \<noteq> 1 \<and> \<not> b_dirty (bcache s c)" if "c < NBUF" for c
    using that binit_fresh [OF bio_ex_boot s(1)] by simp
  have "rev [0..<NBUF] = rev [1..<NBUF] @ 0 # []" by (simp add: NBUF_def upt_rec)
  then have "lru s (rev [1..<NBUF] @ 0 # [])" using s(5) by simp
  from bread_brelse_lru [OF inv(1) this, of 3] z inv(2) show ?thesis by (auto simp: NBUF_def)
qed

end
