(* ===== verification/Layout.thy ===== *)
theory Layout
  imports Prelude
begin

text \<open>
  Little-endian fields of disk blocks.  The C code lays a \<open>struct\<close> over \<open>b->data\<close>; here a field
  is read and written with its byte offset in the block, a list of bytes.
\<close>

section \<open>Definitions\<close>

definition get16 :: "uchar list \<Rightarrow> nat \<Rightarrow> ushort" where
  "get16 d off = of_nat (unat (d ! off) + 256 * unat (d ! (off + 1)))"

definition put16 :: "uchar list \<Rightarrow> nat \<Rightarrow> ushort \<Rightarrow> uchar list" where
  "put16 d off w = d[off := of_nat (unat w mod 256), off + 1 := of_nat (unat w div 256)]"

definition get32 :: "uchar list \<Rightarrow> nat \<Rightarrow> uint" where
  "get32 d off = of_nat (unat (d ! off) + 256 * unat (d ! (off + 1)) + 65536 * unat (d ! (off + 2)) +
     16777216 * unat (d ! (off + 3)))"

definition put32 :: "uchar list \<Rightarrow> nat \<Rightarrow> uint \<Rightarrow> uchar list" where
  "put32 d off w = d[off := of_nat (unat w mod 256), off + 1 := of_nat (unat w div 256),
     off + 2 := of_nat (unat w div 65536), off + 3 := of_nat (unat w div 16777216)]"

text \<open>Replacing and reading a run of bytes.\<close>

definition put_bytes :: "uchar list \<Rightarrow> nat \<Rightarrow> uchar list \<Rightarrow> uchar list" where
  "put_bytes d off bs = take off d @ bs @ drop (off + length bs) d"

definition get_bytes :: "uchar list \<Rightarrow> nat \<Rightarrow> nat \<Rightarrow> uchar list" where
  "get_bytes d off n = take n (drop off d)"

section \<open>Lemmas\<close>

lemma length_put16 [simp]: "length (put16 d off w) = length d"
  by (simp add: put16_def)

lemma length_put32 [simp]: "length (put32 d off w) = length d"
  by (simp add: put32_def)

lemma length_put_bytes [simp]:
  "off + length bs \<le> length d \<Longrightarrow> length (put_bytes d off bs) = length d"
  by (simp add: put_bytes_def)

lemma bytes16: "x < 65536 \<Longrightarrow> x mod 256 + 256 * (x div 256 mod 256) = (x :: nat)"
  using mult_div_mod_eq [of 256 x] by (simp add: div_less_iff_less_mult)

lemma bytes32:
  assumes "x < (4294967296 :: nat)"
  shows "x mod 256 + 256 * (x div 256 mod 256) + 65536 * (x div 65536 mod 256) +
    16777216 * (x div 16777216 mod 256) = x"
proof -
  have d: "x div 65536 = x div 256 div 256" "x div 16777216 = x div 256 div 256 div 256"
    by (simp_all add: div_mult2_eq [symmetric])
  have "x div 256 div 256 div 256 mod 256 = x div 256 div 256 div 256"
    using assms unfolding d(2) [symmetric] by (intro mod_less) (simp add: div_less_iff_less_mult)
  then show ?thesis
    unfolding d using mult_div_mod_eq [of 256 x] mult_div_mod_eq [of 256 "x div 256"]
      mult_div_mod_eq [of 256 "x div 256 div 256"] by linarith
qed

lemma get16_put16 [simp]:
  assumes "off + 1 < length d" shows "get16 (put16 d off w) off = w"
proof -
  have e: "unat w mod 256 + 256 * (unat w div 256 mod 256) = unat w"
    using unsigned_less [of w] by (intro bytes16) simp
  have "get16 (put16 d off w) off = of_nat (unat w mod 256 + 256 * (unat w div 256 mod 256))"
    using assms by (simp add: get16_def put16_def unat_of_nat)
  then show ?thesis unfolding e by simp
qed

lemma get32_put32 [simp]:
  assumes off: "off + 3 < length d" shows "get32 (put32 d off w) off = w"
proof -
  have e: "unat w mod 256 + 256 * (unat w div 256 mod 256) + 65536 * (unat w div 65536 mod 256) +
      16777216 * (unat w div 16777216 mod 256) = unat w"
    using unat_uint_bound [of w] by (rule bytes32)
  have "get32 (put32 d off w) off = of_nat (unat w mod 256 + 256 * (unat w div 256 mod 256) +
      65536 * (unat w div 65536 mod 256) + 16777216 * (unat w div 16777216 mod 256))"
    using off by (simp add: get32_def put32_def unat_of_nat)
  then show ?thesis unfolding e by simp
qed

lemma get16_put16_other [simp]:
  "off + 2 \<le> off' \<or> off' + 2 \<le> off \<Longrightarrow> get16 (put16 d off w) off' = get16 d off'"
  by (auto simp: get16_def put16_def)

lemma get32_put32_other [simp]:
  "off + 4 \<le> off' \<or> off' + 4 \<le> off \<Longrightarrow> get32 (put32 d off w) off' = get32 d off'"
  by (auto simp: get32_def put32_def)

lemma get16_put32_other [simp]:
  "off + 4 \<le> off' \<or> off' + 2 \<le> off \<Longrightarrow> get16 (put32 d off w) off' = get16 d off'"
  by (auto simp: get16_def put32_def)

lemma get32_put16_other [simp]:
  "off + 2 \<le> off' \<or> off' + 4 \<le> off \<Longrightarrow> get32 (put16 d off w) off' = get32 d off'"
  by (auto simp: get32_def put16_def)

lemma get_put_bytes [simp]:
  "off + length bs \<le> length d \<Longrightarrow> get_bytes (put_bytes d off bs) off (length bs) = bs"
  by (simp add: get_bytes_def put_bytes_def)

lemma nth_put_bytes:
  assumes "off + length bs \<le> length d" and "i < length d"
  shows "put_bytes d off bs ! i = (if off \<le> i \<and> i < off + length bs then bs ! (i - off) else d ! i)"
  using assms by (auto simp: put_bytes_def nth_append min_def)

end
