(* ===== verification/Log.thy ===== *)
theory Log
  imports Bio Layout
begin

text \<open>
  The redo log (\<open>log.c\<close>) over the block cache, with \<open>readsb\<close> of \<open>fs.c\<close> and the superblock of
  \<open>fs.h\<close>.  The log state extends the cache state.  \<open>log.lock\<close> is held over each access of the log
  structure, so \<open>begin_op\<close>, the first half of \<open>end_op\<close> and \<open>log_write\<close> are atomic steps; a wait in
  \<open>begin_op\<close> is \<open>Sleeps\<close>.  A crash is modelled by the recorded disk writes: the disk after a crash
  has received a prefix of them, and the machine restarts with \<open>binit\<close> and \<open>initlog\<close>.
\<close>

section \<open>Definitions\<close>

definition MAXOPBLOCKS :: nat where [param_defs]: "MAXOPBLOCKS = 10"

definition LOGSIZE :: nat where [param_defs]: "LOGSIZE = MAXOPBLOCKS * 3"

record superblock =
  sb_size :: nat
  sb_nblocks :: nat
  sb_ninodes :: nat
  sb_nlog :: nat
  sb_logstart :: nat
  sb_inodestart :: nat
  sb_bmapstart :: nat

record fslog = bio +
  log_lock :: spinlock
  log_start :: nat
  log_size :: int
  log_outstanding :: int
  log_committing :: bool
  log_dev :: nat
  lh_n :: int
  lh_block :: "nat list"

definition dec_sb :: "uchar list \<Rightarrow> superblock" where
  "dec_sb d = \<lparr>sb_size = unat (get32 d 0), sb_nblocks = unat (get32 d 4), sb_ninodes = unat (get32 d 8),
     sb_nlog = unat (get32 d 12), sb_logstart = unat (get32 d 16), sb_inodestart = unat (get32 d 20),
     sb_bmapstart = unat (get32 d 24)\<rparr>"

definition readsb :: "nat \<Rightarrow> ('a bio_scheme, superblock) kern" where
  "readsb dev =
     kbind (bread dev 1) (\<lambda>bp.
     kbind (kget (\<lambda>s. dec_sb (b_data (bcache s bp)))) (\<lambda>sb.
     kthen (brelse bp)
     (kret sb)))"

text \<open>\<open>log.lh.block[i]\<close>, defined for \<open>i < LOGSIZE\<close> only.\<close>

definition lh_get :: "nat \<Rightarrow> ('a fslog_scheme, nat) kern" where
  "lh_get i = (if i < LOGSIZE then kget (\<lambda>s. lh_block s ! i) else kundef ''log.lh.block'')"

definition lh_set :: "nat \<Rightarrow> nat \<Rightarrow> ('a fslog_scheme, unit) kern" where
  "lh_set i v = (if i < LOGSIZE then kmod (\<lambda>s. s\<lparr>lh_block := (lh_block s)[i := v]\<rparr>)
     else kundef ''log.lh.block'')"

text \<open>The tail both copy loops share: \<open>memmove\<close>, \<open>bwrite\<close> and the two \<open>brelse\<close>.\<close>

definition copy_block :: "nat \<Rightarrow> nat \<Rightarrow> ('a bio_scheme, unit) kern" where
  "copy_block from to =
     kbind (kget (\<lambda>s. b_data (bcache s from))) (\<lambda>d.
     kthen (buf_store to (\<lambda>_. d))
     (kthen (bwrite to)
     (kthen (brelse from)
     (brelse to))))"

definition install_trans :: "('a fslog_scheme, unit) kern" where
  "install_trans =
     kbind (kget lh_n) (\<lambda>n. kfor [0..<nat n] (\<lambda>tail.
       kbind (kget (\<lambda>s. (log_dev s, log_start s))) (\<lambda>(dev, start).
       kbind (bread dev (start + tail + 1)) (\<lambda>lbuf.
       kbind (lh_get tail) (\<lambda>bn.
       kbind (bread dev bn) (\<lambda>dbuf.
       copy_block lbuf dbuf))))))"

definition read_head :: "('a fslog_scheme, unit) kern" where
  "read_head =
     kbind (kget (\<lambda>s. (log_dev s, log_start s))) (\<lambda>(dev, start).
     kbind (bread dev start) (\<lambda>buf.
     kthen (kmod (\<lambda>s. s\<lparr>lh_n := sint (get32 (b_data (bcache s buf)) 0)\<rparr>))
     (kbind (kget lh_n) (\<lambda>n.
     kthen (kfor [0..<nat n] (\<lambda>i.
       kbind (kget (\<lambda>s. unat (get32 (b_data (bcache s buf)) (4 + 4 * i)))) (lh_set i)))
     (brelse buf)))))"

definition write_head :: "('a fslog_scheme, unit) kern" where
  "write_head =
     kbind (kget (\<lambda>s. (log_dev s, log_start s))) (\<lambda>(dev, start).
     kbind (bread dev start) (\<lambda>buf.
     kbind (kget lh_n) (\<lambda>n.
     kthen (buf_store buf (\<lambda>d. put32 d 0 (of_int n)))
     (kthen (kfor [0..<nat n] (\<lambda>i.
       kbind (lh_get i) (\<lambda>v. buf_store buf (\<lambda>d. put32 d (4 + 4 * i) (of_nat v)))))
     (kthen (bwrite buf)
     (brelse buf))))))"

definition recover_from_log :: "('a fslog_scheme, unit) kern" where
  "recover_from_log =
     kthen read_head
     (kthen install_trans
     (kthen (kmod (\<lambda>s. s\<lparr>lh_n := 0\<rparr>))
     write_head))"

text \<open>\<open>sizeof(struct logheader)\<close> is \<open>4 + 4 * LOGSIZE\<close>.\<close>

definition initlog :: "nat \<Rightarrow> ('a fslog_scheme, unit) kern" where
  "initlog dev =
     (if 4 + 4 * LOGSIZE \<ge> BSIZE then kpanic ''initlog: too big logheader'' else
      kthen (kmod (\<lambda>s. s\<lparr>log_lock := init_lock ''log'' (log_lock s)\<rparr>))
      (kbind (readsb dev) (\<lambda>sb.
      kthen (kmod (\<lambda>s. s\<lparr>log_start := sb_logstart sb, log_size := int (sb_nlog sb), log_dev := dev\<rparr>))
      recover_from_log)))"

definition begin_op :: "('a fslog_scheme, unit) kern" where
  "begin_op = (\<lambda>s.
     if log_committing s then Inl (Sleeps ''log'')
     else if lh_n s + (log_outstanding s + 1) * int MAXOPBLOCKS > int LOGSIZE then Inl (Sleeps ''log'')
     else Inr ((), s\<lparr>log_outstanding := log_outstanding s + 1\<rparr>))"

definition write_log :: "('a fslog_scheme, unit) kern" where
  "write_log =
     kbind (kget lh_n) (\<lambda>n. kfor [0..<nat n] (\<lambda>tail.
       kbind (kget (\<lambda>s. (log_dev s, log_start s))) (\<lambda>(dev, start).
       kbind (bread dev (start + tail + 1)) (\<lambda>to.
       kbind (lh_get tail) (\<lambda>bn.
       kbind (bread dev bn) (\<lambda>from.
       copy_block from to))))))"

definition commit :: "('a fslog_scheme, unit) kern" where
  "commit =
     kbind (kget lh_n) (\<lambda>n.
     if n > 0 then
       kthen write_log
       (kthen write_head
       (kthen install_trans
       (kthen (kmod (\<lambda>s. s\<lparr>lh_n := 0\<rparr>))
       write_head)))
     else kret ())"

definition end_op :: "('a fslog_scheme, unit) kern" where
  "end_op =
     kthen (kmod (\<lambda>s. s\<lparr>log_outstanding := log_outstanding s - 1\<rparr>))
     (kbind (kget log_committing) (\<lambda>c.
     if c then kpanic ''log.committing'' else
     kbind (kget log_outstanding) (\<lambda>out.
     if out = 0 then
       kthen (kmod (\<lambda>s. s\<lparr>log_committing := True\<rparr>))
       (kthen commit
       (kmod (\<lambda>s. s\<lparr>log_committing := False\<rparr>)))
     else kret ())))"

text \<open>The absorption loop of \<open>log_write\<close>: the first \<open>i < n\<close> with \<open>block[i] = bn\<close>, else \<open>n\<close>.\<close>

function absorb :: "nat list \<Rightarrow> nat \<Rightarrow> nat \<Rightarrow> nat \<Rightarrow> nat" where
  "absorb blocks bn i n =
     (if i < n then if blocks ! i = bn then i else absorb blocks bn (Suc i) n else i)"
  by pat_completeness auto
termination by (relation "measure (\<lambda>(blocks, bn, i, n). n - i)") auto

declare absorb.simps [simp del]

definition log_write :: "nat \<Rightarrow> ('a fslog_scheme, unit) kern" where
  "log_write b =
     kbind (kget (\<lambda>s. (lh_n s, log_size s, log_outstanding s, b_blockno (bcache s b)))) (\<lambda>(n, sz, out, bn).
     if n \<ge> int LOGSIZE \<or> n \<ge> sz - 1 then kpanic ''too big a transaction''
     else if out < 1 then kpanic ''log_write outside of trans''
     else
       kbind (kget (\<lambda>s. absorb (lh_block s) bn 0 (nat n))) (\<lambda>i.
       kthen (lh_set i bn)
       (kthen (if int i = n then kmod (\<lambda>s. s\<lparr>lh_n := lh_n s + 1\<rparr>) else kret ())
       (kmod (upd_buf b (\<lambda>x. x\<lparr>b_dirty := True\<rparr>))))))"

section \<open>Lemmas\<close>

lemma log_frame:
  assumes "bio.more t = bio.more (s :: 'a fslog_scheme)"
  shows "log_start t = log_start s" "log_size t = log_size s" "log_dev t = log_dev s"
    "lh_n t = lh_n s" "lh_block t = lh_block s" "log_outstanding t = log_outstanding s"
    "log_committing t = log_committing s" "fslog.more t = fslog.more s" "log_lock t = log_lock s"
  using assms by (cases s, cases t, simp)+

lemma frameD:
  assumes "bio_frame s t"
  shows "bcache_inv t" "bio.more t = bio.more s" "curpid t = curpid s" "disksize t = disksize s"
  using assms by (simp_all add: bio_frame_def)

lemma copy_block_spec:
  assumes inv: "bcache_inv s" and at: "buf_at s from a" "buf_at s to b" "a \<noteq> b"
    and clean: "a \<in> bpinned s \<or> bview s a = memdisk s a"
  obtains t where "copy_block from to s = Inr ((), t)" "bio_frame s t"
    "bview t = (bview s)(b := bview s a)" "bpinned t = bpinned s - {b}" "bheld t = bheld s - {a, b}"
    "memdisk t = (memdisk s)(b := bview s a)" "disk_writes t = disk_writes s @ [(b, bview s a)]"
proof -
  note fa = buf_atD [OF inv at(1)]
  have ne: "from \<noteq> to" using at by (auto simp: buf_at_def is_cached_def)
  obtain u where u: "buf_store to (\<lambda>_. bview s a) s = Inr ((), u)" "bio_frame s u"
    "\<And>c cn. buf_at u c cn = buf_at s c cn" "bview u = (bview s)(b := bview s a)"
    "bpinned u = bpinned s" "bheld u = bheld s" "memdisk u = memdisk s" "disk_writes u = disk_writes s"
    using buf_store_spec [OF inv at(2), of "\<lambda>_. bview s a"] fa(14) by metis
  obtain v where v: "bwrite to u = Inr ((), v)" "bio_frame u v" "\<And>c cn. buf_at v c cn = buf_at u c cn"
    "bview v = bview u" "bpinned v = bpinned u - {b}" "bheld v = bheld u"
    "memdisk v = (memdisk u)(b := bview u b)" "disk_writes v = disk_writes u @ [(b, bview u b)]"
    using bwrite_spec [OF frameD(1) [OF u(2)], of to b] u(3) at(2) by metis
  have "a \<in> bpinned v \<or> bview v a = memdisk v a" using clean at(3) u v by auto
  then obtain w where w: "brelse from v = Inr ((), w)" "bio_frame v w"
    "\<And>c cn. buf_at w c cn \<longleftrightarrow> c \<noteq> from \<and> buf_at v c cn"
    "bview w = bview v" "bpinned w = bpinned v" "bheld w = bheld v - {a}"
    "memdisk w = memdisk v" "disk_writes w = disk_writes v"
    using brelse_spec [OF frameD(1) [OF v(2)], of "from" a] u(3) v(3) at(1) by metis
  have "bview w b = memdisk w b" using u v w by simp
  then obtain t where t: "brelse to w = Inr ((), t)" "bio_frame w t"
    "bview t = bview w" "bpinned t = bpinned w" "bheld t = bheld w - {b}"
    "memdisk t = memdisk w" "disk_writes t = disk_writes w"
    using brelse_spec [OF frameD(1) [OF w(2)], of "to" b] u(3) v(3) w(3) at(2) ne by metis
  have "copy_block from to s = Inr ((), t)"
    using u(1) v(1) w(1) t(1) fa(10) by (simp add: copy_block_def kmonad_simps)
  moreover have "bio_frame s t"
    by (rule bio_frame_trans [OF u(2) bio_frame_trans [OF v(2) bio_frame_trans [OF w(2) t(2)]]])
  ultimately show thesis using u v w t by (intro that [of t]) auto
qed

lemma two_reads:
  assumes inv: "bcache_inv s" and held: "bheld s = {}" and xy: "x < disksize s" "y < disksize s" "x \<noteq> y"
    and room: "card (insert x (insert y (bpinned s))) \<le> NBUF"
  obtains bx u b2 t where "bread 1 x s = Inr (bx, u)" "bread 1 y u = Inr (b2, t)"
    "bio_frame s u" "bio_frame s t" "buf_at t bx x" "buf_at t b2 y" "bview t = bview s"
    "bpinned t = bpinned s" "bheld t = {x, y}" "memdisk t = memdisk s" "disk_writes t = disk_writes s"
proof -
  have fin: "finite (insert x (insert y (bpinned s)))"
  proof -
    have "bpinned s \<subseteq> (\<lambda>b. b_blockno (bcache s b)) ` {..<NBUF}"
      by (auto simp: bpinned_def is_cached_def)
    then show ?thesis using finite_subset by auto
  qed
  have "card (insert x (bpinned s)) \<le> NBUF"
    using room card_mono [OF fin, of "insert x (bpinned s)"] by (meson insert_mono le_trans subset_insertI)
  then have "may_read s x" using xy held by (simp add: may_read_def)
  from bread_law [OF inv this] obtain bx u where u: "bread 1 x s = Inr (bx, u)" "bio_frame s u"
    "buf_at u bx x" "bview u = bview s" "bpinned u = bpinned s" "bheld u = {x}"
    "memdisk u = memdisk s" "disk_writes u = disk_writes s" using held by auto
  have "may_read u y"
    using xy room by (simp add: may_read_def u frameD [OF u(2)] insert_commute)
  from bread_law [OF frameD(1) [OF u(2)] this] obtain b2 t where t: "bread 1 y u = Inr (b2, t)" "bio_frame u t"
    "buf_at t b2 y" "bview t = bview u" "bpinned t = bpinned u" "bheld t = insert y (bheld u)"
    "\<And>c cn. buf_at u c cn \<Longrightarrow> buf_at t c cn" "memdisk t = memdisk u" "disk_writes t = disk_writes u"
    by auto
  show thesis
    using u t bio_frame_trans [OF u(2) t(2)] by (intro that [OF u(1) t(1)]) auto
qed

text \<open>A sequence of block writes applied to a disk.\<close>

definition apply_writes :: "(nat \<Rightarrow> uchar list) \<Rightarrow> (nat \<times> uchar list) list \<Rightarrow> nat \<Rightarrow> uchar list" where
  "apply_writes d ws = foldl (\<lambda>d (bn, x). d(bn := x)) d ws"

lemma apply_writes_Nil [simp]: "apply_writes d [] = d"
  by (simp add: apply_writes_def)

lemma apply_writes_append [simp]: "apply_writes d (xs @ ys) = apply_writes (apply_writes d xs) ys"
  by (simp add: apply_writes_def)

lemma apply_writes_Cons [simp]: "apply_writes d (w # ws) = apply_writes (d(fst w := snd w)) ws"
  by (simp add: apply_writes_def split_beta)

lemma apply_writes_other: "bn \<notin> fst ` set ws \<Longrightarrow> apply_writes d ws bn = d bn"
  by (induction ws arbitrary: d) auto

lemma apply_writes_in:
  "(bn, x) \<in> set ws \<Longrightarrow> distinct (map fst ws) \<Longrightarrow> apply_writes d ws bn = x"
  by (induction ws arbitrary: d) (force simp: apply_writes_other)+

text \<open>The copy loops, for the blocks \<open>bs\<close> and the log starting at \<open>start\<close>.\<close>

definition log_copies :: "(nat \<Rightarrow> uchar list) \<Rightarrow> nat \<Rightarrow> nat list \<Rightarrow> nat \<Rightarrow> (nat \<times> uchar list) list" where
  "log_copies v start bs k = map (\<lambda>i. (start + i + 1, v (bs ! i))) [0..<k]"

definition home_copies :: "(nat \<Rightarrow> uchar list) \<Rightarrow> nat \<Rightarrow> nat list \<Rightarrow> nat \<Rightarrow> (nat \<times> uchar list) list" where
  "home_copies v start bs k = map (\<lambda>i. (bs ! i, v (start + i + 1))) [0..<k]"

definition blocks_ok :: "'a fslog_scheme \<Rightarrow> nat \<Rightarrow> bool" where
  "blocks_ok s n \<longleftrightarrow> log_dev s = 1 \<and> n \<le> LOGSIZE \<and> log_start s + n < disksize s \<and>
     (\<forall>i < n. lh_block s ! i < disksize s \<and>
        (lh_block s ! i < log_start s \<or> log_start s + n < lh_block s ! i))"

lemma log_copies_fst: "fst ` set (log_copies v start bs k) = {start + 1..<start + k + 1}"
proof (intro equalityI subsetI)
  fix x assume "x \<in> {start + 1..<start + k + 1}"
  then have "x = start + (x - start - 1) + 1" "x - start - 1 \<in> {0..<k}" by auto
  then show "x \<in> fst ` set (log_copies v start bs k)"
    unfolding log_copies_def by (auto simp: image_image image_iff)
qed (auto simp: log_copies_def)

lemma home_copies_fst: "fst ` set (home_copies v start bs k) = (\<lambda>i. bs ! i) ` {..<k}"
  by (auto simp: home_copies_def image_image)

lemma log_copies_Suc:
  "log_copies v start bs (Suc k) = log_copies v start bs k @ [(start + k + 1, v (bs ! k))]"
  by (simp add: log_copies_def)

lemma home_copies_Suc:
  "home_copies v start bs (Suc k) = home_copies v start bs k @ [(bs ! k, v (start + k + 1))]"
  by (simp add: home_copies_def)

lemma blocks_ok_mono: "blocks_ok s n \<Longrightarrow> k \<le> n \<Longrightarrow> i < k \<Longrightarrow>
    log_dev s = 1 \<and> i < LOGSIZE \<and> log_start s + i + 1 < disksize s \<and> lh_block s ! i < disksize s \<and>
    (lh_block s ! i < log_start s \<or> log_start s + n < lh_block s ! i)"
  by (auto simp: blocks_ok_def)

abbreviation write_log_body :: "nat \<Rightarrow> ('a fslog_scheme, unit) kern" where
  "write_log_body tail \<equiv>
     kbind (kget (\<lambda>s. (log_dev s, log_start s))) (\<lambda>(dev, start).
       kbind (bread dev (start + tail + 1)) (\<lambda>to.
       kbind (lh_get tail) (\<lambda>bn.
       kbind (bread dev bn) (\<lambda>from.
       copy_block from to))))"

abbreviation install_body :: "nat \<Rightarrow> ('a fslog_scheme, unit) kern" where
  "install_body tail \<equiv>
     kbind (kget (\<lambda>s. (log_dev s, log_start s))) (\<lambda>(dev, start).
       kbind (bread dev (start + tail + 1)) (\<lambda>lbuf.
       kbind (lh_get tail) (\<lambda>bn.
       kbind (bread dev bn) (\<lambda>dbuf.
       copy_block lbuf dbuf))))"

lemma write_log_loop:
  assumes inv: "bcache_inv s" and held: "bheld s = {}" and ok: "blocks_ok s n"
    and pin: "\<And>i. i < n \<Longrightarrow> lh_block s ! i \<in> bpinned s" and room: "card (bpinned s) < NBUF"
    and out: "\<And>i. i < n \<Longrightarrow> log_start s + i + 1 \<notin> bpinned s" and k: "k \<le> n"
  shows "\<exists>t. kfor [0..<k] write_log_body s = Inr ((), t) \<and> bio_frame s t \<and>
    bview t = apply_writes (bview s) (log_copies (bview s) (log_start s) (lh_block s) k) \<and>
    memdisk t = apply_writes (memdisk s) (log_copies (bview s) (log_start s) (lh_block s) k) \<and>
    disk_writes t = disk_writes s @ log_copies (bview s) (log_start s) (lh_block s) k \<and>
    bpinned t = bpinned s \<and> bheld t = {}"
  using k
proof (induction k)
  case 0
  with inv held show ?case by (simp add: kret_def bio_frame_def log_copies_def)
next
  case (Suc k)
  let ?w = "log_copies (bview s) (log_start s) (lh_block s) k"
  let ?l = "log_start s + k + 1" and ?h = "lh_block s ! k"
  obtain t where t: "kfor [0..<k] write_log_body s = Inr ((), t)" "bio_frame s t"
    "bview t = apply_writes (bview s) ?w" "memdisk t = apply_writes (memdisk s) ?w"
    "disk_writes t = disk_writes s @ ?w" "bpinned t = bpinned s" "bheld t = {}"
    using Suc by auto
  note f = frameD [OF t(2)] and g = log_frame [OF frameD(2) [OF t(2)]]
  have b: "log_dev s = 1" "k < LOGSIZE" "?l < disksize s" "?h < disksize s"
    "?h < log_start s \<or> log_start s + n < ?h" using blocks_ok_mono [OF ok Suc.prems, of k] by auto
  have "insert ?l (insert ?h (bpinned s)) = insert ?l (bpinned s)" using pin [of k] Suc.prems by auto
  then have r: "card (insert ?l (insert ?h (bpinned t))) \<le> NBUF"
    using room by (simp add: t(6) card_insert_le_m1 le_trans [OF card_insert_le_m1])
  have c: "?l < disksize t" "?h < disksize t" "?l \<noteq> ?h" using b Suc.prems f(4) by auto
  obtain bx u b2 v where v: "bread 1 ?l t = Inr (bx, u)" "bread 1 ?h u = Inr (b2, v)"
    "bio_frame t u" "bio_frame t v" "buf_at v bx ?l" "buf_at v b2 ?h" "bview v = bview t"
    "bpinned v = bpinned t" "bheld v = {?l, ?h}" "memdisk v = memdisk t" "disk_writes v = disk_writes t"
    by (rule two_reads [OF f(1) t(7) c r])
  have cl: "?h \<in> bpinned v \<or> bview v ?h = memdisk v ?h" using pin [of k] Suc.prems by (simp add: v(8) t(6))
  obtain w where w: "copy_block b2 bx v = Inr ((), w)" "bio_frame v w"
    "bview w = (bview v)(?l := bview v ?h)" "bpinned w = bpinned v - {?l}" "bheld w = bheld v - {?h, ?l}"
    "memdisk w = (memdisk v)(?l := bview v ?h)" "disk_writes w = disk_writes v @ [(?l, bview v ?h)]"
    by (rule copy_block_spec [OF frameD(1) [OF v(4)] v(6,5) c(3) [symmetric] cl])
  have eq: "bview v ?h = bview s ?h"
    unfolding v(7) t(3) using b(5) Suc.prems by (intro apply_writes_other) (auto simp: log_copies_fst)
  have "write_log_body k t = Inr ((), w)"
    using v(1,2) w(1) b g log_frame [OF frameD(2) [OF v(3)]]
    by (simp add: kmonad_simps lh_get_def)
  then have "kfor [0..<Suc k] write_log_body s = Inr ((), w)"
    using t(1) by (simp add: kfor_append kmonad_simps)
  moreover have "bio_frame s w" by (rule bio_frame_trans [OF t(2) bio_frame_trans [OF v(4) w(2)]])
  moreover have "bpinned w = bpinned s" using w(4) v(8) t(6) out [of k] Suc.prems by auto
  ultimately show ?case
    using w v t eq by (intro exI [of _ w]) (simp add: log_copies_Suc)
qed

lemma finite_bpinned [simp]: "finite (bpinned s)"
proof -
  have "bpinned s \<subseteq> (\<lambda>b. b_blockno (bcache s b)) ` {..<NBUF}"
    by (auto simp: bpinned_def is_cached_def)
  then show ?thesis by (rule finite_subset) simp
qed

lemma install_loop:
  assumes inv: "bcache_inv s" and held: "bheld s = {}" and ok: "blocks_ok s n"
    and room: "\<And>i. i < n \<Longrightarrow> card (insert (log_start s + i + 1) (insert (lh_block s ! i) (bpinned s))) \<le> NBUF"
    and out: "\<And>i. i < n \<Longrightarrow> log_start s + i + 1 \<notin> bpinned s" and k: "k \<le> n"
  shows "\<exists>t. kfor [0..<k] install_body s = Inr ((), t) \<and> bio_frame s t \<and>
    bview t = apply_writes (bview s) (home_copies (bview s) (log_start s) (lh_block s) k) \<and>
    memdisk t = apply_writes (memdisk s) (home_copies (bview s) (log_start s) (lh_block s) k) \<and>
    disk_writes t = disk_writes s @ home_copies (bview s) (log_start s) (lh_block s) k \<and>
    bpinned t = bpinned s - (\<lambda>i. lh_block s ! i) ` {..<k} \<and> bheld t = {}"
  using k
proof (induction k)
  case 0
  with inv held show ?case by (simp add: kret_def bio_frame_def home_copies_def)
next
  case (Suc k)
  let ?w = "home_copies (bview s) (log_start s) (lh_block s) k"
  let ?l = "log_start s + k + 1" and ?h = "lh_block s ! k"
  obtain t where t: "kfor [0..<k] install_body s = Inr ((), t)" "bio_frame s t"
    "bview t = apply_writes (bview s) ?w" "memdisk t = apply_writes (memdisk s) ?w"
    "disk_writes t = disk_writes s @ ?w" "bpinned t = bpinned s - (\<lambda>i. lh_block s ! i) ` {..<k}" "bheld t = {}"
    using Suc by auto
  note f = frameD [OF t(2)] and g = log_frame [OF frameD(2) [OF t(2)]]
  have b: "log_dev s = 1" "k < LOGSIZE" "?l < disksize s" "?h < disksize s"
    "?h < log_start s \<or> log_start s + n < ?h" using blocks_ok_mono [OF ok Suc.prems, of k] by auto
  have "card (insert ?l (insert ?h (bpinned t))) \<le> card (insert ?l (insert ?h (bpinned s)))"
    by (rule card_mono) (auto simp: t(6))
  then have r: "card (insert ?l (insert ?h (bpinned t))) \<le> NBUF" using room [of k] Suc.prems by simp
  have c: "?l < disksize t" "?h < disksize t" "?l \<noteq> ?h" using b Suc.prems f(4) by auto
  obtain bx u b2 v where v: "bread 1 ?l t = Inr (bx, u)" "bread 1 ?h u = Inr (b2, v)"
    "bio_frame t u" "bio_frame t v" "buf_at v bx ?l" "buf_at v b2 ?h" "bview v = bview t"
    "bpinned v = bpinned t" "bheld v = {?l, ?h}" "memdisk v = memdisk t" "disk_writes v = disk_writes t"
    by (rule two_reads [OF f(1) t(7) c r])
  have cl: "bview v ?l = memdisk v ?l"
    using bview_disk [OF f(1), of ?l] out [of k] Suc.prems by (simp add: v t(6,7))
  obtain w where w: "copy_block bx b2 v = Inr ((), w)" "bio_frame v w"
    "bview w = (bview v)(?h := bview v ?l)" "bpinned w = bpinned v - {?h}" "bheld w = bheld v - {?l, ?h}"
    "memdisk w = (memdisk v)(?h := bview v ?l)" "disk_writes w = disk_writes v @ [(?h, bview v ?l)]"
    by (rule copy_block_spec [OF frameD(1) [OF v(4)] v(5,6) c(3) disjI2 [OF cl]])
  have "?l \<notin> (\<lambda>i. lh_block s ! i) ` {..<k}"
  proof
    assume "?l \<in> (\<lambda>i. lh_block s ! i) ` {..<k}"
    then obtain i where "i < k" "?l = lh_block s ! i" by auto
    then show False using blocks_ok_mono [OF ok le_refl, of i] Suc.prems by auto
  qed
  then have eq: "bview v ?l = bview s ?l"
    by (simp add: v(7) t(3) apply_writes_other home_copies_fst)
  have "install_body k t = Inr ((), w)"
    using v(1,2) w(1) b g log_frame [OF frameD(2) [OF v(3)]]
    by (simp add: kmonad_simps lh_get_def)
  then have "kfor [0..<Suc k] install_body s = Inr ((), w)"
    using t(1) by (simp add: kfor_append kmonad_simps)
  moreover have "bio_frame s w" by (rule bio_frame_trans [OF t(2) bio_frame_trans [OF v(4) w(2)]])
  moreover have "bpinned w = bpinned s - (\<lambda>i. lh_block s ! i) ` {..<Suc k}"
    using w(4) v(8) t(6) by (auto simp: lessThan_Suc)
  ultimately show ?case
    using w v t eq by (intro exI [of _ w]) (simp add: home_copies_Suc)
qed

subsection \<open>The header block\<close>

lemma views_cong:
  fixes s t :: "'a bio_scheme"
  assumes "bcache t = bcache s" "memdisk t = memdisk s" "disksize t = disksize s" "curpid t = curpid s"
  shows "bcache_inv t = bcache_inv s" "bview t = bview s" "bpinned t = bpinned s" "bheld t = bheld s"
    "buf_at t = buf_at s"
proof -
  note c = view_disk_cong [OF assms(1,4)]
  show "bcache_inv t = bcache_inv s" by (rule bcache_inv_cong [OF assms(1-3)])
  show "bview t = bview s" unfolding bview_def c assms by (rule refl)
qed (rule view_disk_cong [OF assms(1,4)])+

lemma log_upd_views [simp]:
  "bcache_inv (s\<lparr>lh_n := n\<rparr>) = bcache_inv s" "bview (s\<lparr>lh_n := n\<rparr>) = bview s"
  "bpinned (s\<lparr>lh_n := n\<rparr>) = bpinned s" "bheld (s\<lparr>lh_n := n\<rparr>) = bheld s"
  "buf_at (s\<lparr>lh_n := n\<rparr>) = buf_at s"
  "bcache_inv (s\<lparr>lh_block := bs\<rparr>) = bcache_inv s" "bview (s\<lparr>lh_block := bs\<rparr>) = bview s"
  "bpinned (s\<lparr>lh_block := bs\<rparr>) = bpinned s" "bheld (s\<lparr>lh_block := bs\<rparr>) = bheld s"
  "buf_at (s\<lparr>lh_block := bs\<rparr>) = buf_at s"
  by (rule views_cong; simp)+

definition enc_head :: "uchar list \<Rightarrow> nat \<Rightarrow> nat list \<Rightarrow> uchar list" where
  "enc_head d n bs = fold (\<lambda>i d. put32 d (4 + 4 * i) (of_nat (bs ! i))) [0..<n] (put32 d 0 (of_nat n))"

definition dec_head :: "uchar list \<Rightarrow> nat \<Rightarrow> nat list" where
  "dec_head d n = map (\<lambda>i. unat (get32 d (4 + 4 * i))) [0..<n]"

lemma fold_put_blocks:
  fixes n :: nat and bs :: "nat list"
  defines "f \<equiv> \<lambda>d. fold (\<lambda>i d. put32 d (4 + 4 * i) (of_nat (bs ! i))) [0..<n] d"
  assumes "4 + 4 * n \<le> length d"
  shows "length (f d) = length d" "get32 (f d) 0 = get32 d 0"
    "i < n \<Longrightarrow> get32 (f d) (4 + 4 * i) = of_nat (bs ! i)"
  using assms(2) unfolding f_def by (induction n) (auto simp: less_Suc_eq)

lemma enc_head_length: "4 + 4 * n \<le> length d \<Longrightarrow> length (enc_head d n bs) = length d"
  by (simp add: enc_head_def fold_put_blocks)

lemma get_enc_head:
  assumes "4 + 4 * n \<le> length d"
  shows "get32 (enc_head d n bs) 0 = of_nat n" "i < n \<Longrightarrow> get32 (enc_head d n bs) (4 + 4 * i) = of_nat (bs ! i)"
  using assms by (simp_all add: enc_head_def fold_put_blocks)

lemma dec_enc_head:
  assumes "4 + 4 * n \<le> length d" and "\<And>i. i < n \<Longrightarrow> bs ! i < 4294967296" and "n \<le> length bs"
  shows "dec_head (enc_head d n bs) n = take n bs"
  using assms by (intro nth_equalityI) (auto simp: dec_head_def get_enc_head unat_of_nat)

lemma store_blocks_loop:
  fixes s :: "'a fslog_scheme"
  assumes inv: "bcache_inv s" and at: "buf_at s b bn" and k: "k \<le> LOGSIZE"
  shows "\<exists>t. kfor [0..<k] (\<lambda>i. kbind (lh_get i) (\<lambda>v. buf_store b (\<lambda>d. put32 d (4 + 4 * i) (of_nat v)))) s
      = Inr ((), t) \<and> bio_frame s t \<and> (\<forall>c cn. buf_at t c cn = buf_at s c cn) \<and>
    bview t = (bview s)(bn := fold (\<lambda>i d. put32 d (4 + 4 * i) (of_nat (lh_block s ! i))) [0..<k] (bview s bn)) \<and>
    bpinned t = bpinned s \<and> bheld t = bheld s \<and> memdisk t = memdisk s \<and> disk_writes t = disk_writes s"
  using k
proof (induction k)
  case 0
  with inv show ?case by (simp add: kret_def bio_frame_def)
next
  case (Suc k)
  let ?body = "\<lambda>i. kbind (lh_get i) (\<lambda>v. buf_store b (\<lambda>d. put32 d (4 + 4 * i) (of_nat v)))"
  obtain t where t: "kfor [0..<k] ?body s = Inr ((), t)" "bio_frame s t" "\<And>c cn. buf_at t c cn = buf_at s c cn"
    "bview t = (bview s)(bn := fold (\<lambda>i d. put32 d (4 + 4 * i) (of_nat (lh_block s ! i))) [0..<k] (bview s bn))"
    "bpinned t = bpinned s" "bheld t = bheld s" "memdisk t = memdisk s" "disk_writes t = disk_writes s"
    using Suc.IH [OF Suc_leD [OF Suc.prems]] by blast
  have i: "bcache_inv t" "buf_at t b bn" using frameD(1) [OF t(2)] t(3) at by auto
  note g = log_frame [OF frameD(2) [OF t(2)]]
  let ?f = "\<lambda>d. put32 d (4 + 4 * k) (of_nat (lh_block s ! k))"
  have len: "length (?f (bview t bn)) = BSIZE" using buf_atD(14) [OF i] by simp
  obtain u where u: "buf_store b ?f t = Inr ((), u)" "bio_frame t u" "\<And>c cn. buf_at u c cn = buf_at t c cn"
    "bview u = (bview t)(bn := ?f (bview t bn))" "bpinned u = bpinned t" "bheld u = bheld t"
    "memdisk u = memdisk t" "disk_writes u = disk_writes t"
    using buf_store_spec [where f = ?f, OF i len] by blast
  have "?body k t = Inr ((), u)"
    using u(1) g(5) Suc.prems by (simp add: lh_get_def kmonad_simps)
  then have "kfor [0..<Suc k] ?body s = Inr ((), u)" using t(1) by (simp add: kfor_append kmonad_simps)
  then show ?case using t u bio_frame_trans [OF t(2) u(2)] by (intro exI [of _ u]) simp
qed

lemma write_head_spec:
  fixes s :: "'a fslog_scheme"
  assumes inv: "bcache_inv s" and held: "bheld s = {}" and dev: "log_dev s = 1"
    and st: "log_start s < disksize s" "log_start s \<notin> bpinned s" "card (bpinned s) < NBUF"
    and n: "lh_n s = int n" "n \<le> LOGSIZE"
  obtains t where "write_head s = Inr ((), t)" "bio_frame s t"
    "bview t = (bview s)(log_start s := enc_head (bview s (log_start s)) n (lh_block s))"
    "memdisk t = (memdisk s)(log_start s := enc_head (bview s (log_start s)) n (lh_block s))"
    "disk_writes t = disk_writes s @ [(log_start s, enc_head (bview s (log_start s)) n (lh_block s))]"
    "bpinned t = bpinned s" "bheld t = {}"
proof -
  let ?bn = "log_start s"
  have "card (insert ?bn (bpinned s)) \<le> NBUF" using st(3) by (simp add: card_insert_if)
  then have "may_read s ?bn" using st held by (simp add: may_read_def)
  from bread_law [OF inv this] obtain b t where t: "bread 1 ?bn s = Inr (b, t)" "bio_frame s t"
    "buf_at t b ?bn" "bview t = bview s" "bpinned t = bpinned s" "bheld t = {?bn}"
    "memdisk t = memdisk s" "disk_writes t = disk_writes s" using held by auto
  let ?f = "\<lambda>d. put32 d 0 (of_nat n)"
  have it: "bcache_inv t" using frameD(1) [OF t(2)] .
  have len: "length (?f (bview t ?bn)) = BSIZE" using buf_atD(14) [OF it t(3)] by simp
  obtain u where u: "buf_store b ?f t = Inr ((), u)" "bio_frame t u" "\<And>c cn. buf_at u c cn = buf_at t c cn"
    "bview u = (bview t)(?bn := ?f (bview t ?bn))" "bpinned u = bpinned t" "bheld u = bheld t"
    "memdisk u = memdisk t" "disk_writes u = disk_writes t"
    using buf_store_spec [where f = ?f, OF it t(3) len] by blast
  have iu: "bcache_inv u" "buf_at u b ?bn" using frameD(1) [OF u(2)] u(3) t(3) by auto
  have fu: "bio_frame s u" by (rule bio_frame_trans [OF t(2) u(2)])
  note g = log_frame [OF frameD(2) [OF t(2)]] log_frame [OF frameD(2) [OF fu]]
  obtain v where v: "kfor [0..<n] (\<lambda>i. kbind (lh_get i)
      (\<lambda>v. buf_store b (\<lambda>d. put32 d (4 + 4 * i) (of_nat v)))) u = Inr ((), v)"
    "bio_frame u v" "\<And>c cn. buf_at v c cn = buf_at u c cn"
    "bview v = (bview u)(?bn := fold (\<lambda>i d. put32 d (4 + 4 * i) (of_nat (lh_block u ! i))) [0..<n] (bview u ?bn))"
    "bpinned v = bpinned u" "bheld v = bheld u" "memdisk v = memdisk u" "disk_writes v = disk_writes u"
    using store_blocks_loop [OF iu n(2)] by blast
  let ?h = "enc_head (bview s ?bn) n (lh_block s)"
  have bv: "bview v = (bview s)(?bn := ?h)"
    using v(4) u(4) t(4) g by (simp add: enc_head_def)
  have iv: "bcache_inv v" "buf_at v b ?bn" using frameD(1) [OF v(2)] v(3) iu by auto
  obtain w where w: "bwrite b v = Inr ((), w)" "bio_frame v w" "\<And>c cn. buf_at w c cn = buf_at v c cn"
    "bview w = bview v" "bpinned w = bpinned v - {?bn}" "bheld w = bheld v"
    "memdisk w = (memdisk v)(?bn := bview v ?bn)" "disk_writes w = disk_writes v @ [(?bn, bview v ?bn)]"
    using bwrite_spec [OF iv] by blast
  have iw: "bcache_inv w" "buf_at w b ?bn" "?bn \<in> bpinned w \<or> bview w ?bn = memdisk w ?bn"
    using frameD(1) [OF w(2)] w iv by auto
  obtain x where x: "brelse b w = Inr ((), x)" "bio_frame w x" "bview x = bview w" "bpinned x = bpinned w"
    "bheld x = bheld w - {?bn}" "memdisk x = memdisk w" "disk_writes x = disk_writes w"
    using brelse_law [OF iw] by auto
  have "write_head s = Inr ((), x)"
    by (simp add: write_head_def kmonad_simps t(1) u(1) v(1) w(1) x(1) dev n g del: One_nat_def)
  moreover have "bio_frame s x"
    by (rule bio_frame_trans [OF fu bio_frame_trans [OF v(2) bio_frame_trans [OF w(2) x(2)]]])
  moreover have "bview x = (bview s)(?bn := ?h)" "memdisk x = (memdisk s)(?bn := ?h)"
    "disk_writes x = disk_writes s @ [(?bn, ?h)]" "bpinned x = bpinned s" "bheld x = {}"
    using t(5-8) u(5-8) v(5-8) w(4-8) x(3-7) st(2) unfolding bv by auto
  ultimately show thesis by (rule that)
qed

lemma read_blocks_loop:
  fixes s :: "'a fslog_scheme"
  assumes "length (lh_block s) = LOGSIZE" and "k \<le> LOGSIZE"
  shows "kfor [0..<k] (\<lambda>i. kbind (kget (\<lambda>s. unat (get32 (b_data (bcache s b)) (4 + 4 * i)))) (lh_set i)) s =
    Inr ((), s\<lparr>lh_block := dec_head (b_data (bcache s b)) k @ drop k (lh_block s)\<rparr>)"
  using assms(2)
proof (induction k)
  case (Suc k)
  let ?d = "b_data (bcache s b)"
  have "(dec_head ?d k @ drop k (lh_block s))[k := unat (get32 ?d (4 + 4 * k))] =
    dec_head ?d (Suc k) @ drop (Suc k) (lh_block s)"
    using Suc.prems assms(1) by (simp add: dec_head_def list_update_append Cons_nth_drop_Suc [symmetric])
  with Suc show ?case by (simp add: kfor_append kmonad_simps lh_set_def)
qed (simp add: kret_def dec_head_def)

text \<open>The log fields that \<open>read_head\<close> does not touch.\<close>

definition log_same :: "'a fslog_scheme \<Rightarrow> 'a fslog_scheme \<Rightarrow> bool" where
  "log_same s t \<longleftrightarrow> log_start t = log_start s \<and> log_size t = log_size s \<and> log_dev t = log_dev s \<and>
     log_outstanding t = log_outstanding s \<and> log_committing t = log_committing s \<and>
     fslog.more t = fslog.more s \<and> disksize t = disksize s \<and> curpid t = curpid s"

lemma frame_log_same: "bio_frame s t \<Longrightarrow> log_same s t"
  unfolding log_same_def using log_frame [of t s] by (simp add: bio_frame_def)

lemma log_same_trans: "log_same s t \<Longrightarrow> log_same t u \<Longrightarrow> log_same s u"
  by (simp add: log_same_def)

lemma read_head_spec:
  fixes s :: "'a fslog_scheme"
  assumes inv: "bcache_inv s" and held: "bheld s = {}" and dev: "log_dev s = 1"
    and st: "log_start s < disksize s" "card (insert (log_start s) (bpinned s)) \<le> NBUF"
    and n: "sint (get32 (bview s (log_start s)) 0) = int n" "n \<le> LOGSIZE" "length (lh_block s) = LOGSIZE"
  obtains t where "read_head s = Inr ((), t)" "log_same s t" "bcache_inv t"
    "bview t = bview s" "memdisk t = memdisk s" "disk_writes t = disk_writes s"
    "bpinned t = bpinned s" "bheld t = {}" "lh_n t = int n"
    "lh_block t = dec_head (bview s (log_start s)) n @ drop n (lh_block s)"
proof -
  let ?bn = "log_start s"
  have "may_read s ?bn" using st held by (simp add: may_read_def)
  from bread_law [OF inv this] obtain b t where t: "bread 1 ?bn s = Inr (b, t)" "bio_frame s t"
    "buf_at t b ?bn" "b_data (bcache t b) = bview s ?bn" "bview t = bview s" "bpinned t = bpinned s"
    "bheld t = {?bn}" "memdisk t = memdisk s" "disk_writes t = disk_writes s" using held by auto
  note g = log_frame [OF frameD(2) [OF t(2)]]
  let ?u = "t\<lparr>lh_n := int n\<rparr>"
  let ?v = "?u\<lparr>lh_block := dec_head (bview s ?bn) n @ drop n (lh_block s)\<rparr>"
  have lp: "kfor [0..<n] (\<lambda>i. kbind (kget (\<lambda>s. unat (get32 (b_data (bcache s b)) (4 + 4 * i)))) (lh_set i)) ?u
    = Inr ((), ?v)"
    using read_blocks_loop [of ?u n b] n g t(4) by simp
  have iv: "bcache_inv ?v" "buf_at ?v b ?bn" "?bn \<in> bpinned ?v \<or> bview ?v ?bn = memdisk ?v ?bn"
    using frameD(1) [OF t(2)] t(3) bview_disk [OF inv, of ?bn] held by (auto simp: t)
  obtain w where w: "brelse b ?v = Inr ((), w)" "bio_frame ?v w" "bview w = bview ?v" "bpinned w = bpinned ?v"
    "bheld w = bheld ?v - {?bn}" "memdisk w = memdisk ?v" "disk_writes w = disk_writes ?v"
    using brelse_law [OF iv] by auto
  note h = log_frame [OF frameD(2) [OF w(2)]]
  have "read_head s = Inr ((), w)"
    by (simp add: read_head_def kmonad_simps dev t(1,4) n lp w(1) del: One_nat_def)
  moreover have "log_same s w"
    using frame_log_same [OF t(2)] frame_log_same [OF w(2)] by (simp add: log_same_def)
  ultimately show thesis using t w h frameD(1) [OF w(2)] by (intro that [of w]) simp_all
qed

text \<open>The state in which \<open>commit\<close> runs: no operation is active, so no buffer is held, and the dirty
  buffers are those of the logged blocks, which lie outside the log.\<close>

definition log_inv :: "'a fslog_scheme \<Rightarrow> bool" where
  "log_inv s \<longleftrightarrow> bcache_inv s \<and> log_dev s = 1 \<and> length (lh_block s) = LOGSIZE \<and>
     0 \<le> lh_n s \<and> lh_n s < log_size s \<and> lh_n s \<le> int LOGSIZE \<and> log_size s \<le> int NBUF \<and>
     int (log_start s) + log_size s \<le> int (disksize s) \<and> disksize s < 4294967296 \<and>
     bpinned s = set (take (nat (lh_n s)) (lh_block s)) \<and> distinct (take (nat (lh_n s)) (lh_block s)) \<and>
     (\<forall>bn \<in> bpinned s. bn < disksize s \<and> (bn < log_start s \<or> int (log_start s) + log_size s \<le> int bn)) \<and>
     get32 (memdisk s (log_start s)) 0 = 0"

text \<open>The blocks outside the log.\<close>

definition home :: "'a fslog_scheme \<Rightarrow> nat \<Rightarrow> bool" where
  "home s bn \<longleftrightarrow> bn < log_start s \<or> int (log_start s) + log_size s \<le> int bn"

definition commit_writes :: "'a fslog_scheme \<Rightarrow> (nat \<times> uchar list) list" where
  "commit_writes s = (let n = nat (lh_n s); st = log_start s; bs = lh_block s;
      h = enc_head (bview s st) n bs in
    log_copies (bview s) st bs n @ [(st, h)] @ map (\<lambda>i. (bs ! i, bview s (bs ! i))) [0..<n] @
    [(st, enc_head h 0 bs)])"

lemma log_invD:
  assumes "log_inv s"
  obtains n where "lh_n s = int n" "nat (lh_n s) = n" "n \<le> LOGSIZE" "blocks_ok s n"
    "\<And>i. i < n \<Longrightarrow> lh_block s ! i \<in> bpinned s" "\<And>i. i \<le> n \<Longrightarrow> log_start s + i \<notin> bpinned s"
    "card (bpinned s) = n" "n < NBUF" "log_start s + n < disksize s" "int n < log_size s"
    "bpinned s = (\<lambda>i. lh_block s ! i) ` {..<n}" "\<And>i. i < n \<Longrightarrow> lh_block s ! i < 4294967296"
    "inj_on (\<lambda>i. lh_block s ! i) {..<n}"
proof -
  let ?n = "nat (lh_n s)"
  have l: "length (take ?n (lh_block s)) = ?n" using assms by (auto simp: log_inv_def)
  have p: "bpinned s = (\<lambda>i. lh_block s ! i) ` {..<?n}"
    using assms l nth_image [of ?n "lh_block s"] by (simp add: log_inv_def lessThan_atLeast0)
  have d: "inj_on (\<lambda>i. lh_block s ! i) {..<?n}"
  proof (rule inj_onI)
    fix x y assume "x \<in> {..<?n}" "y \<in> {..<?n}" "lh_block s ! x = lh_block s ! y"
    then show "x = y"
      using assms l nth_eq_iff_index_eq [of "take ?n (lh_block s)" x y] by (simp add: log_inv_def)
  qed
  have b: "\<And>i. i < ?n \<Longrightarrow> lh_block s ! i \<in> bpinned s" using p by auto
  have h: "\<And>bn. bn \<in> bpinned s \<Longrightarrow> bn < disksize s \<and>
      (bn < log_start s \<or> int (log_start s) + log_size s \<le> int bn)"
    using assms by (auto simp: log_inv_def)
  have k: "0 \<le> lh_n s" "lh_n s < log_size s" "lh_n s \<le> int LOGSIZE" "lh_n s < int NBUF"
    "int (log_start s) + log_size s \<le> int (disksize s)" "disksize s < 4294967296" "log_dev s = 1"
    using assms by (auto simp: log_inv_def)
  have ok: "blocks_ok s ?n"
    unfolding blocks_ok_def using k b h by force
  have c: "card (bpinned s) = ?n" using d by (simp add: p card_image)
  have o: "\<And>i. i \<le> ?n \<Longrightarrow> log_start s + i \<notin> bpinned s"
    using k h by force
  have w: "\<And>i. i < ?n \<Longrightarrow> lh_block s ! i < 4294967296" using b h k(6) by (meson less_trans)
  show thesis
    by (rule that [OF _ refl _ ok b o c _ _ _ p w d]) (use k in auto)
qed

lemma log_copies_lookup:
  "i < n \<Longrightarrow> apply_writes d (log_copies v st bs n) (st + i + 1) = v (bs ! i)"
proof (rule apply_writes_in)
  assume "i < n"
  then show "(st + i + 1, v (bs ! i)) \<in> set (log_copies v st bs n)" by (auto simp: log_copies_def)
  show "distinct (map fst (log_copies v st bs n))" by (simp add: log_copies_def distinct_map inj_on_def o_def)
qed

lemma bview_len: "bcache_inv s \<Longrightarrow> bn < disksize s \<Longrightarrow> 4 + 4 * LOGSIZE \<le> length (bview s bn)"
  by (simp add: bview_length BSIZE_def LOGSIZE_def MAXOPBLOCKS_def)

lemma commit_spec:
  fixes s :: "'a fslog_scheme"
  assumes li: "log_inv s" and held: "bheld s = {}" and pos: "0 < lh_n s"
  obtains t where "commit s = Inr ((), t)" "log_same s t" "bcache_inv t" "lh_n t = 0"
    "lh_block t = lh_block s" "bpinned t = {}" "bheld t = {}"
    "bview t = apply_writes (bview s) (commit_writes s)"
    "memdisk t = apply_writes (memdisk s) (commit_writes s)"
    "disk_writes t = disk_writes s @ commit_writes s"
proof -
  obtain n where n: "lh_n s = int n" "nat (lh_n s) = n" "n \<le> LOGSIZE" "blocks_ok s n"
    "\<And>i. i < n \<Longrightarrow> lh_block s ! i \<in> bpinned s" "\<And>i. i \<le> n \<Longrightarrow> log_start s + i \<notin> bpinned s"
    "card (bpinned s) = n" "n < NBUF" "log_start s + n < disksize s"
    "bpinned s = (\<lambda>i. lh_block s ! i) ` {..<n}"
    by (rule log_invD [OF li]) blast
  have inv: "bcache_inv s" and dev: "log_dev s = 1" using li by (auto simp: log_inv_def)
  let ?st = "log_start s" and ?bs = "lh_block s"
  let ?w1 = "log_copies (bview s) ?st ?bs n" and ?h = "enc_head (bview s ?st) n ?bs"
  let ?w3 = "map (\<lambda>i. (?bs ! i, bview s (?bs ! i))) [0..<n]"
  have out: "\<And>i. i < n \<Longrightarrow> ?st + i + 1 \<notin> bpinned s" using n(6) by (metis Suc_eq_plus1 Suc_leI add_Suc_right)
  have room: "card (bpinned s) < NBUF" using n(7,8) by simp
  obtain t where t: "kfor [0..<n] write_log_body s = Inr ((), t)" "bio_frame s t"
    "bview t = apply_writes (bview s) ?w1" "memdisk t = apply_writes (memdisk s) ?w1"
    "disk_writes t = disk_writes s @ ?w1" "bpinned t = bpinned s" "bheld t = {}"
    using write_log_loop [OF inv held n(4,5) room out le_refl] by blast
  note ft = frameD [OF t(2)] log_frame [OF frameD(2) [OF t(2)]]
  have bt: "bview t ?st = bview s ?st"
    unfolding t(3) by (rule apply_writes_other) (auto simp: log_copies_fst)
  obtain u where u: "write_head t = Inr ((), u)" "bio_frame t u" "bview u = (bview t)(?st := ?h)"
    "memdisk u = (memdisk t)(?st := ?h)" "disk_writes u = disk_writes t @ [(?st, ?h)]"
    "bpinned u = bpinned t" "bheld u = {}"
    using write_head_spec [OF ft(1) t(7), of n] ft n(1,3,9) n(6) [of 0] room dev by (auto simp: t(6) bt)
  have fu: "bio_frame s u" by (rule bio_frame_trans [OF t(2) u(2)])
  note gu = frameD [OF fu] log_frame [OF frameD(2) [OF fu]]
  have ok: "blocks_ok u n" using n(4) by (simp add: blocks_ok_def gu)
  have card: "card (insert (log_start u + i + 1) (insert (lh_block u ! i) (bpinned u))) \<le> NBUF" if "i < n" for i
  proof -
    have "insert (log_start u + i + 1) (insert (lh_block u ! i) (bpinned u)) = insert (?st + i + 1) (bpinned s)"
      using n(5) [OF that] by (auto simp: gu u t)
    then show ?thesis using room by (simp add: card_insert_if)
  qed
  have out': "\<And>i. i < n \<Longrightarrow> log_start u + i + 1 \<notin> bpinned u" using out by (simp add: u t gu)
  have hc: "home_copies (bview u) (log_start u) (lh_block u) n = ?w3"
    using log_copies_lookup [of _ n "bview s" "bview s" ?st ?bs]
    by (simp add: home_copies_def gu u(3) t(3))
  obtain v where v: "kfor [0..<n] install_body u = Inr ((), v)" "bio_frame u v"
    "bview v = apply_writes (bview u) ?w3" "memdisk v = apply_writes (memdisk u) ?w3"
    "disk_writes v = disk_writes u @ ?w3" "bpinned v = bpinned u - (\<lambda>i. lh_block u ! i) ` {..<n}" "bheld v = {}"
    using install_loop [OF gu(1) u(7) ok card out' le_refl] unfolding hc by blast
  have fv: "bio_frame s v" by (rule bio_frame_trans [OF fu v(2)])
  note gv = frameD [OF fv] log_frame [OF frameD(2) [OF fv]]
  have pv: "bpinned v = {}" using v(6) n(10) by (simp add: u t gu)
  have bv: "bview v ?st = ?h"
  proof -
    have "?st \<notin> fst ` set ?w3" using n(5) n(6) [of 0] by (force simp: image_image)
    then show ?thesis unfolding v(3) by (simp add: apply_writes_other u(3))
  qed
  let ?x = "v\<lparr>lh_n := 0\<rparr>"
  obtain x where x: "write_head ?x = Inr ((), x)" "bio_frame ?x x"
    "bview x = (bview v)(?st := enc_head ?h 0 ?bs)" "memdisk x = (memdisk v)(?st := enc_head ?h 0 ?bs)"
    "disk_writes x = disk_writes v @ [(?st, enc_head ?h 0 ?bs)]" "bpinned x = {}" "bheld x = {}"
    using write_head_spec [of ?x 0] gv v(7) pv n(9) dev bv by (auto simp: NBUF_def)
  note gx = frameD [OF x(2)] log_frame [OF frameD(2) [OF x(2)]]
  have "commit s = Inr ((), x)"
    using pos t(1) u(1) v(1) x(1)
    by (simp add: commit_def write_log_def install_trans_def kmonad_simps n(1) gu)
  moreover have "log_same s x"
    using frame_log_same [OF fv] frame_log_same [OF x(2)] by (simp add: log_same_def)
  moreover have "disk_writes x = disk_writes s @ commit_writes s"
    "bview x = apply_writes (bview s) (commit_writes s)"
    "memdisk x = apply_writes (memdisk s) (commit_writes s)"
    by (simp_all add: x(3-5) v(3-5) u(3-5) t(3-5) commit_writes_def n(2) Let_def)
  ultimately show thesis using x gx gv by (intro that [of x]) simp_all
qed

subsection \<open>Recovery\<close>

text \<open>A disk whose log header is usable: the count fits and the home blocks lie outside the log.\<close>

definition log_disk_ok :: "nat \<Rightarrow> int \<Rightarrow> nat \<Rightarrow> (nat \<Rightarrow> uchar list) \<Rightarrow> nat \<Rightarrow> bool" where
  "log_disk_ok st lsz dsz d n \<longleftrightarrow> sint (get32 (d st) 0) = int n \<and> n \<le> LOGSIZE \<and> int n < lsz \<and>
     int st + lsz \<le> int dsz \<and>
     (\<forall>b \<in> set (dec_head (d st) n). b < dsz \<and> (b < st \<or> int st + lsz \<le> int b))"

definition recover_writes :: "nat \<Rightarrow> (nat \<Rightarrow> uchar list) \<Rightarrow> nat \<Rightarrow> (nat \<times> uchar list) list" where
  "recover_writes st d n =
     map (\<lambda>i. (dec_head (d st) n ! i, d (st + i + 1))) [0..<n] @ [(st, put32 (d st) 0 0)]"

lemma enc_head_0: "enc_head d 0 bs = put32 d 0 0"
  by (simp add: enc_head_def)

lemma recover_spec:
  fixes s :: "'a fslog_scheme"
  assumes inv: "bcache_inv s" "bpinned s = {}" "bheld s = {}" and dev: "log_dev s = 1"
    and len: "length (lh_block s) = LOGSIZE"
    and ok: "log_disk_ok (log_start s) (log_size s) (disksize s) (memdisk s) n"
  obtains t where "recover_from_log s = Inr ((), t)" "log_same s t" "bcache_inv t" "lh_n t = 0"
    "bpinned t = {}" "bheld t = {}" "bview t = memdisk t"
    "memdisk t = apply_writes (memdisk s) (recover_writes (log_start s) (memdisk s) n)"
    "disk_writes t = disk_writes s @ recover_writes (log_start s) (memdisk s) n"
    "length (lh_block t) = LOGSIZE"
proof -
  let ?st = "log_start s" and ?d = "memdisk s"
  let ?bs = "dec_head (?d ?st) n"
  have bv: "bview s = ?d" using bview_disk [OF inv(1)] inv(2,3) by auto
  have k: "sint (get32 (?d ?st) 0) = int n" "n \<le> LOGSIZE" "int n < log_size s"
    "int ?st + log_size s \<le> int (disksize s)"
    "\<And>b. b \<in> set ?bs \<Longrightarrow> b < disksize s \<and> (b < ?st \<or> int ?st + log_size s \<le> int b)"
    using ok by (auto simp: log_disk_ok_def)
  have st: "?st < disksize s" "card (insert ?st (bpinned s)) \<le> NBUF"
    using k(3,4) inv(2) by (auto simp: NBUF_def)
  obtain t where t: "read_head s = Inr ((), t)" "log_same s t" "bcache_inv t" "bview t = bview s"
    "memdisk t = ?d" "disk_writes t = disk_writes s" "bpinned t = {}" "bheld t = {}" "lh_n t = int n"
    "lh_block t = ?bs @ drop n (lh_block s)"
    using read_head_spec [OF inv(1,3) dev st _ k(2) len] k(1) inv(2) bv by metis
  have ls: "log_start t = ?st" "log_dev t = 1" "log_size t = log_size s" "disksize t = disksize s"
    using t(2) dev by (auto simp: log_same_def)
  have lb: "lh_block t ! i = ?bs ! i" if "i < n" for i using that by (simp add: t(10) nth_append dec_head_def)
  have bok: "blocks_ok t n"
  proof -
    have "?bs ! i \<in> set ?bs" if "i < n" for i using that by (simp add: dec_head_def)
    then show ?thesis using k ls lb unfolding blocks_ok_def by force
  qed
  let ?w = "map (\<lambda>i. (?bs ! i, ?d (?st + i + 1))) [0..<n]"
  have hc: "home_copies (bview t) (log_start t) (lh_block t) n = ?w"
    using lb by (simp add: home_copies_def ls t(4) bv)
  have c2: "card (insert x (insert y {})) \<le> NBUF" for x y :: nat
    by (simp add: NBUF_def card_insert_if)
  obtain u where u: "kfor [0..<n] install_body t = Inr ((), u)" "bio_frame t u"
    "bview u = apply_writes (bview t) ?w" "memdisk u = apply_writes (memdisk t) ?w"
    "disk_writes u = disk_writes t @ ?w" "bpinned u = {}" "bheld u = {}"
    using install_loop [OF t(3,8) bok _ _ le_refl] c2 unfolding t(7) hc by auto
  note gu = frameD [OF u(2)] log_frame [OF frameD(2) [OF u(2)]]
  let ?u = "u\<lparr>lh_n := 0\<rparr>"
  obtain v where v: "write_head ?u = Inr ((), v)" "bio_frame ?u v"
    "bview v = (bview u)(?st := enc_head (bview u ?st) 0 (lh_block u))"
    "memdisk v = (memdisk u)(?st := enc_head (bview u ?st) 0 (lh_block u))"
    "disk_writes v = disk_writes u @ [(?st, enc_head (bview u ?st) 0 (lh_block u))]"
    "bpinned v = {}" "bheld v = {}"
    using write_head_spec [of ?u 0] gu u(6,7) st(1) by (auto simp: ls NBUF_def)
  note gv = frameD [OF v(2)] log_frame [OF frameD(2) [OF v(2)]]
  have "?st \<notin> fst ` set ?w"
    using k(3,5) by (fastforce simp: image_image dec_head_def)
  then have hd: "bview u ?st = ?d ?st" by (simp add: u(3) t(4) bv apply_writes_other)
  have "recover_from_log s = Inr ((), v)"
    using t(1) u(1) v(1) by (simp add: recover_from_log_def install_trans_def kmonad_simps t(9))
  moreover have "log_same s v"
    using t(2) frame_log_same [OF u(2)] frame_log_same [OF v(2)] by (simp add: log_same_def)
  moreover have "bview v = memdisk v" using bview_disk [OF gv(1)] v(6,7) by auto
  moreover have "memdisk v = apply_writes ?d (recover_writes ?st ?d n)"
    "disk_writes v = disk_writes s @ recover_writes ?st ?d n"
    unfolding v(4,5) hd enc_head_0 by (simp_all add: recover_writes_def u(4,5) t(5,6))
  moreover have "length (lh_block v) = LOGSIZE" using gv gu k(2) len by (simp add: t(10) dec_head_def)
  ultimately show thesis using v(6,7) gv by (intro that [of v]) simp_all
qed

text \<open>\<open>binit\<close> and \<open>initlog\<close> on a fresh kernel whose disk is \<open>d\<close>.\<close>

definition reboot :: "('a fslog_scheme, unit) kern" where
  "reboot = kthen binit (initlog 1)"

definition fresh_kernel :: "(nat \<Rightarrow> uchar list) \<Rightarrow> nat \<Rightarrow> 'a fslog_scheme \<Rightarrow> bool" where
  "fresh_kernel d dsz r \<longleftrightarrow> bio_boot r \<and> memdisk r = d \<and> disksize r = dsz \<and> length (lh_block r) = LOGSIZE"

lemma reboot_spec:
  fixes r :: "'a fslog_scheme"
  assumes f: "fresh_kernel d dsz r" and sb: "1 < dsz" "sb_logstart (dec_sb (d 1)) = st" "int (sb_nlog (dec_sb (d 1))) = lsz"
    and ok: "log_disk_ok st lsz dsz d n"
  obtains t where "reboot r = Inr ((), t)" "bcache_inv t" "lh_n t = 0" "bpinned t = {}" "bheld t = {}"
    "log_start t = st" "log_size t = lsz" "log_dev t = 1" "disksize t = dsz"
    "bview t = memdisk t" "memdisk t = apply_writes d (recover_writes st d n)"
    "disk_writes t = disk_writes r @ recover_writes st d n"
    "length (lh_block t) = LOGSIZE" "log_outstanding t = log_outstanding r" "log_committing t = log_committing r"
proof -
  have r: "bio_boot r" "memdisk r = d" "disksize r = dsz" "length (lh_block r) = LOGSIZE"
    using f by (auto simp: fresh_kernel_def)
  obtain s where s: "binit r = Inr ((), s)" "bio_frame r s" "bview s = d" "bpinned s = {}" "bheld s = {}"
    "memdisk s = d" "disk_writes s = disk_writes r"
    using binit_spec [OF r(1)] r(2) by metis
  note gs = frameD [OF s(2)] log_frame [OF frameD(2) [OF s(2)]]
  let ?s = "s\<lparr>log_lock := init_lock ''log'' (log_lock s)\<rparr>"
  have vs: "bcache_inv ?s" "bview ?s = d" "bpinned ?s = {}" "bheld ?s = {}"
    using views_cong [of ?s s] gs s by simp_all
  have mr: "may_read ?s 1" using vs gs r sb(1) by (simp add: may_read_def NBUF_def)
  obtain u where u0: "readsb 1 ?s = Inr (dec_sb (bview ?s 1), u)" "bio_frame ?s u" "bview u = bview ?s"
    "bpinned u = bpinned ?s" "bheld u = bheld ?s" "(memdisk u, disk_writes u) = (memdisk ?s, disk_writes ?s)"
    unfolding readsb_def by (rule bio.peek [OF vs(1) mr, of dec_sb]) blast
  then have u: "readsb 1 ?s = Inr (dec_sb (d 1), u)" "bio_frame ?s u" "bview u = d"
    "bpinned u = {}" "bheld u = {}" "memdisk u = d" "disk_writes u = disk_writes r"
    unfolding vs using s(6,7) by auto
  note gu = frameD [OF u(2)] log_frame [OF frameD(2) [OF u(2)]]
  let ?u = "u\<lparr>log_start := st, log_size := lsz, log_dev := 1\<rparr>"
  have vu: "bcache_inv ?u" "bpinned ?u = {}" "bheld ?u = {}"
    using views_cong [of ?u u] gu u by simp_all
  have vu2: "log_dev ?u = 1" "length (lh_block ?u) = LOGSIZE"
    "log_disk_ok (log_start ?u) (log_size ?u) (disksize ?u) (memdisk ?u) n"
    using gu gs r ok by (simp_all add: u)
  obtain t where t: "recover_from_log ?u = Inr ((), t)" "log_same ?u t" "bcache_inv t" "lh_n t = 0"
    "bpinned t = {}" "bheld t = {}" "bview t = memdisk t"
    "memdisk t = apply_writes d (recover_writes st d n)"
    "disk_writes t = disk_writes r @ recover_writes st d n" "length (lh_block t) = LOGSIZE"
    by (rule recover_spec [OF vu vu2]) (simp_all add: u)
  have "reboot r = Inr ((), t)"
    using s(1) u(1) t(1) sb(2,3)
    by (simp add: reboot_def initlog_def kmonad_simps BSIZE_def LOGSIZE_def MAXOPBLOCKS_def)
  then show thesis
    using t gu gs r by (intro that [of t]) (auto simp: log_same_def)
qed

lemma sint_small: "n < 2147483648 \<Longrightarrow> sint (of_nat n :: uint) = int n"
  by (simp add: signed_of_nat signed_take_bit_int_eq_self)

lemma get_enc_head_sint:
  assumes "n \<le> LOGSIZE" and "4 + 4 * LOGSIZE \<le> length d"
  shows "sint (get32 (enc_head d n bs) 0) = int n"
proof -
  have "4 + 4 * n \<le> length d" "n < 2147483648" using assms by (auto simp: LOGSIZE_def MAXOPBLOCKS_def)
  then show ?thesis by (simp add: get_enc_head sint_small)
qed

text \<open>The three phases of a commit, as seen by a recovery from a prefix of its writes.\<close>

lemma take_phases:
  "take k (A @ [x] @ C @ [y]) =
    (if k \<le> length A then take k A
     else if k \<le> length A + 1 + length C then A @ [x] @ take (k - length A - 1) C
     else A @ [x] @ C @ [y])"
proof (cases "k \<le> length A")
  case False
  then obtain j where "k = length A + Suc j" by (metis add_Suc_right less_iff_Suc_add not_le)
  then show ?thesis by (cases "j \<le> length C") auto
qed simp

lemma log_copies_out:
  "b \<notin> {st..st + n} \<Longrightarrow> apply_writes d (take j (log_copies v st bs n)) b = d b"
  by (rule apply_writes_other) (auto simp: log_copies_def dest!: in_set_takeD)

lemma log_copies_head: "apply_writes d (take j (log_copies v st bs n)) st = d st"
  by (rule apply_writes_other) (auto simp: log_copies_def dest!: in_set_takeD)

lemma home_copies_out:
  assumes "\<And>i. i < n \<Longrightarrow> bs ! i \<noteq> b"
  shows "apply_writes d (take j (map (\<lambda>i. (bs ! i, g i)) [0..<n])) b = d b"
  by (rule apply_writes_other) (use assms in \<open>fastforce dest!: in_set_takeD\<close>)

lemma apply_writes_agree:
  "(\<And>b x. (b, x) \<in> set ws \<Longrightarrow> b = bn \<Longrightarrow> x = v) \<Longrightarrow> d bn = v \<or> bn \<in> fst ` set ws \<Longrightarrow>
    apply_writes d ws bn = v"
proof (induction ws arbitrary: d)
  case (Cons w ws)
  have "apply_writes (d(fst w := snd w)) ws bn = v"
  proof (rule Cons.IH)
    show "x = v" if "(b, x) \<in> set ws" "b = bn" for b x using Cons.prems(1) [of b x] that by simp
    show "(d(fst w := snd w)) bn = v \<or> bn \<in> fst ` set ws"
      using Cons.prems(1) [of "fst w" "snd w"] Cons.prems(2) by auto
  qed
  then show ?case by simp
qed simp

text \<open>Recovering a disk whose header holds \<open>n\<close> and the blocks \<open>bs\<close>, with the new contents in the log.\<close>

lemma recover_homes:
  assumes "4 + 4 * n \<le> length h0" and "n \<le> length bs" and "\<And>i. i < n \<Longrightarrow> bs ! i < 4294967296"
    and "d st = enc_head h0 n bs" and "\<And>i. i < n \<Longrightarrow> d (st + i + 1) = v (bs ! i)"
    and "b \<noteq> st" and "(\<exists>i < n. bs ! i = b) \<or> d b = v b"
  shows "apply_writes d (recover_writes st d n) b = v b"
proof -
  have "dec_head (d st) n = take n bs" unfolding assms(4) using assms(1-3) by (intro dec_enc_head)
  then have w: "recover_writes st d n = map (\<lambda>i. (bs ! i, v (bs ! i))) [0..<n] @ [(st, put32 (d st) 0 0)]"
    using assms(5) by (simp add: recover_writes_def)
  have "apply_writes d (map (\<lambda>i. (bs ! i, v (bs ! i))) [0..<n]) b = v b"
    using assms(7) by (intro apply_writes_agree) (auto simp: image_image)
  then show ?thesis using assms(6) by (simp add: w)
qed

lemma recover_empty: "b \<noteq> st \<Longrightarrow> apply_writes d (recover_writes st d 0) b = d b"
  by (simp add: recover_writes_def)

text \<open>A usable header, from a header block that was written for the blocks \<open>bs\<close>.\<close>

lemma log_disk_ok_enc:
  assumes "d st = enc_head h0 n bs" and "4 + 4 * LOGSIZE \<le> length h0" and "n \<le> LOGSIZE" "length bs = LOGSIZE"
    and "int n < lsz" and "int st + lsz \<le> int dsz" and "dsz < 4294967296"
    and "\<And>i. i < n \<Longrightarrow> bs ! i < dsz \<and> (bs ! i < st \<or> int st + lsz \<le> int (bs ! i))"
  shows "log_disk_ok st lsz dsz d n"
proof -
  have "dec_head (d st) n = take n bs"
    unfolding assms(1) using assms by (intro dec_enc_head) (auto intro: less_trans)
  then have "b \<in> set (dec_head (d st) n) \<Longrightarrow> \<exists>i < n. b = bs ! i" for b
    using assms(3,4) by (auto simp: in_set_conv_nth)
  then show ?thesis
    unfolding log_disk_ok_def using assms get_enc_head_sint [OF assms(3,2), of bs] by auto
qed

lemma log_disk_ok_0:
  "get32 (d st) 0 = 0 \<Longrightarrow> 0 < lsz \<Longrightarrow> int st + lsz \<le> int dsz \<Longrightarrow> log_disk_ok st lsz dsz d 0"
  by (simp add: log_disk_ok_def dec_head_def)

lemma crash_commit:
  fixes s :: "'a fslog_scheme"
  assumes li: "log_inv s" and held: "bheld s = {}"
    and d: "d = apply_writes (memdisk s) (take k (commit_writes s))"
  shows "\<exists>m. log_disk_ok (log_start s) (log_size s) (disksize s) d m \<and>
    (\<forall>bn. home s bn \<longrightarrow> apply_writes d (recover_writes (log_start s) d m) bn =
      (if k \<le> nat (lh_n s) then memdisk s bn else bview s bn))"
proof -
  let ?bs = "lh_block s" and ?st = "log_start s" and ?v = "bview s"
  have inv: "bcache_inv s" using li by (simp add: log_inv_def)
  obtain n where n: "nat (lh_n s) = n" "n \<le> LOGSIZE" "\<And>i. i < n \<Longrightarrow> ?bs ! i \<in> bpinned s"
    "?st + n < disksize s" "int n < log_size s" "bpinned s = (\<lambda>i. ?bs ! i) ` {..<n}"
    "\<And>i. i < n \<Longrightarrow> ?bs ! i < 4294967296"
    by (rule log_invD [OF li]) blast
  have sz: "int ?st + log_size s \<le> int (disksize s)" "length ?bs = LOGSIZE" "get32 (memdisk s ?st) 0 = 0"
    "disksize s < 4294967296" using li by (auto simp: log_inv_def)
  have pin: "?bs ! i < disksize s \<and> (?bs ! i < ?st \<or> int ?st + log_size s \<le> int (?bs ! i))" if "i < n" for i
    using li n(3) [OF that] by (auto simp: log_inv_def)
  have len: "4 + 4 * LOGSIZE \<le> length (?v ?st)" using bview_len [OF inv, of ?st] n(4) by simp
  have hout: "b \<notin> {?st..?st + n}" "b \<noteq> ?st" if "home s b" for b using that n(5) by (auto simp: home_def)
  have unp: "?v b = memdisk s b" if "\<not> (\<exists>i < n. ?bs ! i = b)" for b
    using bview_disk [OF inv, of b] held n(6) that by auto
  let ?h = "enc_head (?v ?st) n ?bs"
  let ?w1 = "log_copies ?v ?st ?bs n" and ?w3 = "map (\<lambda>i. (?bs ! i, ?v (?bs ! i))) [0..<n]"
  have W: "commit_writes s = ?w1 @ [(?st, ?h)] @ ?w3 @ [(?st, put32 ?h 0 0)]"
    by (simp add: commit_writes_def Let_def n(1) enc_head_0)
  let ?d1 = "(apply_writes (memdisk s) ?w1)(?st := ?h)"
  have w3: "apply_writes d' (take j ?w3) (?st + i) = d' (?st + i)" if "i \<le> n" for d' j i
    using that pin n(5) by (intro home_copies_out) fastforce
  have l1: "length ?w1 = n" by (simp add: log_copies_def)
  have c1: "?d1 b = memdisk s b" if "home s b" for b
    using log_copies_out [OF hout(1) [OF that], of "memdisk s" n ?v ?bs] hout(2) [OF that] by (simp add: l1)
  consider (old) "k \<le> n" | (redo) "n < k" "k \<le> 2 * n + 1" | (ended) "2 * n + 1 < k" by linarith
  then show ?thesis
  proof cases
    case old
    then have e: "d = apply_writes (memdisk s) (take k ?w1)" unfolding d W take_phases by (simp add: l1)
    have "log_disk_ok ?st (log_size s) (disksize s) d 0"
      using sz n(5) by (intro log_disk_ok_0) (simp_all add: e log_copies_head)
    moreover have "d b = memdisk s b" if "home s b" for b
      using log_copies_out [OF hout(1) [OF that]] by (simp add: e)
    ultimately show ?thesis using old hout by (intro exI [of _ 0]) (simp add: n(1) recover_empty)
  next
    case redo
    then have e: "d = apply_writes ?d1 (take (k - n - 1) ?w3)" unfolding d W take_phases by (simp add: l1)
    have h: "d ?st = ?h" using w3 [of 0] by (simp add: e)
    have lg: "d (?st + i + 1) = ?v (?bs ! i)" if "i < n" for i
      using w3 [of "i + 1"] log_copies_lookup [OF that] that by (simp add: e)
    have "log_disk_ok ?st (log_size s) (disksize s) d n"
      by (rule log_disk_ok_enc [where d = d and st = ?st, OF h len n(2) sz(2) n(5) sz(1,4) pin])
    moreover have "apply_writes d (recover_writes ?st d n) b = ?v b" if "home s b" for b
    proof (rule recover_homes [where d = d and st = ?st and v = ?v, OF _ _ n(7) h lg hout(2) [OF that]])
      show "(\<exists>i < n. ?bs ! i = b) \<or> d b = ?v b"
      proof (cases "\<exists>i < n. ?bs ! i = b")
        case False
        then have "d b = ?d1 b" unfolding e by (intro home_copies_out) auto
        then show ?thesis using unp [OF False] c1 [OF that] by simp
      qed simp
    qed (use len n(2) sz(2) in auto)
    ultimately show ?thesis using redo by (intro exI [of _ n]) (simp add: n(1))
  next
    case ended
    then have e: "d = (apply_writes ?d1 ?w3)(?st := put32 ?h 0 0)" unfolding d W take_phases by (simp add: l1)
    have "length ?h = length (?v ?st)" using len n(2) by (intro enc_head_length) simp
    then have "3 < length ?h" using len by linarith
    then have "log_disk_ok ?st (log_size s) (disksize s) d 0"
      using sz n(5) by (intro log_disk_ok_0) (simp_all add: e)
    moreover have "d b = ?v b" if "home s b" for b
    proof -
      have "apply_writes ?d1 ?w3 b = ?v b"
      proof (rule apply_writes_agree)
        show "?d1 b = ?v b \<or> b \<in> fst ` set ?w3"
          using unp [of b] c1 [OF that] by (cases "\<exists>i < n. ?bs ! i = b") (auto simp: image_image)
      qed auto
      then show ?thesis using hout [OF that] by (simp add: e)
    qed
    ultimately show ?thesis using ended hout by (intro exI [of _ 0]) (simp add: n(1) recover_empty)
  qed
qed

lemma commit_writes_other:
  fixes s :: "'a fslog_scheme"
  assumes li: "log_inv s" and "home s b" and "b \<notin> bpinned s"
  shows "apply_writes d (take k (commit_writes s)) b = d b"
proof (rule apply_writes_other)
  obtain n where n: "lh_n s = int n" "int n < log_size s" "bpinned s = (\<lambda>i. lh_block s ! i) ` {..<n}"
    by (rule log_invD [OF li]) blast
  have "b \<notin> fst ` set (commit_writes s)"
    using assms(2,3) n by (auto simp: commit_writes_def Let_def log_copies_def home_def image_iff)
  then show "b \<notin> fst ` set (take k (commit_writes s))" using set_take_subset by fastforce
qed

section \<open>Properties\<close>

text \<open>C11. Crash atomicity of a commit: \<open>commit\<close> returns after writing a fixed sequence of blocks; if
  the machine stops after any number \<open>k\<close> of these writes and restarts, \<open>initlog\<close> recovers a disk
  on which every block outside the log has its old contents (when the header had not been written,
  \<open>k \<le> n\<close>), or every one has its new contents (otherwise).  No mixture is possible.\<close>

theorem commit_crash_atomic:
  fixes s :: "'a fslog_scheme"
  assumes "log_inv s" and "bheld s = {}" and "0 < lh_n s"
    and "home s 1" and "1 \<notin> bpinned s" and "1 < disksize s"
    and "sb_logstart (dec_sb (memdisk s 1)) = log_start s" and "int (sb_nlog (dec_sb (memdisk s 1))) = log_size s"
  shows "\<exists>t ws. commit s = Inr ((), t) \<and> disk_writes t = disk_writes s @ ws \<and>
    (\<forall>k \<le> length ws. \<forall>r :: 'a fslog_scheme. fresh_kernel (apply_writes (memdisk s) (take k ws)) (disksize s) r \<longrightarrow>
      (\<exists>u. reboot r = Inr ((), u) \<and>
        (\<forall>bn. home s bn \<longrightarrow> bview u bn = (if k \<le> nat (lh_n s) then memdisk s bn else bview s bn))))"
proof -
  obtain t where t: "commit s = Inr ((), t)" "disk_writes t = disk_writes s @ commit_writes s"
    by (rule commit_spec [OF assms(1-3)])
  have "\<exists>u. reboot r = Inr ((), u) \<and>
      (\<forall>bn. home s bn \<longrightarrow> bview u bn = (if k \<le> nat (lh_n s) then memdisk s bn else bview s bn))"
    if r: "fresh_kernel (apply_writes (memdisk s) (take k (commit_writes s))) (disksize s) r"
    for k and r :: "'a fslog_scheme"
  proof -
    let ?d = "apply_writes (memdisk s) (take k (commit_writes s))"
    obtain m where m: "log_disk_ok (log_start s) (log_size s) (disksize s) ?d m"
      "\<And>bn. home s bn \<Longrightarrow> apply_writes ?d (recover_writes (log_start s) ?d m) bn =
        (if k \<le> nat (lh_n s) then memdisk s bn else bview s bn)"
      using crash_commit [OF assms(1,2) refl, of k] by blast
    have one: "?d 1 = memdisk s 1" by (rule commit_writes_other [OF assms(1,4,5)])
    obtain u where "reboot r = Inr ((), u)" "bview u = memdisk u"
      "memdisk u = apply_writes ?d (recover_writes (log_start s) ?d m)"
      by (rule reboot_spec [OF r assms(6) _ _ m(1)]) (use one assms(7,8) in auto)
    with m(2) show ?thesis by auto
  qed
  with t show ?thesis by blast
qed

subsection \<open>log_write, begin_op and end_op\<close>

lemma absorb_spec:
  assumes "i \<le> n" and "n \<le> length bs"
  shows "absorb bs bn i n = (case find (\<lambda>j. bs ! j = bn) [i..<n] of Some j \<Rightarrow> j | None \<Rightarrow> n)"
  using assms(1)
proof (induction "n - i" arbitrary: i)
  case 0
  then show ?case by (simp add: absorb.simps)
next
  case (Suc k)
  then have "i < n" by simp
  with Suc show ?case by (simp add: absorb.simps [of bs bn i] upt_conv_Cons)
qed

lemma absorb_cases:
  assumes "n \<le> length bs"
  obtains (old) "absorb bs bn 0 n < n" "bs ! absorb bs bn 0 n = bn" "bn \<in> set (take n bs)"
  | (new) "absorb bs bn 0 n = n" "bn \<notin> set (take n bs)"
proof (cases "find (\<lambda>j. bs ! j = bn) [0..<n]")
  case None
  then have "\<And>j. j < n \<Longrightarrow> bs ! j \<noteq> bn" by (simp add: find_None_iff)
  then show thesis using absorb_spec [of 0 n bs bn] None assms
    by (intro new) (auto simp: in_set_conv_nth)
next
  case (Some j)
  then have j: "j < n" "bs ! j = bn" using find_SomeD [OF Some] by auto
  then show thesis using absorb_spec [of 0 n bs bn] Some assms
    by (intro old) (auto simp: in_set_conv_nth intro!: exI [of _ j])
qed

lemma take_snoc_update: "n < length xs \<Longrightarrow> take (Suc n) (xs[n := x]) = take n xs @ [x]"
  by (simp add: take_Suc_conv_app_nth)

text \<open>The blocks of the running transaction.\<close>

definition logged :: "'a fslog_scheme \<Rightarrow> nat list" where
  "logged s = take (nat (lh_n s)) (lh_block s)"

lemma log_write_log:
  fixes s :: "'a fslog_scheme" and b :: nat
  assumes len: "length (lh_block s) = LOGSIZE" and n: "0 \<le> lh_n s" "lh_n s < int LOGSIZE" "lh_n s < log_size s - 1"
    and out: "1 \<le> log_outstanding s"
  defines "bn \<equiv> b_blockno (bcache s b)"
  obtains t bs m where "log_write b s = Inr ((), t)"
    "t = upd_buf b (\<lambda>x. x\<lparr>b_dirty := True\<rparr>) (s\<lparr>lh_block := bs, lh_n := m\<rparr>)"
    "length bs = LOGSIZE" "take (nat m) bs = (if bn \<in> set (logged s) then logged s else logged s @ [bn])"
    "m = (if bn \<in> set (logged s) then lh_n s else lh_n s + 1)"
proof -
  let ?n = "nat (lh_n s)" and ?i = "absorb (lh_block s) bn 0 (nat (lh_n s))"
  have nl: "?n < length (lh_block s)" using len n by simp
  have nb: "\<not> (lh_n s \<ge> int LOGSIZE \<or> lh_n s \<ge> log_size s - 1)" using n by simp
  show thesis
  proof (rule absorb_cases [of ?n "lh_block s" bn])
    assume old: "?i < ?n" "lh_block s ! ?i = bn" "bn \<in> set (take ?n (lh_block s))"
    let ?t = "upd_buf b (\<lambda>x. x\<lparr>b_dirty := True\<rparr>) (s\<lparr>lh_block := lh_block s, lh_n := lh_n s\<rparr>)"
    have id: "s\<lparr>lh_block := lh_block s, lh_n := lh_n s\<rparr> = s" "s\<lparr>lh_block := lh_block s\<rparr> = s" by (cases s, simp)+
    have lu: "(lh_block s)[?i := bn] = lh_block s" using old(2) by (metis list_update_id)
    have ne: "int ?i \<noteq> lh_n s" using old(1) by linarith
    have "log_write b s = Inr ((), ?t)"
      using nb out old(1) ne nl len n lu unfolding log_write_def bn_def
      by (simp add: kmonad_simps lh_set_def id)
    then show thesis using old(3) len by (intro that [of ?t "lh_n s" "lh_block s"]) (simp_all add: logged_def)
  next
    assume new: "?i = ?n" "bn \<notin> set (take ?n (lh_block s))"
    let ?t = "upd_buf b (\<lambda>x. x\<lparr>b_dirty := True\<rparr>)
      (s\<lparr>lh_block := (lh_block s)[?n := bn], lh_n := lh_n s + 1\<rparr>)"
    have "log_write b s = Inr ((), ?t)"
    proof -
      have "?n < LOGSIZE" "\<not> log_outstanding s < 1" "int ?n = lh_n s" using nl len out n by auto
      then show ?thesis
        using nb by (simp add: log_write_def kmonad_simps lh_set_def bn_def [symmetric] new(1))
    qed
    then show thesis using new(2) len n nl
      by (intro that [of ?t "lh_n s + 1" "(lh_block s)[?n := bn]"])
        (simp_all add: logged_def nat_add_distrib take_snoc_update)
  qed (use nl in simp)
qed

lemma log_write_spec:
  fixes s :: "'a fslog_scheme"
  assumes li: "log_inv s" and at: "buf_at s b bn" and hm: "home s bn"
    and n: "lh_n s < log_size s - 1" and out: "1 \<le> log_outstanding s"
  obtains t where "log_write b s = Inr ((), t)" "log_inv t" "log_same s t" "bview t = bview s"
    "bpinned t = insert bn (bpinned s)" "bheld t = bheld s" "buf_at t = buf_at s" "memdisk t = memdisk s"
    "disk_writes t = disk_writes s" "set (logged t) = insert bn (set (logged s))"
proof -
  have inv: "bcache_inv s" and len: "length (lh_block s) = LOGSIZE" and n0: "0 \<le> lh_n s"
    and sz: "log_size s \<le> int NBUF" using li by (auto simp: log_inv_def)
  have nl: "lh_n s < int LOGSIZE" using n sz by (simp add: NBUF_def LOGSIZE_def MAXOPBLOCKS_def)
  note a = buf_atD [OF inv at]
  obtain t bs m where t: "log_write b s = Inr ((), t)"
    "t = upd_buf b (\<lambda>x. x\<lparr>b_dirty := True\<rparr>) (s\<lparr>lh_block := bs, lh_n := m\<rparr>)"
    "length bs = LOGSIZE" "take (nat m) bs = (if bn \<in> set (logged s) then logged s else logged s @ [bn])"
    "m = (if bn \<in> set (logged s) then lh_n s else lh_n s + 1)"
    using log_write_log [OF len n0 nl n out, of b] a(4) by metis
  let ?s = "s\<lparr>lh_block := bs, lh_n := m\<rparr>"
  have vs: "bcache_inv ?s = bcache_inv s" "bview ?s = bview s" "bpinned ?s = bpinned s" "bheld ?s = bheld s"
    "buf_at ?s = buf_at s" by (rule views_cong; simp)+
  have ps: "bio_frame ?s t" "\<And>c cn. buf_at t c cn = buf_at ?s c cn" "bview t = bview ?s"
    "bpinned t = insert bn (bpinned ?s)" "bheld t = bheld ?s"
    unfolding t(2) using pin_spec [of ?s b bn] inv at by (simp_all add: vs)
  note g = frameD [OF ps(1)] log_frame [OF frameD(2) [OF ps(1)]]
  have same: "log_same s t" "lh_n t = m" "lh_block t = bs" "memdisk t = memdisk s" "disk_writes t = disk_writes s"
    using g unfolding log_same_def by (simp_all add: t(2))
  have lt: "logged t = (if bn \<in> set (logged s) then logged s else logged s @ [bn])"
    using t(4) by (simp add: logged_def [of t] same)
  have old: "bpinned s = set (logged s)" "distinct (logged s)" "log_dev s = 1"
    "int (log_start s) + log_size s \<le> int (disksize s)" "disksize s < 4294967296"
    "\<And>x. x \<in> bpinned s \<Longrightarrow> x < disksize s \<and> home s x" "get32 (memdisk s (log_start s)) 0 = 0"
    using li by (auto simp: log_inv_def logged_def home_def)
  have f: "log_start t = log_start s" "log_size t = log_size s" "log_dev t = 1" "disksize t = disksize s"
    using same(1) old(3) by (simp_all add: log_same_def)
  have "log_inv t"
    unfolding log_inv_def logged_def [symmetric]
  proof (intro conjI ballI)
    show "bpinned t = set (logged t)" "distinct (logged t)" using old(1,2) by (auto simp: ps vs lt)
    fix x assume "x \<in> bpinned t"
    then show "x < disksize t" "x < log_start t \<or> int (log_start t) + log_size t \<le> int x"
      using old(6) [of x] hm a(6) by (auto simp: ps vs home_def f)
  qed (use g n nl n0 t(3,5) sz old in \<open>simp_all add: f same\<close>)
  then show thesis
    using t(1) same ps lt vs by (intro that [of t]) (auto simp: fun_eq_iff)
qed

lemma begin_op_spec:
  fixes s :: "'a fslog_scheme"
  assumes "log_inv s" and "\<not> log_committing s"
    and "lh_n s + (log_outstanding s + 1) * int MAXOPBLOCKS \<le> int LOGSIZE"
  obtains t where "begin_op s = Inr ((), t)" "log_inv t" "t = s\<lparr>log_outstanding := log_outstanding s + 1\<rparr>"
    "bview t = bview s" "bpinned t = bpinned s" "bheld t = bheld s" "buf_at t = buf_at s"
proof -
  let ?t = "s\<lparr>log_outstanding := log_outstanding s + 1\<rparr>"
  have v: "bcache_inv ?t = bcache_inv s" "bview ?t = bview s" "bpinned ?t = bpinned s" "bheld ?t = bheld s"
    "buf_at ?t = buf_at s" by (rule views_cong; simp)+
  have "log_inv ?t" using assms(1) by (simp add: log_inv_def v)
  with assms(2,3) v show thesis by (intro that [of ?t]) (simp_all add: begin_op_def)
qed

text \<open>Whatever the cache operations do, they leave the log structure alone.\<close>

lemma upd_more: "bio.more (upd_buf b f s) = bio.more s"
  by simp

lemma iderw_more: "iderw b s = Inr ((), t) \<Longrightarrow> bio.more t = bio.more s"
  by (auto simp: iderw_def kbind_def kthen_def kget_def kmod_def kpanic_def split: if_splits sum.splits)

lemma buf_acquiresleep_more: "buf_acquiresleep b s = Inr ((), t) \<Longrightarrow> bio.more t = bio.more s"
  by (auto simp: buf_acquiresleep_def split: sum.splits)

lemma bget_more: "bget dev bn s = Inr (b, t) \<Longrightarrow> bio.more t = bio.more s"
  by (auto simp: bget_def kthen_eq_Inr kmod_def kret_def dest!: buf_acquiresleep_more split: option.splits)

lemma bread_more: "bread dev bn s = Inr (b, t) \<Longrightarrow> bio.more t = bio.more s"
  by (auto simp: bread_def kbind_eq_Inr kthen_eq_Inr kget_def kret_def dest!: bget_more iderw_more split: if_splits)

lemma bwrite_more: "bwrite b s = Inr ((), t) \<Longrightarrow> bio.more t = bio.more s"
  by (auto simp: bwrite_def kbind_eq_Inr kthen_eq_Inr kget_def kmod_def kpanic_def dest!: iderw_more split: if_splits)

lemma link_more: "bio.more (set_next b v s) = bio.more s" "bio.more (set_prev b v s) = bio.more s"
  by (simp_all add: set_next_def set_prev_def)

lemma brelse_more: "brelse b s = Inr ((), t) \<Longrightarrow> bio.more t = bio.more s"
  by (auto simp: brelse_def link_front_def kbind_eq_Inr kthen_eq_Inr kget_def kmod_def kpanic_def kret_def link_more
      split: if_splits)

lemma buf_store_more: "buf_store b f s = Inr ((), t) \<Longrightarrow> bio.more t = bio.more s"
  by (auto simp: buf_store_def kmod_def)

lemma write_head_more:
  assumes "write_head (s :: 'a fslog_scheme) = Inr ((), t)" shows "bio.more t = bio.more s"
proof -
  have lp: "kfor xs (\<lambda>i. kbind (lh_get i) (\<lambda>v. buf_store b (\<lambda>d. put32 d (4 + 4 * i) (of_nat v)))) u = Inr ((), w)
      \<Longrightarrow> bio.more w = bio.more u" for xs :: "nat list" and b and u w :: "'a fslog_scheme"
    by (induction xs arbitrary: u)
      (auto simp: kbind_eq_Inr kthen_eq_Inr kret_def lh_get_def kget_def kundef_def dest!: buf_store_more split: if_splits)
  from assms show ?thesis
    by (auto simp: write_head_def kbind_eq_Inr kthen_eq_Inr kget_def
        dest!: bread_more buf_store_more bwrite_more brelse_more lp split: if_splits)
qed

lemma commit_lh_n:
  assumes "commit (s :: 'a fslog_scheme) = Inr ((), t)" and "0 \<le> lh_n s"
  shows "lh_n t = 0"
proof (cases "0 < lh_n s")
  case True
  then obtain u where "write_head (u\<lparr>lh_n := 0\<rparr>) = Inr ((), t)"
    using assms(1) by (auto simp: commit_def kbind_eq_Inr kthen_eq_Inr kget_def kmod_def)
  then have "bio.more t = bio.more (u\<lparr>lh_n := 0\<rparr>)" by (rule write_head_more)
  then show ?thesis using log_frame(4) by fastforce
next
  case False
  then show ?thesis using assms by (auto simp: commit_def kbind_eq_Inr kget_def kret_def)
qed

subsection \<open>A sample file system\<close>

definition disk_ex :: "nat \<Rightarrow> uchar list" where
  "disk_ex bn = (if bn = 1 then put32 (put32 (replicate 512 0) 12 4) 16 2 else replicate 512 0)"

definition log_ex :: fslog where
  "log_ex = bio.extend (bio_ex\<lparr>memdisk := disk_ex, disksize := 10\<rparr>)
     \<lparr>log_lock = \<lparr>locked = False, lkname = [], lkcpu = None, pcs = []\<rparr>, log_start = 0, log_size = 0,
      log_outstanding = 0, log_committing = False, log_dev = 0, lh_n = 0, lh_block = replicate LOGSIZE 0\<rparr>"

lemma reboot_log_inv:
  fixes r :: "'a fslog_scheme"
  assumes f: "fresh_kernel d dsz r" and sb: "1 < dsz" "sb_logstart (dec_sb (d 1)) = st" "int (sb_nlog (dec_sb (d 1))) = lsz"
    and ok: "log_disk_ok st lsz dsz d n" and sz: "lsz \<le> int NBUF" "dsz < 4294967296"
  obtains t where "reboot r = Inr ((), t)" "log_inv t" "lh_n t = 0" "bheld t = {}"
    "log_start t = st" "log_size t = lsz" "disksize t = dsz" "bview t = memdisk t"
    "memdisk t = apply_writes d (recover_writes st d n)"
    "log_outstanding t = log_outstanding r" "log_committing t = log_committing r"
proof -
  obtain t where t: "reboot r = Inr ((), t)" "bcache_inv t" "lh_n t = 0" "bpinned t = {}" "bheld t = {}"
    "log_start t = st" "log_size t = lsz" "log_dev t = 1" "disksize t = dsz"
    "bview t = memdisk t" "memdisk t = apply_writes d (recover_writes st d n)" "length (lh_block t) = LOGSIZE"
    "log_outstanding t = log_outstanding r" "log_committing t = log_committing r"
    by (rule reboot_spec [OF f sb ok])
  have "st < dsz" using ok by (auto simp: log_disk_ok_def)
  then have "length (d st) = BSIZE" using f by (auto simp: fresh_kernel_def bio_boot_def)
  then have "get32 (memdisk t st) 0 = 0" by (simp add: t(11) recover_writes_def BSIZE_def)
  moreover have "0 \<le> lsz" "0 < lsz" "int st + lsz \<le> int dsz" using ok by (auto simp: log_disk_ok_def)
  ultimately have "log_inv t"
    using t sz by (simp add: log_inv_def)
  with t show thesis by (intro that [of t]) simp_all
qed

lemma log_ex_fresh: "fresh_kernel disk_ex 10 log_ex"
  by (simp add: fresh_kernel_def bio_boot_def log_ex_def bio.defs bio_ex_simps disk_ex_def BSIZE_def)

lemma disk_ex_sb:
  "sb_logstart (dec_sb (disk_ex 1)) = 2" "int (sb_nlog (dec_sb (disk_ex 1))) = 4"
  by (simp_all add: dec_sb_def disk_ex_def)

lemma disk_ex_ok: "log_disk_ok 2 4 10 disk_ex 0"
  by (simp add: log_disk_ok_def disk_ex_def get32_def dec_head_def)

text \<open>After start-up, a transaction that has logged block 7.\<close>

lemma log_inv_ex:
  obtains s :: fslog where "log_inv s" "bheld s = {}" "lh_n s = 1" "log_start s = 2" "log_size s = 4"
    "disksize s = 10" "bpinned s = {7}" "memdisk s 1 = disk_ex 1" "bview s = memdisk s"
proof -
  obtain r where r: "reboot log_ex = Inr ((), r)" "log_inv r" "lh_n r = 0" "bheld r = {}" "log_start r = 2"
    "log_size r = 4" "disksize r = 10" "bview r = memdisk r" "memdisk r = apply_writes disk_ex (recover_writes 2 disk_ex 0)"
    "log_outstanding r = 0" "\<not> log_committing r"
    by (rule reboot_log_inv [OF log_ex_fresh _ disk_ex_sb disk_ex_ok]) (simp_all add: NBUF_def log_ex_def bio.defs bio_ex_simps)
  obtain t where t: "begin_op r = Inr ((), t)" "log_inv t" "t = r\<lparr>log_outstanding := log_outstanding r + 1\<rparr>"
    "bview t = bview r" "bpinned t = bpinned r" "bheld t = bheld r"
    by (rule begin_op_spec [OF r(2,11)]) (use r in \<open>auto simp: LOGSIZE_def MAXOPBLOCKS_def\<close>)
  have it: "bcache_inv t" "bpinned t = {}" using t(2,3) r(3) by (auto simp: log_inv_def)
  then have "may_read t 7" using t r by (simp add: may_read_def NBUF_def)
  from bread_law [OF it(1) this] obtain b u where u: "bread 1 7 t = Inr (b, u)" "bio_frame t u" "buf_at u b 7"
    "bview u = bview t" "bpinned u = {}" "bheld u = {7}" "memdisk u = memdisk t" using t r it by auto
  note gu = frameD [OF u(2)] log_frame [OF frameD(2) [OF u(2)]]
  have lu: "log_inv u" using t(2) gu u it by (simp add: log_inv_def)
  have pu: "home u 7" "lh_n u < log_size u - 1" "1 \<le> log_outstanding u"
    using gu t(3) r by (simp_all add: home_def)
  obtain v where v: "log_write b u = Inr ((), v)" "log_inv v" "log_same u v" "bview v = bview u"
    "bpinned v = insert 7 (bpinned u)" "bheld v = bheld u" "buf_at v = buf_at u" "memdisk v = memdisk u"
    by (rule log_write_spec [OF lu u(3) pu])
  have iv: "bcache_inv v" using v(2) by (simp add: log_inv_def)
  from brelse_law [OF iv, of b 7] obtain w where w: "brelse b v = Inr ((), w)" "bio_frame v w" "bview w = bview v"
    "bpinned w = bpinned v" "bheld w = {}" "memdisk w = memdisk v" using v u by auto
  note gw = frameD [OF w(2)] log_frame [OF frameD(2) [OF w(2)]]
  have lw: "log_inv w" using v(2) gw w by (simp add: log_inv_def)
  have ls: "log_start w = 2" "log_size w = 4" "disksize w = 10"
    using gw v(3) gu t(3) r by (simp_all add: log_same_def)
  have pw: "bpinned w = {7}" using w v u by simp
  obtain n where n: "lh_n w = int n" "card (bpinned w) = n" by (rule log_invD [OF lw])
  show thesis
  proof (rule that [OF lw w(5) _ ls pw])
    show "lh_n w = 1" using n pw by simp
    show "bview w = memdisk w" using w v u t r(8) by simp
    show "memdisk w 1 = disk_ex 1" using w v u t(3) r(9) by (simp add: recover_writes_def)
  qed
qed

theorem commit_crash_atomic_witness:
  "\<exists>(s :: fslog) t ws. lh_n s = 1 \<and> commit s = Inr ((), t) \<and> disk_writes t = disk_writes s @ ws \<and>
    (\<forall>k \<le> length ws. \<forall>r :: fslog. fresh_kernel (apply_writes (memdisk s) (take k ws)) (disksize s) r \<longrightarrow>
      (\<exists>u. reboot r = Inr ((), u) \<and>
        (\<forall>bn. home s bn \<longrightarrow> bview u bn = (if k \<le> 1 then memdisk s bn else bview s bn))))"
proof -
  obtain s :: fslog where s: "log_inv s" "bheld s = {}" "lh_n s = 1" "log_start s = 2" "log_size s = 4"
    "disksize s = 10" "bpinned s = {7}" "memdisk s 1 = disk_ex 1" by (rule log_inv_ex)
  have h: "0 < lh_n s" "home s 1" "1 \<notin> bpinned s" "1 < disksize s"
    "sb_logstart (dec_sb (memdisk s 1)) = log_start s" "int (sb_nlog (dec_sb (memdisk s 1))) = log_size s"
    using s disk_ex_sb by (simp_all add: home_def)
  have n: "nat (lh_n s) = 1" using s(3) by simp
  from commit_crash_atomic [OF s(1,2) h, unfolded n] s(3) show ?thesis by blast
qed

lemma apply_writes_det: "b \<in> fst ` set ws \<Longrightarrow> apply_writes d ws b = apply_writes d' ws b"
proof (induction ws arbitrary: d d')
  case (Cons w ws)
  show ?case
  proof (cases "b \<in> fst ` set ws")
    case True
    then show ?thesis using Cons.IH by simp
  next
    case False
    then show ?thesis using Cons.prems by (auto simp: apply_writes_other)
  qed
qed simp

lemma apply_writes_redo: "apply_writes (apply_writes d (take k ws)) ws = apply_writes d ws"
proof
  fix b
  show "apply_writes (apply_writes d (take k ws)) ws b = apply_writes d ws b"
  proof (cases "b \<in> fst ` set ws")
    case False
    moreover have "b \<notin> fst ` set (take k ws)" using False set_take_subset by fastforce
    ultimately show ?thesis by (simp add: apply_writes_other)
  qed (rule apply_writes_det)
qed

lemma crash_recover:
  assumes ok: "log_disk_ok st lsz dsz d n" and len: "length (d st) = BSIZE"
    and d': "d' = apply_writes d (take k (recover_writes st d n))"
  shows "\<exists>m. log_disk_ok st lsz dsz d' m \<and> (\<forall>bn. bn < st \<or> int st + lsz \<le> int bn \<longrightarrow>
    apply_writes d' (recover_writes st d' m) bn = apply_writes d (recover_writes st d n) bn)"
proof (cases "k \<le> n")
  case True
  let ?bs = "dec_head (d st) n"
  have nl: "n = length ?bs" by (simp add: dec_head_def)
  have out: "?bs ! i \<noteq> st + j" if "i < n" "j \<le> n" for i j
    using ok nth_mem [of i ?bs] that by (fastforce simp: log_disk_ok_def nl [symmetric])
  have e: "d' = apply_writes d (take k (map (\<lambda>i. (?bs ! i, d (st + i + 1))) [0..<n]))"
    using True by (simp add: d' recover_writes_def)
  have same: "d' (st + j) = d (st + j)" if "j \<le> n" for j
    unfolding e using out that by (intro home_copies_out) auto
  have "recover_writes st d' n = recover_writes st d n"
    unfolding recover_writes_def using same [of 0] same [of "Suc _"] by simp
  moreover have "log_disk_ok st lsz dsz d' n" using ok same [of 0] by (simp add: log_disk_ok_def)
  ultimately show ?thesis by (intro exI [of _ n]) (simp add: d' apply_writes_redo)
next
  case False
  then have e: "d' = apply_writes d (recover_writes st d n)" by (simp add: d' recover_writes_def)
  then have "get32 (d' st) 0 = 0" using len by (simp add: recover_writes_def BSIZE_def)
  then have "log_disk_ok st lsz dsz d' 0" using ok by (intro log_disk_ok_0) (auto simp: log_disk_ok_def)
  moreover have "bn \<noteq> st" if "bn < st \<or> int st + lsz \<le> int bn" for bn
    using that ok by (auto simp: log_disk_ok_def)
  ultimately show ?thesis by (intro exI [of _ 0]) (simp add: recover_empty e)
qed

text \<open>C12. Recovery itself may crash: if the machine stops after any number of the writes of a recovery
  and restarts, the second recovery yields the same blocks outside the log as an undisturbed one.\<close>

theorem recovery_crash_idempotent:
  fixes r r' :: "'a fslog_scheme"
  assumes "fresh_kernel d dsz r" and "1 < dsz" and "log_disk_ok st lsz dsz d n"
    and "sb_logstart (dec_sb (d 1)) = st" and "int (sb_nlog (dec_sb (d 1))) = lsz"
    and "1 < st" and "1 \<notin> set (dec_head (d st) n)"
  shows "\<exists>t ws. reboot r = Inr ((), t) \<and> disk_writes t = disk_writes r @ ws \<and>
    (\<forall>k. fresh_kernel (apply_writes d (take k ws)) dsz r' \<longrightarrow>
      (\<exists>u. reboot r' = Inr ((), u) \<and>
        (\<forall>bn. bn < st \<or> int st + lsz \<le> int bn \<longrightarrow> bview u bn = bview t bn)))"
proof -
  let ?ws = "recover_writes st d n"
  obtain t where t: "reboot r = Inr ((), t)" "bview t = memdisk t" "memdisk t = apply_writes d ?ws"
    "disk_writes t = disk_writes r @ ?ws"
    by (rule reboot_spec [OF assms(1,2,4,5,3)])
  have len: "length (d st) = BSIZE"
    using assms(1,3) by (auto simp: fresh_kernel_def bio_boot_def log_disk_ok_def)
  have "\<exists>u. reboot r' = Inr ((), u) \<and>
      (\<forall>bn. bn < st \<or> int st + lsz \<le> int bn \<longrightarrow> bview u bn = bview t bn)"
    if r': "fresh_kernel (apply_writes d (take k ?ws)) dsz r'" for k
  proof -
    let ?d = "apply_writes d (take k ?ws)"
    obtain m where m: "log_disk_ok st lsz dsz ?d m" "\<And>bn. bn < st \<or> int st + lsz \<le> int bn \<Longrightarrow>
        apply_writes ?d (recover_writes st ?d m) bn = apply_writes d ?ws bn"
      using crash_recover [OF assms(3) len refl, of k] by blast
    have "1 \<notin> fst ` set ?ws"
      using assms(6,7) nth_mem [of _ "dec_head (d st) n"] by (auto simp: recover_writes_def dec_head_def)
    then have "1 \<notin> fst ` set (take k ?ws)" using set_take_subset by fastforce
    then have one: "?d 1 = d 1" by (rule apply_writes_other)
    obtain u where "reboot r' = Inr ((), u)" "bview u = memdisk u"
      "memdisk u = apply_writes ?d (recover_writes st ?d m)"
      by (rule reboot_spec [OF r' assms(2) _ _ m(1)]) (use one assms(4,5) in auto)
    then show ?thesis using m(2) t by auto
  qed
  then show ?thesis using t(1,4) by blast
qed

theorem recovery_crash_idempotent_witness:
  "\<exists>t ws. reboot log_ex = Inr ((), t) \<and> disk_writes t = disk_writes log_ex @ ws \<and>
    (\<forall>k. fresh_kernel (apply_writes disk_ex (take k ws)) 10 log_ex \<longrightarrow>
      (\<exists>u. reboot log_ex = Inr ((), u) \<and>
        (\<forall>bn. bn < 2 \<or> int 2 + 4 \<le> int bn \<longrightarrow> bview u bn = bview t bn)))"
  using recovery_crash_idempotent [OF log_ex_fresh _ disk_ex_ok disk_ex_sb, of log_ex] by (simp add: dec_head_def)

subsection \<open>Reservation of log space by concurrent operations\<close>

text \<open>
  The active file-system operations are a list: for each, how many blocks it has logged so far.  An
  operation keeps to its budget of \<open>MAXOPBLOCKS\<close>; between the steps anything may happen that does
  not touch the log structure.
\<close>

inductive op_step :: "'a fslog_scheme \<times> nat list \<Rightarrow> 'a fslog_scheme \<times> nat list \<Rightarrow> bool" where
  op_begin: "begin_op s = Inr ((), t) \<Longrightarrow> op_step (s, ops) (t, ops @ [0])"
| op_write: "i < length ops \<Longrightarrow> ops ! i < MAXOPBLOCKS \<Longrightarrow> log_write b s = Inr ((), t) \<Longrightarrow>
    op_step (s, ops) (t, ops[i := Suc (ops ! i)])"
| op_end: "end_op s = Inr ((), t) \<Longrightarrow> op_step (s, us @ c # vs) (t, us @ vs)"
| op_other: "bio.more t = bio.more s \<Longrightarrow> op_step (s, ops) (t, ops)"

definition op_init :: "'a fslog_scheme \<times> nat list \<Rightarrow> bool" where
  "op_init c \<longleftrightarrow> (case c of (s, ops) \<Rightarrow> ops = [] \<and> lh_n s = 0 \<and> log_outstanding s = 0 \<and>
     \<not> log_committing s \<and> length (lh_block s) = LOGSIZE)"

definition op_inv :: "'a fslog_scheme \<times> nat list \<Rightarrow> bool" where
  "op_inv c \<longleftrightarrow> (case c of (s, ops) \<Rightarrow> 0 \<le> lh_n s \<and>
     lh_n s + int (sum_list (map (\<lambda>u. MAXOPBLOCKS - u) ops)) \<le> int LOGSIZE \<and>
     log_outstanding s = int (length ops) \<and> \<not> log_committing s \<and> length (lh_block s) = LOGSIZE)"

lemma sum_budget: "sum_list (map (\<lambda>u. MAXOPBLOCKS - u) ops) \<le> length ops * MAXOPBLOCKS"
  by (induction ops) auto

lemma log_write_returnsD:
  assumes "log_write b s = Inr ((), t)"
  shows "lh_n s < int LOGSIZE" "lh_n s < log_size s - 1" "1 \<le> log_outstanding s"
  using assms by (auto simp: log_write_def kbind_def kget_def kpanic_def split: if_splits)

lemma read_head_block_length:
  assumes "length (lh_block s) = n" and "lh_set i v s = Inr ((), t)" shows "length (lh_block t) = n"
  using assms by (auto simp: lh_set_def kmod_def kundef_def split: if_splits)

lemma install_more:
  assumes "install_trans (s :: 'a fslog_scheme) = Inr ((), t)" shows "bio.more t = bio.more s"
proof -
  have lp: "kfor xs install_body u = Inr ((), w) \<Longrightarrow> bio.more w = bio.more u" for xs and u w :: "'a fslog_scheme"
    by (induction xs arbitrary: u)
      (auto simp: kbind_eq_Inr kthen_eq_Inr kret_def lh_get_def kget_def kundef_def copy_block_def
        dest!: bread_more buf_store_more bwrite_more brelse_more split: if_splits)
  have "install_trans s = kfor [0..<nat (lh_n s)] install_body s"
    unfolding install_trans_def by (rule kbind_Inr [OF kget_apply])
  then show ?thesis by (intro lp [OF trans [OF sym assms]])
qed

lemma write_log_more:
  assumes "write_log (s :: 'a fslog_scheme) = Inr ((), t)" shows "bio.more t = bio.more s"
proof -
  have lp: "kfor xs write_log_body u = Inr ((), w) \<Longrightarrow> bio.more w = bio.more u" for xs and u w :: "'a fslog_scheme"
    by (induction xs arbitrary: u)
      (auto simp: kbind_eq_Inr kthen_eq_Inr kret_def lh_get_def kget_def kundef_def copy_block_def
        dest!: bread_more buf_store_more bwrite_more brelse_more split: if_splits)
  have "write_log s = kfor [0..<nat (lh_n s)] write_log_body s"
    unfolding write_log_def by (rule kbind_Inr [OF kget_apply])
  then show ?thesis by (intro lp [OF trans [OF sym assms]])
qed

lemma commit_more:
  assumes "commit (s :: 'a fslog_scheme) = Inr ((), t)" and "0 \<le> lh_n s"
  shows "bio.more t = bio.more (s\<lparr>lh_n := 0\<rparr>)"
proof (cases "0 < lh_n s")
  case True
  then obtain u1 u2 u3 where "write_log s = Inr ((), u1)" "write_head u1 = Inr ((), u2)"
    "install_trans u2 = Inr ((), u3)" "write_head (u3\<lparr>lh_n := 0\<rparr>) = Inr ((), t)"
    using assms(1) by (auto simp: commit_def kbind_eq_Inr kthen_eq_Inr kget_def kmod_def)
  then have "bio.more t = bio.more (u3\<lparr>lh_n := 0\<rparr>)" "bio.more u3 = bio.more s"
    using write_log_more write_head_more install_more by metis+
  then show ?thesis by (cases s, cases u3) simp
next
  case False
  with assms have "t = s" "lh_n s = 0" by (auto simp: commit_def kbind_eq_Inr kget_def kret_def)
  then show ?thesis by (cases s) simp
qed

lemma op_step_inv: "op_step c c' \<Longrightarrow> op_inv c \<Longrightarrow> op_inv c'"
proof (induction rule: op_step.induct)
  case (op_begin s t ops)
  then have t: "t = s\<lparr>log_outstanding := log_outstanding s + 1\<rparr>"
    and le: "lh_n s + (log_outstanding s + 1) * int MAXOPBLOCKS \<le> int LOGSIZE"
    by (auto simp: begin_op_def split: if_splits)
  have "int (sum_list (map (\<lambda>u. MAXOPBLOCKS - u) ops)) \<le> int (length ops) * int MAXOPBLOCKS"
    using sum_budget [of ops] by (metis of_nat_le_iff of_nat_mult)
  then show ?case using op_begin(2) le by (simp add: op_inv_def t algebra_simps)
next
  case (op_write i ops b s t)
  note d = log_write_returnsD [OF op_write(3)]
  have oi: "0 \<le> lh_n s" "length (lh_block s) = LOGSIZE" using op_write(4) by (auto simp: op_inv_def)
  obtain bs m where t: "t = upd_buf b (\<lambda>x. x\<lparr>b_dirty := True\<rparr>) (s\<lparr>lh_block := bs, lh_n := m\<rparr>)"
    "length bs = LOGSIZE" "m = lh_n s \<or> m = lh_n s + 1"
    using log_write_log [OF oi(2,1) d, of b] op_write(3) by (metis Inr_inject prod.inject)
  have "sum_list (map (\<lambda>u. MAXOPBLOCKS - u) (ops[i := Suc (ops ! i)])) + 1 = sum_list (map (\<lambda>u. MAXOPBLOCKS - u) ops)"
    using op_write(1,2) elem_le_sum_list [of i "map (\<lambda>u. MAXOPBLOCKS - u) ops"]
    by (simp add: map_update sum_list_update)
  then show ?case
    using op_write(4) t by (auto simp: op_inv_def upd_buf_def)
next
  case (op_end s t us c vs)
  let ?s = "s\<lparr>log_outstanding := log_outstanding s - 1\<rparr>"
  have i: "0 \<le> lh_n s" "\<not> log_committing s" "log_outstanding s = int (length (us @ c # vs))"
    using op_end(2) by (auto simp: op_inv_def)
  show ?case
  proof (cases "log_outstanding s = 1")
    case True
    then obtain u where u: "commit (?s\<lparr>log_committing := True\<rparr>) = Inr ((), u)" "t = u\<lparr>log_committing := False\<rparr>"
      using op_end(1) i by (auto simp: end_op_def kthen_eq_Inr kbind_eq_Inr kmod_def kget_def)
    have m: "bio.more u = bio.more (?s\<lparr>log_committing := True, lh_n := 0\<rparr>)"
      using commit_more [OF u(1)] i(1) by simp
    have "us @ vs = []" using True i(3) by (cases us; cases vs) auto
    then show ?thesis using log_frame [OF m] op_end(2) True by (simp add: op_inv_def u(2))
  next
    case False
    then have "t = ?s" using op_end(1) i(2) by (auto simp: end_op_def kthen_eq_Inr kbind_eq_Inr kmod_def kget_def kret_def)
    then show ?thesis using op_end(2) by (simp add: op_inv_def)
  qed
next
  case (op_other t s ops)
  then show ?case using log_frame [OF op_other(1)] by (simp add: op_inv_def)
qed

interpretation log_ops: step_invariant op_init op_step op_inv
proof
  show "op_init c \<Longrightarrow> op_inv c" for c :: "'a fslog_scheme \<times> nat list"
    by (auto simp: op_init_def op_inv_def)
qed (rule op_step_inv)

text \<open>C13. Log space is reserved correctly: however the operations interleave, the transaction never
  outgrows \<open>LOGSIZE\<close>; and on a log area with room for the header and \<open>LOGSIZE\<close> blocks, \<open>log_write\<close>
  never panics for an operation within its budget of \<open>MAXOPBLOCKS\<close>.\<close>

theorem log_reservation:
  fixes s :: "'a fslog_scheme"
  assumes "reach op_init op_step (s, ops)" and "i < length ops" and "ops ! i < MAXOPBLOCKS"
    and "int LOGSIZE + 1 \<le> log_size s"
  shows "lh_n s < int LOGSIZE \<and> (\<exists>t. log_write b s = Inr ((), t))"
proof -
  have inv: "op_inv (s, ops)" using assms(1) by (rule log_ops.reach_inv)
  have "MAXOPBLOCKS - ops ! i \<le> sum_list (map (\<lambda>u. MAXOPBLOCKS - u) ops)"
    using assms(2) elem_le_sum_list [of i "map (\<lambda>u. MAXOPBLOCKS - u) ops"] by simp
  then have n: "lh_n s < int LOGSIZE" using inv assms(3) by (auto simp: op_inv_def)
  have o: "1 \<le> log_outstanding s" using inv assms(2) by (auto simp: op_inv_def)
  have "0 \<le> lh_n s" "length (lh_block s) = LOGSIZE" using inv by (auto simp: op_inv_def)
  with log_write_log [OF _ _ n _ o] n assms(4) show ?thesis by (metis add_le_cancel_right add.commute le_diff_eq less_le_trans)
qed

theorem log_reservation_witness:
  "\<exists>t. log_write 5 (log_ex\<lparr>log_size := 31, log_outstanding := 1\<rparr>) = Inr ((), t)"
proof -
  let ?s = "log_ex\<lparr>log_size := 31\<rparr>"
  have i: "op_init (?s, [])" by (simp add: op_init_def log_ex_def bio.defs)
  have "begin_op ?s = Inr ((), ?s\<lparr>log_outstanding := 1\<rparr>)"
    by (simp add: begin_op_def log_ex_def bio.defs LOGSIZE_def MAXOPBLOCKS_def)
  then have r: "reach op_init op_step (?s\<lparr>log_outstanding := 1\<rparr>, [] @ [0])"
    by (intro reach_step [OF reach_init [where init = op_init and step = op_step, OF i]] op_begin)
  have "int LOGSIZE + 1 \<le> log_size (?s\<lparr>log_outstanding := 1\<rparr>)" by (simp add: LOGSIZE_def MAXOPBLOCKS_def)
  from log_reservation [OF r _ _ this, of 0 5] show ?thesis by (simp add: MAXOPBLOCKS_def)
qed

text \<open>Three operations that log \<open>k\<close> distinct blocks between them, one operation after the other.\<close>

definition use3 :: "nat \<Rightarrow> nat list" where
  "use3 k = [min 10 k, min 10 (k - 10), min 10 (k - 20)]"

definition full_ex :: fslog where
  "full_ex = log_ex\<lparr>bcache := (\<lambda>b. (bcache log_ex b)\<lparr>b_blockno := b\<rparr>), log_size := int LOGSIZE\<rparr>"

lemma full_run:
  assumes "k \<le> 29"
  shows "\<exists>s :: fslog. reach op_init op_step (s, use3 k) \<and> lh_n s = int k \<and> logged s = [0..<k] \<and>
    length (lh_block s) = LOGSIZE \<and> log_size s = int LOGSIZE \<and> log_outstanding s = 3 \<and>
    (\<forall>b. b_blockno (bcache s b) = b)"
  using assms
proof (induction k)
  case 0
  let ?s = "\<lambda>k. full_ex\<lparr>log_outstanding := k\<rparr>"
  have f: "lh_n full_ex = 0" "\<not> log_committing full_ex" "log_outstanding full_ex = 0"
    "length (lh_block full_ex) = LOGSIZE"
    by (simp_all add: full_ex_def log_ex_def bio.defs)
  have b: "begin_op (?s k) = Inr ((), ?s (k + 1))" if "k < 3" for k
    using that f by (simp add: begin_op_def LOGSIZE_def MAXOPBLOCKS_def)
  have i: "op_init (?s 0, [])" using f by (simp add: op_init_def)
  have r1: "reach op_init op_step (?s 1, [] @ [0])"
    using reach_step [where step = op_step, OF reach_init [where init = op_init and step = op_step, OF i] op_begin [OF b [of 0]]] by simp
  have r2: "reach op_init op_step (?s 2, ([] @ [0]) @ [0])" using reach_step [where step = op_step, OF r1 op_begin [OF b [of 1]]] by simp
  have r3: "reach op_init op_step (?s 3, (([] @ [0]) @ [0]) @ [0])" using reach_step [where step = op_step, OF r2 op_begin [OF b [of 2]]] by simp
  then show ?case using f
    by (intro exI [of _ "?s 3"]) (simp add: use3_def logged_def full_ex_def log_ex_def bio.defs)
next
  case (Suc k)
  then obtain s :: fslog where s: "reach op_init op_step (s, use3 k)" "lh_n s = int k" "logged s = [0..<k]"
    "length (lh_block s) = LOGSIZE" "log_size s = int LOGSIZE" "log_outstanding s = 3"
    "\<And>b. b_blockno (bcache s b) = b" by auto
  have n: "0 \<le> lh_n s" "lh_n s < int LOGSIZE" "lh_n s < log_size s - 1" "1 \<le> log_outstanding s"
    using s Suc.prems by (simp_all add: LOGSIZE_def MAXOPBLOCKS_def)
  obtain t bs m where t: "log_write k s = Inr ((), t)"
    "t = upd_buf k (\<lambda>x. x\<lparr>b_dirty := True\<rparr>) (s\<lparr>lh_block := bs, lh_n := m\<rparr>)" "length bs = LOGSIZE"
    "take (nat m) bs = [0..<k] @ [k]" "m = int k + 1"
    using log_write_log [OF s(4) n, of k] s(2,3,7) by (metis atLeastLessThan_iff less_irrefl set_upt)
  let ?i = "k div 10"
  have i: "?i < length (use3 k)" "use3 k ! ?i < MAXOPBLOCKS" "(use3 k)[?i := Suc (use3 k ! ?i)] = use3 (Suc k)"
    using Suc.prems
    by (auto simp: use3_def MAXOPBLOCKS_def nth_Cons' list_update_code min_def split: nat.splits)
  have "reach op_init op_step (t, use3 (Suc k))"
    using reach_step [OF s(1) op_write [OF i(1,2) t(1)]] i(3) by simp
  then show ?case
    using t s by (intro exI [of _ t]) (auto simp: logged_def upd_buf_def nat_add_distrib)
qed


end
