(* ===== verification/Fs.thy ===== *)
theory Fs
  imports Log CString
begin

text \<open>
  The file system (\<open>fs.c\<close>, \<open>fs.h\<close>, the inode of \<open>file.h\<close>): block allocator, inodes and their cache,
  file contents, directories and path names, over the log and the block cache.  An inode pointer is an
  index into \<open>icache.inode\<close>; where the code tests for a null pointer it is an option.  The device
  table \<open>devsw\<close> is filled in by the device drivers and is an argument here.  A string argument
  is a list of bytes, and everything behind its end reads as NUL.  \<open>short\<close> fields are 16-bit words,
  \<open>size\<close> and offsets are 32-bit words, block and inode numbers are natural numbers.
\<close>

section \<open>Definitions\<close>

subsection \<open>Constants and data\<close>

definition NINODE :: nat where [param_defs]: "NINODE = 50"

definition NDEV :: nat where [param_defs]: "NDEV = 10"

definition ROOTDEV :: nat where [param_defs]: "ROOTDEV = 1"

definition ROOTINO :: nat where [param_defs]: "ROOTINO = 1"

definition NDIRECT :: nat where [param_defs]: "NDIRECT = 12"

definition NINDIRECT :: nat where [param_defs]: "NINDIRECT = BSIZE div 4"

definition MAXFILE :: nat where [param_defs]: "MAXFILE = NDIRECT + NINDIRECT"

definition DINODE :: nat where [param_defs]: "DINODE = 12 + 4 * (NDIRECT + 1)"

definition IPB :: nat where [param_defs]: "IPB = BSIZE div DINODE"

definition BPB :: nat where [param_defs]: "BPB = BSIZE * 8"

definition DIRSIZ :: nat where [param_defs]: "DIRSIZ = 14"

definition DIRENT :: nat where [param_defs]: "DIRENT = 2 + DIRSIZ"

definition T_DIR :: ushort where [param_defs]: "T_DIR = 1"

definition T_FILE :: ushort where [param_defs]: "T_FILE = 2"

definition T_DEV :: ushort where [param_defs]: "T_DEV = 3"

definition IBLOCK :: "nat \<Rightarrow> superblock \<Rightarrow> nat" where
  "IBLOCK i sb = i div IPB + sb_inodestart sb"

definition BBLOCK :: "nat \<Rightarrow> superblock \<Rightarrow> nat" where
  "BBLOCK b sb = b div BPB + sb_bmapstart sb"

record dinode =
  di_type :: ushort
  di_major :: ushort
  di_minor :: ushort
  di_nlink :: ushort
  di_size :: uint
  di_addrs :: "nat list"

record inode =
  i_dev :: nat
  i_inum :: nat
  i_ref :: int
  i_flock :: sleeplock
  i_lock :: sleeplock
  i_valid :: bool
  i_type :: ushort
  i_major :: ushort
  i_minor :: ushort
  i_nlink :: ushort
  i_size :: uint
  i_addrs :: "nat list"

record fs = fslog +
  fs_sb :: superblock
  icache_lock :: spinlock
  icache :: "nat \<Rightarrow> inode"

record stat =
  st_type :: ushort
  st_dev :: nat
  st_ino :: nat
  st_nlink :: ushort
  st_size :: uint

record 's devsw =
  dev_read :: "(nat \<Rightarrow> uint \<Rightarrow> ('s, int \<times> uchar list) kern) option"
  dev_write :: "(nat \<Rightarrow> uchar list \<Rightarrow> uint \<Rightarrow> ('s, int) kern) option"

definition upd_inode :: "nat \<Rightarrow> (inode \<Rightarrow> inode) \<Rightarrow> 'a fs_scheme \<Rightarrow> 'a fs_scheme" where
  "upd_inode ip f s = s\<lparr>icache := (icache s)(ip := f (icache s ip))\<rparr>"

text \<open>The \<open>struct dinode\<close> laid over a block at \<open>inum % IPB\<close>.\<close>

definition dec_dinode :: "uchar list \<Rightarrow> nat \<Rightarrow> dinode" where
  "dec_dinode d inum = (let p = inum mod IPB * DINODE in
     \<lparr>di_type = get16 d p, di_major = get16 d (p + 2), di_minor = get16 d (p + 4), di_nlink = get16 d (p + 6),
      di_size = get32 d (p + 8), di_addrs = map (\<lambda>i. unat (get32 d (p + 12 + 4 * i))) [0..<NDIRECT + 1]\<rparr>)"

definition enc_dinode :: "uchar list \<Rightarrow> nat \<Rightarrow> dinode \<Rightarrow> uchar list" where
  "enc_dinode d inum x = (let p = inum mod IPB * DINODE in
     fold (\<lambda>i d. put32 d (p + 12 + 4 * i) (of_nat (di_addrs x ! i))) [0..<NDIRECT + 1]
       (put32 (put16 (put16 (put16 (put16 d p (di_type x)) (p + 2) (di_major x)) (p + 4) (di_minor x))
         (p + 6) (di_nlink x)) (p + 8) (di_size x)))"

definition zero_dinode :: "ushort \<Rightarrow> dinode" where
  "zero_dinode type = \<lparr>di_type = type, di_major = 0, di_minor = 0, di_nlink = 0, di_size = 0,
     di_addrs = replicate (NDIRECT + 1) 0\<rparr>"

definition inode_dinode :: "inode \<Rightarrow> dinode" where
  "inode_dinode x = \<lparr>di_type = i_type x, di_major = i_major x, di_minor = i_minor x, di_nlink = i_nlink x,
     di_size = i_size x, di_addrs = i_addrs x\<rparr>"

subsection \<open>Blocks\<close>

definition bzero :: "nat \<Rightarrow> nat \<Rightarrow> ('a fs_scheme, unit) kern" where
  "bzero dev bno =
     kbind (bread dev bno) (\<lambda>bp.
     kthen (buf_store bp (\<lambda>_. replicate BSIZE 0))
     (kthen (log_write bp)
     (brelse bp)))"

text \<open>The inner loop of \<open>balloc\<close>: the first clear bit of the bitmap block from \<open>bi\<close> on.\<close>

function free_bit :: "uchar list \<Rightarrow> nat \<Rightarrow> nat \<Rightarrow> nat \<Rightarrow> nat option" where
  "free_bit d b sz bi =
     (if bi < BPB \<and> b + bi < sz then
        if \<not> bit (d ! (bi div 8)) (bi mod 8) then Some bi else free_bit d b sz (Suc bi)
      else None)"
  by pat_completeness auto
termination by (relation "measure (\<lambda>(d, b, sz, bi). BPB - bi)") auto

declare free_bit.simps [simp del]

definition mark_used :: "nat \<Rightarrow> uchar list \<Rightarrow> uchar list" where
  "mark_used bi d = d[bi div 8 := set_bit (bi mod 8) (d ! (bi div 8))]"

definition mark_free :: "nat \<Rightarrow> uchar list \<Rightarrow> uchar list" where
  "mark_free bi d = d[bi div 8 := unset_bit (bi mod 8) (d ! (bi div 8))]"

function balloc_loop :: "nat \<Rightarrow> superblock \<Rightarrow> nat \<Rightarrow> ('a fs_scheme, nat) kern" where
  "balloc_loop dev sb b =
     (if b < sb_size sb then
        kbind (bread dev (BBLOCK b sb)) (\<lambda>bp.
        kbind (kget (\<lambda>s. b_data (bcache s bp))) (\<lambda>d.
        case free_bit d b (sb_size sb) 0 of
          Some bi \<Rightarrow>
            kthen (buf_store bp (mark_used bi))
            (kthen (log_write bp)
            (kthen (brelse bp)
            (kthen (bzero dev (b + bi))
            (kret (b + bi)))))
        | None \<Rightarrow> kthen (brelse bp) (balloc_loop dev sb (b + BPB))))
      else kpanic ''balloc: out of blocks'')"
  by pat_completeness auto
termination by (relation "measure (\<lambda>(dev, sb, b). sb_size sb - b)") (auto simp: BPB_def BSIZE_def)

declare balloc_loop.simps [simp del]

definition balloc :: "nat \<Rightarrow> ('a fs_scheme, nat) kern" where
  "balloc dev = kbind (kget fs_sb) (\<lambda>sb. balloc_loop dev sb 0)"

definition bfree :: "nat \<Rightarrow> nat \<Rightarrow> ('a fs_scheme, unit) kern" where
  "bfree dev b =
     kbind (kget fs_sb) (\<lambda>sb.
     kbind (bread dev (BBLOCK b sb)) (\<lambda>bp.
     kbind (kget (\<lambda>s. b_data (bcache s bp))) (\<lambda>d.
     let bi = b mod BPB in
     if \<not> bit (d ! (bi div 8)) (bi mod 8) then kpanic ''freeing free block''
     else
       kthen (buf_store bp (mark_free bi))
       (kthen (log_write bp)
       (brelse bp)))))"

subsection \<open>Inodes\<close>

definition iinit :: "nat \<Rightarrow> ('a fs_scheme, unit) kern" where
  "iinit dev =
     kthen (kmod (\<lambda>s. s\<lparr>icache_lock := init_lock ''icache'' (icache_lock s)\<rparr>))
     (kthen (kfor [0..<NINODE] (\<lambda>i. kmod (upd_inode i (\<lambda>x. x\<lparr>i_lock := initsleeplock ''inode'' (i_lock x)\<rparr>))))
     (kbind (readsb dev) (\<lambda>sb. kmod (\<lambda>s. s\<lparr>fs_sb := sb\<rparr>))))"

definition iget :: "nat \<Rightarrow> nat \<Rightarrow> ('a fs_scheme, nat) kern" where
  "iget dev inum = (\<lambda>s.
     case find (\<lambda>ip. i_ref (icache s ip) > 0 \<and> i_dev (icache s ip) = dev \<and> i_inum (icache s ip) = inum) [0..<NINODE] of
       Some ip \<Rightarrow> Inr (ip, upd_inode ip (\<lambda>x. x\<lparr>i_ref := i_ref x + 1\<rparr>) s)
     | None \<Rightarrow>
        (case find (\<lambda>ip. i_ref (icache s ip) = 0) [0..<NINODE] of
           None \<Rightarrow> Inl (Panic ''iget: no inodes'')
         | Some ip \<Rightarrow> Inr (ip, upd_inode ip (\<lambda>x. x\<lparr>i_dev := dev, i_inum := inum, i_ref := 1, i_valid := False\<rparr>) s)))"

function ialloc_loop :: "nat \<Rightarrow> superblock \<Rightarrow> ushort \<Rightarrow> nat \<Rightarrow> ('a fs_scheme, nat) kern" where
  "ialloc_loop dev sb type inum =
     (if inum < sb_ninodes sb then
        kbind (bread dev (IBLOCK inum sb)) (\<lambda>bp.
        kbind (kget (\<lambda>s. dec_dinode (b_data (bcache s bp)) inum)) (\<lambda>dip.
        if di_type dip = 0 then
          kthen (buf_store bp (\<lambda>d. enc_dinode d inum (zero_dinode type)))
          (kthen (log_write bp)
          (kthen (brelse bp)
          (iget dev inum)))
        else kthen (brelse bp) (ialloc_loop dev sb type (Suc inum))))
      else kpanic ''ialloc: no inodes'')"
  by pat_completeness auto
termination by (relation "measure (\<lambda>(dev, sb, type, inum). sb_ninodes sb - inum)") auto

declare ialloc_loop.simps [simp del]

definition ialloc :: "nat \<Rightarrow> ushort \<Rightarrow> ('a fs_scheme, nat) kern" where
  "ialloc dev type = kbind (kget fs_sb) (\<lambda>sb. ialloc_loop dev sb type 1)"

definition iupdate :: "nat \<Rightarrow> ('a fs_scheme, unit) kern" where
  "iupdate ip =
     kbind (kget (\<lambda>s. (icache s ip, fs_sb s))) (\<lambda>(x, sb).
     kbind (bread (i_dev x) (IBLOCK (i_inum x) sb)) (\<lambda>bp.
     kthen (buf_store bp (\<lambda>d. enc_dinode d (i_inum x) (inode_dinode x)))
     (kthen (log_write bp)
     (brelse bp))))"

definition idup :: "nat \<Rightarrow> ('a fs_scheme, nat) kern" where
  "idup ip = kthen (kmod (upd_inode ip (\<lambda>x. x\<lparr>i_ref := i_ref x + 1\<rparr>))) (kret ip)"

definition fsemaphore_lock :: "nat option \<Rightarrow> ('a fs_scheme, unit) kern" where
  "fsemaphore_lock p = (\<lambda>s. case p of
     None \<Rightarrow> Inl (Panic ''flock'')
   | Some ip \<Rightarrow> if i_ref (icache s ip) < 1 then Inl (Panic ''flock'') else
       (case acquiresleep (curpid s) (i_flock (icache s ip)) of
          Inl e \<Rightarrow> Inl e | Inr lk \<Rightarrow> Inr ((), upd_inode ip (\<lambda>x. x\<lparr>i_flock := lk\<rparr>) s)))"

definition fsemaphore_unlock :: "nat option \<Rightarrow> ('a fs_scheme, unit) kern" where
  "fsemaphore_unlock p = (\<lambda>s. case p of
     None \<Rightarrow> Inl (Panic ''funlock'')
   | Some ip \<Rightarrow>
       if \<not> holdingsleep (curpid s) (i_flock (icache s ip)) \<or> i_ref (icache s ip) < 1 then Inl (Panic ''funlock'')
       else Inr ((), upd_inode ip (\<lambda>x. x\<lparr>i_flock := releasesleep (i_flock x)\<rparr>) s))"

definition inode_acquiresleep :: "nat \<Rightarrow> ('a fs_scheme, unit) kern" where
  "inode_acquiresleep ip = (\<lambda>s. case acquiresleep (curpid s) (i_lock (icache s ip)) of
     Inl e \<Rightarrow> Inl e | Inr lk \<Rightarrow> Inr ((), upd_inode ip (\<lambda>x. x\<lparr>i_lock := lk\<rparr>) s))"

definition ilock :: "nat \<Rightarrow> ('a fs_scheme, unit) kern" where
  "ilock ip =
     kbind (kget (\<lambda>s. i_ref (icache s ip))) (\<lambda>r.
     if r < 1 then kpanic ''ilock'' else
     kthen (inode_acquiresleep ip)
     (kbind (kget (\<lambda>s. (icache s ip, fs_sb s))) (\<lambda>(x, sb).
     if i_valid x then kret () else
     kbind (bread (i_dev x) (IBLOCK (i_inum x) sb)) (\<lambda>bp.
     kbind (kget (\<lambda>s. dec_dinode (b_data (bcache s bp)) (i_inum x))) (\<lambda>dip.
     kthen (kmod (upd_inode ip (\<lambda>x. x\<lparr>i_type := di_type dip, i_major := di_major dip, i_minor := di_minor dip,
       i_nlink := di_nlink dip, i_size := di_size dip, i_addrs := di_addrs dip\<rparr>)))
     (kthen (brelse bp)
     (kthen (kmod (upd_inode ip (\<lambda>x. x\<lparr>i_valid := True\<rparr>)))
     (if di_type dip = 0 then kpanic ''ilock: no type'' else kret ()))))))))"

definition iunlock :: "nat \<Rightarrow> ('a fs_scheme, unit) kern" where
  "iunlock ip = (\<lambda>s.
     if \<not> holdingsleep (curpid s) (i_lock (icache s ip)) \<or> i_ref (icache s ip) < 1 then Inl (Panic ''iunlock'')
     else Inr ((), upd_inode ip (\<lambda>x. x\<lparr>i_lock := releasesleep (i_lock x)\<rparr>) s))"

definition itrunc :: "nat \<Rightarrow> ('a fs_scheme, unit) kern" where
  "itrunc ip =
     kbind (kget (\<lambda>s. i_dev (icache s ip))) (\<lambda>dev.
     kthen (kfor [0..<NDIRECT] (\<lambda>i.
       kbind (kget (\<lambda>s. i_addrs (icache s ip) ! i)) (\<lambda>a.
       if a \<noteq> 0 then
         kthen (bfree dev a) (kmod (upd_inode ip (\<lambda>x. x\<lparr>i_addrs := (i_addrs x)[i := 0]\<rparr>)))
       else kret ())))
     (kbind (kget (\<lambda>s. i_addrs (icache s ip) ! NDIRECT)) (\<lambda>ind.
     kthen
       (if ind \<noteq> 0 then
          kbind (bread dev ind) (\<lambda>bp.
          kthen (kfor [0..<NINDIRECT] (\<lambda>j.
            kbind (kget (\<lambda>s. unat (get32 (b_data (bcache s bp)) (4 * j)))) (\<lambda>a.
            if a \<noteq> 0 then bfree dev a else kret ())))
          (kthen (brelse bp)
          (kthen (bfree dev ind)
          (kmod (upd_inode ip (\<lambda>x. x\<lparr>i_addrs := (i_addrs x)[NDIRECT := 0]\<rparr>))))))
        else kret ())
     (kthen (kmod (upd_inode ip (\<lambda>x. x\<lparr>i_size := 0\<rparr>)))
     (iupdate ip)))))"

definition iput :: "nat \<Rightarrow> ('a fs_scheme, unit) kern" where
  "iput ip =
     kthen (inode_acquiresleep ip)
     (kbind (kget (\<lambda>s. icache s ip)) (\<lambda>x.
     kthen
       (if i_valid x \<and> i_nlink x = 0 \<and> i_ref x = 1 then
          kthen (itrunc ip)
          (kthen (kmod (upd_inode ip (\<lambda>x. x\<lparr>i_type := 0\<rparr>)))
          (kthen (iupdate ip)
          (kmod (upd_inode ip (\<lambda>x. x\<lparr>i_valid := False\<rparr>)))))
        else kret ())
     (kthen (kmod (upd_inode ip (\<lambda>x. x\<lparr>i_lock := releasesleep (i_lock x)\<rparr>)))
     (kmod (upd_inode ip (\<lambda>x. x\<lparr>i_ref := i_ref x - 1\<rparr>))))))"

definition iunlockput :: "nat \<Rightarrow> ('a fs_scheme, unit) kern" where
  "iunlockput ip = kthen (iunlock ip) (iput ip)"

subsection \<open>Inode content\<close>

definition bmap :: "nat \<Rightarrow> nat \<Rightarrow> ('a fs_scheme, nat) kern" where
  "bmap ip bn =
     kbind (kget (\<lambda>s. icache s ip)) (\<lambda>x.
     if bn < NDIRECT then
       (if i_addrs x ! bn = 0 then
          kbind (balloc (i_dev x)) (\<lambda>addr.
          kthen (kmod (upd_inode ip (\<lambda>x. x\<lparr>i_addrs := (i_addrs x)[bn := addr]\<rparr>)))
          (kret addr))
        else kret (i_addrs x ! bn))
     else if bn - NDIRECT < NINDIRECT then
       kbind (if i_addrs x ! NDIRECT = 0 then
                kbind (balloc (i_dev x)) (\<lambda>addr.
                kthen (kmod (upd_inode ip (\<lambda>x. x\<lparr>i_addrs := (i_addrs x)[NDIRECT := addr]\<rparr>)))
                (kret addr))
              else kret (i_addrs x ! NDIRECT)) (\<lambda>ind.
       kbind (bread (i_dev x) ind) (\<lambda>bp.
       kbind (kget (\<lambda>s. unat (get32 (b_data (bcache s bp)) (4 * (bn - NDIRECT))))) (\<lambda>a.
       kbind (if a = 0 then
                kbind (balloc (i_dev x)) (\<lambda>addr.
                kthen (buf_store bp (\<lambda>d. put32 d (4 * (bn - NDIRECT)) (of_nat addr)))
                (kthen (log_write bp)
                (kret addr)))
              else kret a) (\<lambda>addr.
       kthen (brelse bp)
       (kret addr)))))
     else kpanic ''bmap: out of range'')"

definition stati :: "nat \<Rightarrow> ('a fs_scheme, stat) kern" where
  "stati ip = kget (\<lambda>s. let x = icache s ip in
     \<lparr>st_type = i_type x, st_dev = i_dev x, st_ino = i_inum x, st_nlink = i_nlink x, st_size = i_size x\<rparr>)"

text \<open>The copy loops of \<open>readi\<close> and \<open>writei\<close>, entered when \<open>off + n\<close> does not overflow.\<close>

function readi_loop :: "nat \<Rightarrow> nat \<Rightarrow> nat \<Rightarrow> nat \<Rightarrow> ('a fs_scheme, uchar list) kern" where
  "readi_loop ip n tot off =
     (if tot < n then
        let m = min (n - tot) (BSIZE - off mod BSIZE) in
        kbind (kget (\<lambda>s. i_dev (icache s ip))) (\<lambda>dev.
        kbind (bmap ip (off div BSIZE)) (\<lambda>addr.
        kbind (bread dev addr) (\<lambda>bp.
        kbind (kget (\<lambda>s. get_bytes (b_data (bcache s bp)) (off mod BSIZE) m)) (\<lambda>bs.
        kthen (brelse bp)
        (kbind (readi_loop ip n (tot + m) (off + m)) (\<lambda>rest.
        kret (bs @ rest)))))))
      else kret [])"
  by pat_completeness auto
termination by (relation "measure (\<lambda>(ip, n, tot, off). n - tot)") (auto simp: BSIZE_def)

declare readi_loop.simps [simp del]

definition readi :: "(nat \<Rightarrow> 'a fs_scheme devsw) \<Rightarrow> nat \<Rightarrow> uint \<Rightarrow> uint \<Rightarrow> ('a fs_scheme, int \<times> uchar list) kern" where
  "readi dv ip off n =
     kbind (kget (\<lambda>s. icache s ip)) (\<lambda>x.
     if i_type x = T_DEV then
       (if sint (i_major x) < 0 \<or> sint (i_major x) \<ge> int NDEV then kret (- 1, [])
        else case dev_read (dv (unat (i_major x))) of
          None \<Rightarrow> kret (- 1, [])
        | Some rd \<Rightarrow> rd ip n)
     else if off > i_size x \<or> off + n < off then kret (- 1, [])
     else
       let n = (if off + n > i_size x then i_size x - off else n) in
       kbind (readi_loop ip (unat n) 0 (unat off)) (\<lambda>bs. kret (sint n, bs)))"

function writei_loop :: "nat \<Rightarrow> uchar list \<Rightarrow> nat \<Rightarrow> nat \<Rightarrow> nat \<Rightarrow> ('a fs_scheme, nat) kern" where
  "writei_loop ip src n tot off =
     (if tot < n then
        let m = min (n - tot) (BSIZE - off mod BSIZE) in
        kbind (kget (\<lambda>s. i_dev (icache s ip))) (\<lambda>dev.
        kbind (bmap ip (off div BSIZE)) (\<lambda>addr.
        kbind (bread dev addr) (\<lambda>bp.
        kthen (buf_store bp (\<lambda>d. put_bytes d (off mod BSIZE) (get_bytes src tot m)))
        (kthen (log_write bp)
        (kthen (brelse bp)
        (writei_loop ip src n (tot + m) (off + m)))))))
      else kret off)"
  by pat_completeness auto
termination by (relation "measure (\<lambda>(ip, src, n, tot, off). n - tot)") (auto simp: BSIZE_def)

declare writei_loop.simps [simp del]

definition writei :: "(nat \<Rightarrow> 'a fs_scheme devsw) \<Rightarrow> nat \<Rightarrow> uchar list \<Rightarrow> uint \<Rightarrow> uint \<Rightarrow> ('a fs_scheme, int) kern" where
  "writei dv ip src off n =
     kbind (kget (\<lambda>s. icache s ip)) (\<lambda>x.
     if i_type x = T_DEV then
       (if sint (i_major x) < 0 \<or> sint (i_major x) \<ge> int NDEV then kret (- 1)
        else case dev_write (dv (unat (i_major x))) of
          None \<Rightarrow> kret (- 1)
        | Some wr \<Rightarrow> wr ip src n)
     else if off > i_size x \<or> off + n < off then kret (- 1)
     else if off + n > of_nat (MAXFILE * BSIZE) then kret (- 1)
     else
       kbind (writei_loop ip src (unat n) 0 (unat off)) (\<lambda>off'.
       kbind (kget (\<lambda>s. i_size (icache s ip))) (\<lambda>sz.
       kthen
         (if n > 0 \<and> of_nat off' > sz then
            kthen (kmod (upd_inode ip (\<lambda>x. x\<lparr>i_size := of_nat off'\<rparr>))) (iupdate ip)
          else kret ())
       (kret (sint n)))))"

subsection \<open>Directories\<close>

text \<open>Two strings in memory: \<open>s\<close> at address 0, \<open>t\<close> at address 256.\<close>

definition str_mem :: "uchar list \<Rightarrow> uchar list \<Rightarrow> mem" where
  "str_mem s t a = (if a < 256 then if unat a < length s then s ! unat a else 0
     else if unat (a - 256) < length t then t ! unat (a - 256) else 0)"

definition namecmp :: "uchar list \<Rightarrow> uchar list \<Rightarrow> int" where
  "namecmp s t = strncmp (str_mem s t) 0 256 (of_nat DIRSIZ)"

definition dirent_name :: "uchar list \<Rightarrow> uchar list" where
  "dirent_name name =
     (let m = strncpy (str_mem name []) 256 0 (int DIRSIZ) in map (\<lambda>i. m (256 + of_nat i)) [0..<DIRSIZ])"

definition enc_dirent :: "nat \<Rightarrow> uchar list \<Rightarrow> uchar list" where
  "enc_dirent inum name = put16 (replicate 2 0) 0 (of_nat inum) @ dirent_name name"

function dirlookup_loop :: "(nat \<Rightarrow> 'a fs_scheme devsw) \<Rightarrow> nat \<Rightarrow> uchar list \<Rightarrow> uint \<Rightarrow> nat \<Rightarrow>
    ('a fs_scheme, (nat \<times> nat) option) kern" where
  "dirlookup_loop dv dp name sz off =
     (if off < unat sz then
        kbind (readi dv dp (of_nat off) (of_nat DIRENT)) (\<lambda>(r, de).
        if r \<noteq> int DIRENT then kpanic ''dirlookup read''
        else if get16 de 0 = 0 then dirlookup_loop dv dp name sz (off + DIRENT)
        else if namecmp name (drop 2 de) = 0 then
          kbind (kget (\<lambda>s. i_dev (icache s dp))) (\<lambda>dev.
          kbind (iget dev (unat (get16 de 0))) (\<lambda>ip. kret (Some (ip, off))))
        else dirlookup_loop dv dp name sz (off + DIRENT))
      else kret None)"
  by pat_completeness auto
termination by (relation "measure (\<lambda>(dv, dp, name, sz, off). unat sz - off)") (auto simp: DIRENT_def)

declare dirlookup_loop.simps [simp del]

definition dirlookup :: "(nat \<Rightarrow> 'a fs_scheme devsw) \<Rightarrow> nat \<Rightarrow> uchar list \<Rightarrow> ('a fs_scheme, (nat \<times> nat) option) kern" where
  "dirlookup dv dp name =
     kbind (kget (\<lambda>s. icache s dp)) (\<lambda>x.
     if i_type x \<noteq> T_DIR then kpanic ''dirlookup not DIR''
     else dirlookup_loop dv dp name (i_size x) 0)"

function empty_slot :: "(nat \<Rightarrow> 'a fs_scheme devsw) \<Rightarrow> nat \<Rightarrow> uint \<Rightarrow> nat \<Rightarrow> ('a fs_scheme, nat) kern" where
  "empty_slot dv dp sz off =
     (if off < unat sz then
        kbind (readi dv dp (of_nat off) (of_nat DIRENT)) (\<lambda>(r, de).
        if r \<noteq> int DIRENT then kpanic ''dirlink read''
        else if get16 de 0 = 0 then kret off
        else empty_slot dv dp sz (off + DIRENT))
      else kret off)"
  by pat_completeness auto
termination by (relation "measure (\<lambda>(dv, dp, sz, off). unat sz - off)") (auto simp: DIRENT_def)

declare empty_slot.simps [simp del]

definition dirlink :: "(nat \<Rightarrow> 'a fs_scheme devsw) \<Rightarrow> nat \<Rightarrow> uchar list \<Rightarrow> nat \<Rightarrow> ('a fs_scheme, int) kern" where
  "dirlink dv dp name inum =
     kbind (dirlookup dv dp name) (\<lambda>r.
     case r of
       Some (ip, _) \<Rightarrow> kthen (iput ip) (kret (- 1))
     | None \<Rightarrow>
         kbind (kget (\<lambda>s. i_size (icache s dp))) (\<lambda>sz.
         kbind (empty_slot dv dp sz 0) (\<lambda>off.
         kbind (writei dv dp (enc_dirent inum name) (of_nat off) (of_nat DIRENT)) (\<lambda>w.
         if w \<noteq> int DIRENT then kpanic ''dirlink'' else kret 0))))"

subsection \<open>Paths\<close>

definition slash :: uchar where "slash = 47"

definition cstr_of :: "uchar list \<Rightarrow> uchar list" where
  "cstr_of p = takeWhile (\<lambda>c. c \<noteq> 0) p"

text \<open>The path behind the element, and the element as it is stored in \<open>name[DIRSIZ]\<close>.\<close>

definition skipelem :: "uchar list \<Rightarrow> (uchar list \<times> uchar list) option" where
  "skipelem path =
     (let path = dropWhile (\<lambda>c. c = slash) (cstr_of path) in
      if path = [] then None
      else
        let s = takeWhile (\<lambda>c. c \<noteq> slash) path;
            path = drop (length s) path;
            name = (if length s \<ge> DIRSIZ then take DIRSIZ s else s)
        in Some (dropWhile (\<lambda>c. c = slash) path, name))"

lemma skipelem_shorter:
  assumes "skipelem path = Some (rest, name)"
  shows "length rest < length path"
proof -
  define p where "p = dropWhile (\<lambda>c. c = slash) (cstr_of path)"
  have p: "p \<noteq> []" "rest = dropWhile (\<lambda>c. c = slash) (drop (length (takeWhile (\<lambda>c. c \<noteq> slash) p)) p)"
    using assms by (auto simp: skipelem_def Let_def p_def split: if_splits)
  have "length p \<le> length path"
    using length_dropWhile_le [of "\<lambda>c. c = slash" "cstr_of path"] length_takeWhile_le [of "\<lambda>c. c \<noteq> 0" path]
    by (simp add: p_def cstr_of_def)
  moreover have "hd p \<noteq> slash" using p(1) unfolding p_def by (rule hd_dropWhile)
  then have "0 < length (takeWhile (\<lambda>c. c \<noteq> slash) p)" using p(1) by (cases p) auto
  moreover have "length rest \<le> length (drop (length (takeWhile (\<lambda>c. c \<noteq> slash) p)) p)"
    unfolding p(2) by (rule length_dropWhile_le)
  moreover have "0 < length p" using p(1) by simp
  ultimately show ?thesis unfolding length_drop by linarith
qed

text \<open>The result of \<open>namex\<close> is the inode and the last element copied to \<open>name\<close>.\<close>

function namex_loop :: "(nat \<Rightarrow> 'a fs_scheme devsw) \<Rightarrow> bool \<Rightarrow> nat \<Rightarrow> uchar list \<Rightarrow> uchar list \<Rightarrow>
    ('a fs_scheme, (nat \<times> uchar list) option) kern" where
  "namex_loop dv nip ip path name =
     (case skipelem path of
        None \<Rightarrow> if nip then kthen (iput ip) (kret None) else kret (Some (ip, name))
      | Some (rest, name) \<Rightarrow>
          kthen (ilock ip)
          (kbind (kget (\<lambda>s. i_type (icache s ip))) (\<lambda>type.
          if type \<noteq> T_DIR then kthen (iunlockput ip) (kret None)
          else if nip \<and> rest = [] then kthen (iunlock ip) (kret (Some (ip, name)))
          else
            kbind (dirlookup dv ip name) (\<lambda>r.
            case r of
              None \<Rightarrow> kthen (iunlockput ip) (kret None)
            | Some (next, _) \<Rightarrow> kthen (iunlockput ip) (namex_loop dv nip next rest name)))))"
  by pat_completeness auto
termination by (relation "measure (\<lambda>(dv, nip, ip, path, name). length path)") (auto dest: skipelem_shorter)

declare namex_loop.simps [simp del]

definition namex :: "(nat \<Rightarrow> 'a fs_scheme devsw) \<Rightarrow> uchar list \<Rightarrow> bool \<Rightarrow> ('a fs_scheme, (nat \<times> uchar list) option) kern" where
  "namex dv path nip =
     kbind (if cstr_of path \<noteq> [] \<and> hd path = slash then iget ROOTDEV ROOTINO
            else kbind (kget (\<lambda>s. p_cwd (myproc s))) (\<lambda>c. case c of Some ip \<Rightarrow> idup ip | None \<Rightarrow> kundef ''cwd'')) (\<lambda>ip.
     namex_loop dv nip ip path [])"

definition namei :: "(nat \<Rightarrow> 'a fs_scheme devsw) \<Rightarrow> uchar list \<Rightarrow> ('a fs_scheme, nat option) kern" where
  "namei dv path = kbind (namex dv path False) (\<lambda>r. kret (map_option fst r))"

definition nameiparent :: "(nat \<Rightarrow> 'a fs_scheme devsw) \<Rightarrow> uchar list \<Rightarrow> ('a fs_scheme, (nat \<times> uchar list) option) kern" where
  "nameiparent dv path = namex dv path True"

section \<open>Examples\<close>

definition inode_ex :: inode where
  "inode_ex = \<lparr>i_dev = 0, i_inum = 0, i_ref = 0, i_flock = \<lparr>slocked = False, slk = \<lparr>locked = False, lkname = [], lkcpu = None, pcs = []\<rparr>,
     slname = [], slpid = 0\<rparr>, i_lock = \<lparr>slocked = False, slk = \<lparr>locked = False, lkname = [], lkcpu = None, pcs = []\<rparr>, slname = [],
     slpid = 0\<rparr>, i_valid = False, i_type = 0, i_major = 0, i_minor = 0, i_nlink = 0, i_size = 0, i_addrs = replicate (NDIRECT + 1) 0\<rparr>"

definition fs_ex :: fs where
  "fs_ex = fslog.extend log_ex
     \<lparr>fs_sb = \<lparr>sb_size = 2000, sb_nblocks = 1941, sb_ninodes = 200, sb_nlog = 30, sb_logstart = 2, sb_inodestart = 32, sb_bmapstart = 58\<rparr>,
      icache_lock = \<lparr>locked = False, lkname = [], lkcpu = None, pcs = []\<rparr>, icache = (\<lambda>_. inode_ex)\<rparr>"

end
