(* ===== verification/Ring.thy ===== *)
theory Ring
  imports Prelude
begin

text \<open>
  Ring buffers with free-running 32-bit indices, as the pipes and the console input use them: the slot of index
  \<open>i\<close> is \<open>i\<close> modulo the size \<open>N\<close>, a power of two, so that nothing changes when an index wraps around.
\<close>

definition window :: "nat \<Rightarrow> 'a list \<Rightarrow> uint \<Rightarrow> uint \<Rightarrow> 'a list" where
  "window N buf a b = map (\<lambda>k. buf ! ((unat a + k) mod N)) [0..<unat (b - a)]"

lemma window_length [simp]: "length (window N buf a b) = unat (b - a)"
  by (simp add: window_def)

lemma window_empty [simp]: "window N buf a a = []"
  by (simp add: window_def)

lemma window_Nil_iff: "window N buf a b = [] \<longleftrightarrow> a = b"
  by (auto simp: window_def unsigned_eq_0_iff)

lemma unat_diff_Suc: "(a :: uint) \<noteq> b \<Longrightarrow> unat (b - a) = Suc (unat (b - (a + 1)))"
  using unat_minus_step [of "b - a"] by (simp add: algebra_simps)

lemma unat_diff_Suc': "(a :: uint) \<noteq> b \<Longrightarrow> unat (b - a) = Suc (unat (b - 1 - a))"
  using unat_minus_step [of "b - a"] by (simp add: algebra_simps)

locale ring_buffer =
  fixes N :: nat
  assumes pos: "0 < N" and dvd: "N dvd 4294967296" and small: "N < 4294967296"
begin

lemma slot: "unat ((a :: uint) mod of_nat N) = unat a mod N"
  using small by (simp add: unat_mod unat_of_nat)

lemma slot_add: "unat ((a :: uint) + b) mod N = (unat a + unat b) mod N"
  unfolding unat_word_ariths using dvd by (simp add: mod_mod_cancel)

lemma slot_diff: "(unat a + unat (b - a :: uint)) mod N = unat b mod N"
  using slot_add [of a "b - a"] by simp

lemma slot_Suc: "(unat (a + 1 :: uint) + k) mod N = (unat a + Suc k) mod N"
proof -
  have "(unat (a + 1) + k) mod N = (unat (a + 1) mod N + k) mod N" by (simp add: mod_add_left_eq)
  also have "\<dots> = (unat a + 1 + k) mod N" unfolding slot_add by (simp add: mod_add_left_eq)
  finally show ?thesis by simp
qed

lemma slot_inj_le:
  assumes "i \<le> j" "j < N" "(unat (a :: uint) + i) mod N = (unat a + j) mod N"
  shows "i = j"
proof -
  have "N dvd (unat a + j) - (unat a + i)" using assms mod_eq_dvd_iff_nat [of "unat a + i" "unat a + j" N] by simp
  then show ?thesis using assms by (auto dest: dvd_imp_le)
qed

lemma slot_inj: "i < N \<Longrightarrow> j < N \<Longrightarrow> (unat (a :: uint) + i) mod N = (unat a + j) mod N \<Longrightarrow> i = j"
  using slot_inj_le [of i j a] slot_inj_le [of j i a] by (cases "i \<le> j") auto

text \<open>A store at an index behind the window, less than \<open>N\<close> places from its start.\<close>

lemma window_frame:
  assumes "length buf = N" "unat (b - a) \<le> unat (e - a)" "unat (e - a) < N"
  shows "window N (buf[unat (e mod of_nat N) := c]) a b = window N buf a b"
proof -
  have "(unat a + k) mod N \<noteq> unat e mod N" if "k < unat (b - a)" for k
    using slot_inj [of k "unat (e - a)" a] that assms slot_diff [of a e] by auto
  then have "buf[unat e mod N := c] ! ((unat a + k) mod N) = buf ! ((unat a + k) mod N)" if "k < unat (b - a)" for k
    using that nth_list_update_neq by metis
  then show ?thesis unfolding window_def slot by simp
qed

lemma window_snoc:
  assumes "length buf = N" "unat (b - a) < N"
  shows "window N (buf[unat (b mod of_nat N) := c]) a (b + 1) = window N buf a b @ [c]"
proof -
  have "a \<noteq> b + 1" using assms(2) small by (auto simp: unat_minus_1)
  from unat_diff_Suc' [OF this] have n: "unat (b + 1 - a) = Suc (unat (b - a))" by simp
  have "window N (buf[unat (b mod of_nat N) := c]) a (b + 1)
      = window N (buf[unat (b mod of_nat N) := c]) a b @ [buf[unat (b mod of_nat N) := c] ! ((unat a + unat (b - a)) mod N)]"
    unfolding window_def n by simp
  then show ?thesis
    using window_frame [of buf b a b c] assms pos by (simp add: slot_diff slot)
qed

lemma window_cons:
  assumes "a \<noteq> b"
  shows "window N buf a b = buf ! unat (a mod of_nat N) # window N buf (a + 1) b"
proof -
  have "map (\<lambda>k. buf ! ((unat a + k) mod N)) [Suc 0..<Suc n] = map (\<lambda>k. buf ! ((unat (a + 1) + k) mod N)) [0..<n]" for n
    by (simp add: map_Suc_upt [symmetric] slot_Suc del: upt_Suc)
  then show ?thesis
    unfolding window_def unat_diff_Suc [OF assms] slot by (simp add: upt_conv_Cons del: upt_Suc)
qed

lemma window_butlast:
  assumes "a \<noteq> b"
  shows "window N buf a b = window N buf a (b - 1) @ [buf ! unat ((b - 1) mod of_nat N)]"
  using slot_diff [of a "b - 1"] unfolding window_def unat_diff_Suc' [OF assms] slot by simp

lemma window_append:
  assumes "unat (b - a) + unat (c - b) < 4294967296"
  shows "window N buf a c = window N buf a b @ window N buf b c"
proof -
  have n: "unat (c - a) = unat (b - a) + unat (c - b)"
    using assms unat_plus_if' [of "b - a" "c - b"] by simp
  have "map (\<lambda>k. buf ! ((unat a + k) mod N)) [unat (b - a)..<unat (b - a) + n] = map (\<lambda>k. buf ! ((unat b + k) mod N)) [0..<n]" for n
  proof -
    have "(unat a + (unat (b - a) + k)) mod N = (unat b + k) mod N" for k
      using slot_diff [of a b] by (metis add.assoc mod_add_left_eq)
    then show ?thesis by (auto simp: list_eq_iff_nth_eq)
  qed
  then show ?thesis unfolding window_def n upt_add_eq_append [OF le0] by simp
qed

end

end
