(* ===== verification/Pipe.thy ===== *)
theory Pipe
  imports Spinlock Ring
begin

text \<open>
  Pipes (\<open>pipe.c\<close>).  \<open>nread\<close> and \<open>nwrite\<close> are free-running 32-bit counters, the ring buffer is a list
  of \<open>PIPESIZE\<close> bytes.  \<open>p->lock\<close> is held except while a process sleeps, so an operation runs
  atomically until it returns or goes to sleep; \<open>Blocks i\<close> is a writer that sleeps on \<open>&p->nwrite\<close>
  with \<open>i\<close> bytes written, or a reader that sleeps on \<open>&p->nread\<close>.  The last component of a result
  is the list of channels the operation has called \<open>wakeup\<close> on.
\<close>

section \<open>Definitions\<close>

definition PIPESIZE :: nat where "PIPESIZE = 512"

record pipe =
  plock :: spinlock
  pdata :: "uchar list"
  nread :: uint
  nwrite :: uint
  readopen :: bool
  writeopen :: bool

datatype chan = ChanRead | ChanWrite

datatype outcome = Returns int | Blocks nat

text \<open>The fields that \<open>pipealloc\<close> sets in the page it got from \<open>kalloc\<close>.\<close>

definition pipe_init :: "pipe \<Rightarrow> pipe" where
  "pipe_init p = p\<lparr>readopen := True, writeopen := True, nwrite := 0, nread := 0,
     plock := init_lock ''pipe'' (plock p)\<rparr>"

text \<open>\<open>pipeclose\<close>: the boolean says whether the pipe's page is freed.\<close>

definition pipeclose :: "pipe \<Rightarrow> bool \<Rightarrow> pipe \<times> bool \<times> chan list" where
  "pipeclose p writable =
     (let (q, w) = (if writable then (p\<lparr>writeopen := False\<rparr>, [ChanRead]) else (p\<lparr>readopen := False\<rparr>, [ChanWrite])) in
      (q, \<not> readopen q \<and> \<not> writeopen q, w))"

definition put_byte :: "pipe \<Rightarrow> uchar \<Rightarrow> pipe" where
  "put_byte p c = p\<lparr>pdata := (pdata p)[unat (nwrite p mod of_nat PIPESIZE) := c], nwrite := nwrite p + 1\<rparr>"

definition get_byte :: "pipe \<Rightarrow> uchar" where
  "get_byte p = pdata p ! unat (nread p mod of_nat PIPESIZE)"

text \<open>\<open>pipewrite\<close> from index \<open>i\<close> on; \<open>killed\<close> is \<open>myproc()->killed\<close>.\<close>

function pipewrite_loop :: "bool \<Rightarrow> uchar list \<Rightarrow> int \<Rightarrow> nat \<Rightarrow> pipe \<Rightarrow> pipe \<times> outcome \<times> chan list" where
  "pipewrite_loop killed addr n i p =
     (if int i < n then
        if nwrite p = nread p + of_nat PIPESIZE then
          if \<not> readopen p \<or> killed then (p, Returns (-1), []) else (p, Blocks i, [ChanRead])
        else pipewrite_loop killed addr n (Suc i) (put_byte p (addr ! i))
      else (p, Returns n, [ChanRead]))"
  by pat_completeness auto
termination by (relation "measure (\<lambda>(killed, addr, n, i, p). nat n - i)") auto

declare pipewrite_loop.simps [simp del]

definition pipewrite :: "bool \<Rightarrow> pipe \<Rightarrow> uchar list \<Rightarrow> int \<Rightarrow> pipe \<times> outcome \<times> chan list" where
  "pipewrite killed p addr n = pipewrite_loop killed addr n 0 p"

text \<open>The copy loop of \<open>piperead\<close>: the bytes stored at \<open>addr\<close>.\<close>

function piperead_copy :: "int \<Rightarrow> nat \<Rightarrow> pipe \<Rightarrow> pipe \<times> uchar list" where
  "piperead_copy n i p =
     (if int i < n then
        if nread p = nwrite p then (p, [])
        else (let (q, bs) = piperead_copy n (Suc i) (p\<lparr>nread := nread p + 1\<rparr>) in (q, get_byte p # bs))
      else (p, []))"
  by pat_completeness auto
termination by (relation "measure (\<lambda>(n, i, p). nat n - i)") auto

declare piperead_copy.simps [simp del]

definition piperead :: "bool \<Rightarrow> pipe \<Rightarrow> int \<Rightarrow> pipe \<times> outcome \<times> uchar list \<times> chan list" where
  "piperead killed p n =
     (if nread p = nwrite p \<and> writeopen p then
        if killed then (p, Returns (-1), [], []) else (p, Blocks 0, [], [])
      else (let (q, bs) = piperead_copy n 0 p in (q, Returns (int (length bs)), bs, [ChanWrite])))"

text \<open>The bytes in the pipe, oldest first: what a reader is going to get.\<close>

definition pcontents :: "pipe \<Rightarrow> uchar list" where
  "pcontents p = window PIPESIZE (pdata p) (nread p) (nwrite p)"

definition pipe_inv :: "pipe \<Rightarrow> bool" where
  "pipe_inv p \<longleftrightarrow> length (pdata p) = PIPESIZE \<and> unat (nwrite p - nread p) \<le> PIPESIZE"

section \<open>Lemmas\<close>

interpretation pipe_ring: ring_buffer PIPESIZE
  by unfold_locales (simp_all add: PIPESIZE_def)

lemma pcontents_length: "length (pcontents p) = unat (nwrite p - nread p)"
  by (simp add: pcontents_def)

lemma pipe_empty_iff: "nread p = nwrite p \<longleftrightarrow> pcontents p = []"
  by (simp add: pcontents_def window_Nil_iff)

lemma unat_eq_of_nat: "k < 4294967296 \<Longrightarrow> unat (x :: uint) = k \<longleftrightarrow> x = of_nat k"
  by (auto simp: unat_of_nat)

lemma pipe_full_iff:
  assumes "pipe_inv p"
  shows "nwrite p = nread p + of_nat PIPESIZE \<longleftrightarrow> length (pcontents p) = PIPESIZE"
proof -
  have "unat (nwrite p - nread p) = 512 \<longleftrightarrow> nwrite p - nread p = 512"
    using unat_eq_of_nat [of 512 "nwrite p - nread p"] by simp
  then show ?thesis by (auto simp: pcontents_length PIPESIZE_def algebra_simps)
qed

lemma put_byte_spec:
  assumes inv: "pipe_inv p" and room: "length (pcontents p) < PIPESIZE"
  shows "pipe_inv (put_byte p c)" "pcontents (put_byte p c) = pcontents p @ [c]"
proof -
  have n: "length (pdata p) = PIPESIZE" "unat (nwrite p - nread p) < PIPESIZE"
    using inv room by (simp_all add: pipe_inv_def pcontents_length)
  from pipe_ring.window_snoc [OF this]
  show c: "pcontents (put_byte p c) = pcontents p @ [c]" by (simp add: pcontents_def put_byte_def)
  from n c [THEN arg_cong [where f = length]]
  show "pipe_inv (put_byte p c)" by (simp add: pipe_inv_def pcontents_length put_byte_def)
qed

lemma get_byte_spec:
  assumes inv: "pipe_inv p" and ne: "pcontents p = c # cs"
  shows "get_byte p = c" "pcontents (p\<lparr>nread := nread p + 1\<rparr>) = cs" "pipe_inv (p\<lparr>nread := nread p + 1\<rparr>)"
proof -
  have ne': "nread p \<noteq> nwrite p" using ne by (simp add: pipe_empty_iff)
  from pipe_ring.window_cons [OF this, of "pdata p"] ne
  show "get_byte p = c" "pcontents (p\<lparr>nread := nread p + 1\<rparr>) = cs" by (simp_all add: pcontents_def get_byte_def)
  show "pipe_inv (p\<lparr>nread := nread p + 1\<rparr>)" using inv unat_diff_Suc [OF ne'] by (simp add: pipe_inv_def)
qed

text \<open>The ring buffer offers a bounded FIFO queue.\<close>

locale bounded_queue =
  fixes inv :: "'q \<Rightarrow> bool" and contents :: "'q \<Rightarrow> 'a list" and put :: "'q \<Rightarrow> 'a \<Rightarrow> 'q"
    and front :: "'q \<Rightarrow> 'a" and advance :: "'q \<Rightarrow> 'q" and cap :: nat
  assumes put_law: "inv q \<Longrightarrow> length (contents q) < cap \<Longrightarrow> inv (put q x) \<and> contents (put q x) = contents q @ [x]"
    and front_law: "inv q \<Longrightarrow> contents q = x # xs \<Longrightarrow> front q = x \<and> inv (advance q) \<and> contents (advance q) = xs"
begin

lemma put_all:
  "inv q \<Longrightarrow> length (contents q) + length xs \<le> cap \<Longrightarrow>
    inv (foldl put q xs) \<and> contents (foldl put q xs) = contents q @ xs"
  by (induction xs arbitrary: q) (auto simp: put_law)

lemma advance_all:
  "inv q \<Longrightarrow> k \<le> length (contents q) \<Longrightarrow> inv ((advance ^^ k) q) \<and> contents ((advance ^^ k) q) = drop k (contents q)"
proof (induction k)
  case (Suc k)
  then obtain x xs where "drop k (contents q) = x # xs" by (metis Cons_nth_drop_Suc Suc_le_eq)
  with Suc front_law [of "(advance ^^ k) q" x xs] show ?case
    by (auto simp: drop_Suc tl_drop [symmetric])
qed simp

end

interpretation ring: bounded_queue pipe_inv pcontents put_byte get_byte "\<lambda>p. p\<lparr>nread := nread p + 1\<rparr>" PIPESIZE
  by unfold_locales (auto simp: put_byte_spec get_byte_spec)

lemma put_byte_flags [simp]:
  "readopen (put_byte p c) = readopen p" "writeopen (put_byte p c) = writeopen p"
  by (simp_all add: put_byte_def)

lemma min_Suc_diff:
  "Suc i \<le> (n :: nat) \<Longrightarrow> l < c \<Longrightarrow> min (n - i) (c - l) = Suc (min (n - Suc i) (c - Suc l))"
  by (auto simp: min_def)

lemma pipewrite_loop_spec:
  assumes "pipe_inv p" and "i \<le> nat n" and "nat n \<le> length addr"
  defines "m \<equiv> min (nat n - i) (PIPESIZE - length (pcontents p))"
  shows "\<exists>q wk. pipewrite_loop killed addr n i p =
      (q, if i + m = nat n then Returns n else if \<not> readopen p \<or> killed then Returns (-1) else Blocks (i + m), wk) \<and>
    pipe_inv q \<and> pcontents q = pcontents p @ take m (drop i addr) \<and> readopen q = readopen p \<and>
    writeopen q = writeopen p \<and> wk = (if i + m = nat n \<or> readopen p \<and> \<not> killed then [ChanRead] else [])"
  using assms(1-3) unfolding m_def
proof (induction killed addr n i p rule: pipewrite_loop.induct)
  case (1 killed addr n i p)
  have cap: "length (pcontents p) \<le> PIPESIZE" using 1(2) by (simp add: pipe_inv_def pcontents_length)
  show ?case
  proof (cases "int i < n")
    case False
    then have "i = nat n" using 1(3) by linarith
    then show ?thesis using 1(2-4) False by (simp add: pipewrite_loop.simps)
  next
    case lt: True
    show ?thesis
    proof (cases "length (pcontents p) = PIPESIZE")
      case True
      have "i \<noteq> nat n" using lt by linarith
      with True show ?thesis
        using lt 1(2-4) pipe_full_iff [OF 1(2)] by (auto simp: pipewrite_loop.simps [of killed addr n i p])
    next
      case False
      then have room: "length (pcontents p) < PIPESIZE" using cap by simp
      let ?p = "put_byte p (addr ! i)"
      note sp = put_byte_spec [OF 1(2) room, of "addr ! i"]
      have nf: "nwrite p \<noteq> nread p + of_nat PIPESIZE" using False pipe_full_iff [OF 1(2)] by simp
      have le: "Suc i \<le> nat n" using lt by linarith
      let ?m = "min (nat n - Suc i) (PIPESIZE - length (pcontents ?p))"
      have m: "min (nat n - i) (PIPESIZE - length (pcontents p)) = Suc ?m"
        using min_Suc_diff [OF le room] by (simp add: sp(2))
      have tk: "take (Suc ?m) (drop i addr) = addr ! i # take ?m (drop (Suc i) addr)"
        using le 1(4) by (simp add: Cons_nth_drop_Suc [symmetric])
      from 1(1) [OF lt nf sp(1) le 1(4)] show ?thesis
        unfolding m tk pipewrite_loop.simps [of killed addr n i p] using lt nf by (simp add: sp(2) cong: if_cong)
    qed
  qed
qed

lemma piperead_copy_spec:
  assumes "pipe_inv p"
  shows "\<exists>q. piperead_copy n i p = (q, take (nat n - i) (pcontents p)) \<and> pipe_inv q \<and>
    pcontents q = drop (nat n - i) (pcontents p) \<and> readopen q = readopen p \<and> writeopen q = writeopen p"
  using assms
proof (induction n i p rule: piperead_copy.induct)
  case (1 n i p)
  show ?case
  proof (cases "int i < n")
    case False
    then show ?thesis using 1(2) by (simp add: piperead_copy.simps)
  next
    case lt: True
    then have e: "nat n - i = Suc (nat n - Suc i)" by linarith
    show ?thesis
    proof (cases "pcontents p")
      case Nil
      then show ?thesis using 1(2) lt by (simp add: piperead_copy.simps pipe_empty_iff)
    next
      case (Cons c cs)
      note g = get_byte_spec [OF 1(2) Cons]
      have "nread p \<noteq> nwrite p" using Cons pipe_empty_iff [of p] by simp
      with 1(1) [OF lt this g(3)] show ?thesis
        unfolding e using lt Cons g by (auto simp: piperead_copy.simps [of n i p])
    qed
  qed
qed

subsection \<open>Readers and writers\<close>

text \<open>
  Any number of processes use the pipe.  \<open>calls q\<close> is the system call process \<open>q\<close> is executing
  (for a writer, its buffer, \<open>n\<close> and the index it has reached), \<open>asleep q\<close> the channel it sleeps on.
  \<open>sent\<close> and \<open>got\<close> record all bytes put into the pipe and all bytes handed to readers.
\<close>

datatype call = Rd int | Wr "uchar list" int nat

record psys =
  pip :: pipe
  calls :: "nat \<Rightarrow> call option"
  asleep :: "nat \<Rightarrow> chan option"
  killed :: "nat \<Rightarrow> bool"
  sent :: "uchar list"
  got :: "uchar list"
  aborted :: bool

text \<open>\<open>wakeup\<close> makes every process that sleeps on one of the channels runnable.\<close>

definition wake :: "chan list \<Rightarrow> (nat \<Rightarrow> chan option) \<Rightarrow> nat \<Rightarrow> chan option" where
  "wake cs sl = (\<lambda>q. case sl q of Some c \<Rightarrow> if c \<in> set cs then None else Some c | None \<Rightarrow> None)"

definition step_write :: "nat \<Rightarrow> uchar list \<Rightarrow> int \<Rightarrow> nat \<Rightarrow> psys \<Rightarrow> psys" where
  "step_write q addr n i s =
     (case pipewrite_loop (killed s q) addr n i (pip s) of (p, out, wk) \<Rightarrow>
        s\<lparr>pip := p, sent := sent s @ drop (length (pcontents (pip s))) (pcontents p),
          calls := (calls s)(q := (case out of Returns r \<Rightarrow> None | Blocks j \<Rightarrow> Some (Wr addr n j))),
          asleep := (wake wk (asleep s))(q := (case out of Returns r \<Rightarrow> None | Blocks j \<Rightarrow> Some ChanWrite)),
          aborted := aborted s \<or> killed s q \<and> out = Returns (-1)\<rparr>)"

definition step_read :: "nat \<Rightarrow> int \<Rightarrow> psys \<Rightarrow> psys" where
  "step_read q n s =
     (case piperead (killed s q) (pip s) n of (p, out, bs, wk) \<Rightarrow>
        s\<lparr>pip := p, got := got s @ bs,
          calls := (calls s)(q := (case out of Returns r \<Rightarrow> None | Blocks j \<Rightarrow> Some (Rd n))),
          asleep := (wake wk (asleep s))(q := (case out of Returns r \<Rightarrow> None | Blocks j \<Rightarrow> Some ChanRead))\<rparr>)"

text \<open>An end is closed only when no process is inside a call that uses it (it would hold a reference).\<close>

inductive pipe_step :: "psys \<Rightarrow> psys \<Rightarrow> bool" where
  begin_read: "calls s q = None \<Longrightarrow> readopen (pip s) \<Longrightarrow> pipe_step s (s\<lparr>calls := (calls s)(q := Some (Rd n))\<rparr>)"
| begin_write: "calls s q = None \<Longrightarrow> writeopen (pip s) \<Longrightarrow> nat n \<le> length addr \<Longrightarrow>
    pipe_step s (s\<lparr>calls := (calls s)(q := Some (Wr addr n 0))\<rparr>)"
| run_read: "calls s q = Some (Rd n) \<Longrightarrow> asleep s q = None \<Longrightarrow> pipe_step s (step_read q n s)"
| run_write: "calls s q = Some (Wr addr n i) \<Longrightarrow> asleep s q = None \<Longrightarrow> pipe_step s (step_write q addr n i s)"
| close_read: "(\<And>q n. calls s q \<noteq> Some (Rd n)) \<Longrightarrow> pipeclose (pip s) False = (p, fr, wk) \<Longrightarrow>
    pipe_step s (s\<lparr>pip := p, asleep := wake wk (asleep s)\<rparr>)"
| close_write: "(\<And>q addr n i. calls s q \<noteq> Some (Wr addr n i)) \<Longrightarrow> pipeclose (pip s) True = (p, fr, wk) \<Longrightarrow>
    pipe_step s (s\<lparr>pip := p, asleep := wake wk (asleep s)\<rparr>)"
| kill: "pipe_step s (s\<lparr>killed := (killed s)(q := True), asleep := (asleep s)(q := None)\<rparr>)"

definition pipe_start :: "psys \<Rightarrow> bool" where
  "pipe_start s \<longleftrightarrow> (\<exists>p. length (pdata p) = PIPESIZE \<and> pip s = pipe_init p) \<and> calls s = (\<lambda>_. None) \<and>
     asleep s = (\<lambda>_. None) \<and> sent s = [] \<and> got s = []"

definition call_ok :: "pipe \<Rightarrow> call option \<Rightarrow> bool" where
  "call_ok p c \<longleftrightarrow> (case c of None \<Rightarrow> True | Some (Rd n) \<Rightarrow> readopen p
     | Some (Wr addr n i) \<Rightarrow> writeopen p \<and> i \<le> nat n \<and> nat n \<le> length addr)"

definition sleep_ok :: "psys \<Rightarrow> nat \<Rightarrow> bool" where
  "sleep_ok s q \<longleftrightarrow> (case asleep s q of None \<Rightarrow> True
     | Some ChanRead \<Rightarrow> (\<exists>n. calls s q = Some (Rd n)) \<and> (aborted s \<or> pcontents (pip s) = []) \<and>
         writeopen (pip s) \<and> \<not> killed s q
     | Some ChanWrite \<Rightarrow> (\<exists>addr n i. calls s q = Some (Wr addr n i)) \<and> length (pcontents (pip s)) = PIPESIZE \<and>
         readopen (pip s) \<and> \<not> killed s q)"

definition psys_inv :: "psys \<Rightarrow> bool" where
  "psys_inv s \<longleftrightarrow> pipe_inv (pip s) \<and> got s @ pcontents (pip s) = sent s \<and>
     (\<forall>q. call_ok (pip s) (calls s q) \<and> sleep_ok s q)"

lemma wake_None [simp]: "wake [] sl = sl"
  by (auto simp: wake_def fun_eq_iff split: option.splits)

lemma wake_Some: "wake cs sl q = Some c \<longleftrightarrow> sl q = Some c \<and> c \<notin> set cs"
  by (auto simp: wake_def split: option.splits)

lemma wake_cases: "wake cs sl q = None \<or> wake cs sl q = sl q \<and> sl q \<notin> Some ` set cs"
  by (auto simp: wake_def split: option.splits)

lemma run_write_inv:
  assumes inv: "psys_inv s" and c: "calls s q = Some (Wr addr n i)" and a: "asleep s q = None"
  shows "psys_inv (step_write q addr n i s)"
proof -
  have p: "pipe_inv (pip s)" and g: "got s @ pcontents (pip s) = sent s"
    and co: "\<And>r. call_ok (pip s) (calls s r)" and so: "\<And>r. sleep_ok s r"
    using inv by (auto simp: psys_inv_def)
  have i: "i \<le> nat n" "nat n \<le> length addr" "writeopen (pip s)" using co [of q] c by (auto simp: call_ok_def)
  define m where "m = min (nat n - i) (PIPESIZE - length (pcontents (pip s)))"
  define out where "out = (if i + m = nat n then Returns n
    else if \<not> readopen (pip s) \<or> killed s q then Returns (-1) else Blocks (i + m))"
  obtain p' wk where w: "pipewrite_loop (killed s q) addr n i (pip s) = (p', out, wk)"
    "pipe_inv p'" "pcontents p' = pcontents (pip s) @ take m (drop i addr)" "readopen p' = readopen (pip s)"
    "writeopen p' = writeopen (pip s)" "wk = (if i + m = nat n \<or> readopen (pip s) \<and> \<not> killed s q then [ChanRead] else [])"
    using pipewrite_loop_spec [OF p i(1,2), of "killed s q"] unfolding m_def [symmetric] out_def [symmetric] by blast
  let ?t = "step_write q addr n i s"
  have t: "pip ?t = p'" "sent ?t = sent s @ take m (drop i addr)" "got ?t = got s" "killed ?t = killed s"
    "calls ?t = (calls s)(q := (case out of Returns r \<Rightarrow> None | Blocks j \<Rightarrow> Some (Wr addr n j)))"
    "asleep ?t = (wake wk (asleep s))(q := (case out of Returns r \<Rightarrow> None | Blocks j \<Rightarrow> Some ChanWrite))"
    "aborted ?t = (aborted s \<or> killed s q \<and> out = Returns (-1))"
    by (simp_all add: step_write_def w(1,3))
  have im: "i + m \<le> nat n" using i(1) by (simp add: m_def)
  have full: "length (pcontents p') = PIPESIZE" if "i + m \<noteq> nat n"
  proof -
    have m: "m = PIPESIZE - length (pcontents (pip s))" using that i(1) by (auto simp: m_def min_def split: if_splits)
    have "length (take m (drop i addr)) = m" using im i(2) by simp
    then show ?thesis using p m by (simp add: w(3) pipe_inv_def pcontents_length)
  qed
  have cok: "call_ok p' (calls ?t r)" for r
    using co [of r] co [of q] c i im
    by (auto simp: t call_ok_def w(4,5) out_def split: option.splits call.splits)
  have sq: "sleep_ok ?t q"
    using full by (auto simp: sleep_ok_def t out_def w(4))
  have sr: "sleep_ok ?t r" if "r \<noteq> q" for r
  proof (cases "asleep ?t r")
    case (Some c)
    then have old: "asleep s r = Some c" "c \<notin> set wk" using that by (auto simp: t wake_Some)
    show ?thesis
    proof (cases c)
      case ChanRead
      with old so [of r] have "(\<exists>n. calls s r = Some (Rd n))" "writeopen (pip s)" "\<not> killed s r"
        by (auto simp: sleep_ok_def)
      moreover from this co [of r] have "readopen (pip s)" by (auto simp: call_ok_def)
      moreover have "aborted ?t" using w(6) old(2) ChanRead calculation(4) by (auto simp: t out_def)
      ultimately show ?thesis using Some ChanRead that by (simp add: sleep_ok_def t w(5))
    next
      case ChanWrite
      with old so [of r] have "length (pcontents (pip s)) = PIPESIZE" by (auto simp: sleep_ok_def)
      then have "pcontents p' = pcontents (pip s)" by (simp add: w(3) m_def)
      then show ?thesis using so [of r] old Some ChanWrite that by (simp add: sleep_ok_def t w(4,5))
    qed
  qed (simp add: sleep_ok_def)
  have "sleep_ok ?t r" for r using sq sr by (cases "r = q") auto
  then show ?thesis unfolding psys_inv_def using w(2) g cok by (auto simp: t(1-3) w(3))
qed

lemma run_read_inv:
  assumes inv: "psys_inv s" and c: "calls s q = Some (Rd n)" and a: "asleep s q = None"
  shows "psys_inv (step_read q n s)"
proof -
  have p: "pipe_inv (pip s)" and g: "got s @ pcontents (pip s) = sent s"
    and co: "\<And>r. call_ok (pip s) (calls s r)" and so: "\<And>r. sleep_ok s r"
    using inv by (auto simp: psys_inv_def)
  let ?t = "step_read q n s"
  show ?thesis
  proof (cases "nread (pip s) = nwrite (pip s) \<and> writeopen (pip s)")
    case True
    then have e: "pcontents (pip s) = []" by (simp add: pipe_empty_iff [symmetric])
    have t: "?t = s\<lparr>pip := pip s, got := got s @ [],
        calls := (calls s)(q := if killed s q then None else Some (Rd n)),
        asleep := (asleep s)(q := if killed s q then None else Some ChanRead)\<rparr>"
      using True by (simp add: step_read_def piperead_def)
    have "call_ok (pip s) (calls ?t r) \<and> sleep_ok ?t r" for r
      using co [of r] so [of r] co [of q] c True e
      by (auto simp: t call_ok_def sleep_ok_def split: option.splits chan.splits)
    then show ?thesis unfolding psys_inv_def using p g by (simp add: t)
  next
    case False
    obtain p' where r: "piperead_copy n 0 (pip s) = (p', take (nat n) (pcontents (pip s)))" "pipe_inv p'"
      "pcontents p' = drop (nat n) (pcontents (pip s))" "readopen p' = readopen (pip s)" "writeopen p' = writeopen (pip s)"
      using piperead_copy_spec [OF p, of n 0] by auto
    have t: "?t = s\<lparr>pip := p', got := got s @ take (nat n) (pcontents (pip s)), calls := (calls s)(q := None),
        asleep := (wake [ChanWrite] (asleep s))(q := None)\<rparr>"
      using False r(1) by (auto simp: step_read_def piperead_def)
    have "call_ok p' (calls ?t x) \<and> sleep_ok ?t x" for x
      using co [of x] so [of x] c r
      by (auto simp: t call_ok_def sleep_ok_def wake_def split: option.splits chan.splits call.splits)
    then show ?thesis unfolding psys_inv_def using r g by (simp add: t)
  qed
qed

lemma pcontents_flags [simp]:
  "pcontents (p\<lparr>readopen := b\<rparr>) = pcontents p" "pcontents (p\<lparr>writeopen := b\<rparr>) = pcontents p"
  "pipe_inv (p\<lparr>readopen := b\<rparr>) = pipe_inv p" "pipe_inv (p\<lparr>writeopen := b\<rparr>) = pipe_inv p"
  by (simp_all add: pcontents_def pipe_inv_def)

lemma sleep_ok_cong:
  "asleep t r = asleep s r \<Longrightarrow> calls t r = calls s r \<Longrightarrow> aborted t = aborted s \<Longrightarrow> pip t = pip s \<Longrightarrow>
    killed t r = killed s r \<Longrightarrow> sleep_ok t r = sleep_ok s r"
  unfolding sleep_ok_def by presburger

lemma sleep_ok_awake: "asleep t r = None \<Longrightarrow> sleep_ok t r"
  by (simp add: sleep_ok_def)

lemma pipe_step_inv: "pipe_step s t \<Longrightarrow> psys_inv s \<Longrightarrow> psys_inv t"
proof (induction rule: pipe_step.induct)
  case (begin_read s q n)
  then have "sleep_ok s q" "calls s q = None" by (simp_all add: psys_inv_def)
  then have "asleep s q = None"
    by (auto simp: sleep_ok_def split: option.splits chan.splits)
  let ?t = "s\<lparr>calls := (calls s)(q := Some (Rd n))\<rparr>"
  have "call_ok (pip s) (calls s r) \<and> sleep_ok s r" for r using begin_read by (simp add: psys_inv_def)
  then have "call_ok (pip s) (calls ?t r) \<and> sleep_ok ?t r" for r
    using \<open>asleep s q = None\<close> begin_read(2) sleep_ok_cong [of ?t r s] sleep_ok_awake [of ?t r]
    by (cases "r = q") (simp_all add: call_ok_def)
  with begin_read show ?case by (simp add: psys_inv_def)
next
  case (begin_write s q n addr)
  then have "sleep_ok s q" "calls s q = None" by (simp_all add: psys_inv_def)
  then have "asleep s q = None"
    by (auto simp: sleep_ok_def split: option.splits chan.splits)
  let ?t = "s\<lparr>calls := (calls s)(q := Some (Wr addr n 0))\<rparr>"
  have "call_ok (pip s) (calls s r) \<and> sleep_ok s r" for r using begin_write by (simp add: psys_inv_def)
  then have "call_ok (pip s) (calls ?t r) \<and> sleep_ok ?t r" for r
    using \<open>asleep s q = None\<close> begin_write(2,3) sleep_ok_cong [of ?t r s] sleep_ok_awake [of ?t r]
    by (cases "r = q") (simp_all add: call_ok_def)
  with begin_write show ?case by (simp add: psys_inv_def)
next
  case (run_read s q n)
  then show ?case by (intro run_read_inv)
next
  case (run_write s q addr n i)
  then show ?case by (intro run_write_inv)
next
  case (close_read s p fr wk)
  then have p: "p = (pip s)\<lparr>readopen := False\<rparr>" "wk = [ChanWrite]" by (auto simp: pipeclose_def)
  have "call_ok p (calls s r) \<and> sleep_ok (s\<lparr>pip := p, asleep := wake wk (asleep s)\<rparr>) r" for r
  proof -
    have "call_ok (pip s) (calls s r)" "sleep_ok s r" using close_read(3) by (simp_all add: psys_inv_def)
    then show ?thesis
      using close_read(1) [of r] unfolding p
      by (auto simp: call_ok_def sleep_ok_def wake_def split: option.splits call.splits chan.splits)
  qed
  then show ?case using close_read(3) by (simp add: psys_inv_def p)
next
  case (close_write s p fr wk)
  then have p: "p = (pip s)\<lparr>writeopen := False\<rparr>" "wk = [ChanRead]" by (auto simp: pipeclose_def)
  have "call_ok p (calls s r) \<and> sleep_ok (s\<lparr>pip := p, asleep := wake wk (asleep s)\<rparr>) r" for r
  proof -
    have "call_ok (pip s) (calls s r)" "sleep_ok s r" using close_write(3) by (simp_all add: psys_inv_def)
    then show ?thesis
      using close_write(1) [of r] unfolding p
      by (auto simp: call_ok_def sleep_ok_def wake_def split: option.splits call.splits chan.splits)
  qed
  then show ?case using close_write(3) by (simp add: psys_inv_def p)
next
  case (kill s q)
  let ?t = "s\<lparr>killed := (killed s)(q := True), asleep := (asleep s)(q := None)\<rparr>"
  have "sleep_ok s r" for r using kill by (simp add: psys_inv_def)
  then have "sleep_ok ?t r" for r
    using sleep_ok_cong [of ?t r s] sleep_ok_awake [of ?t r] by (cases "r = q") simp_all
  with kill show ?case by (simp add: psys_inv_def)
qed

lemma pipe_start_inv: "pipe_start s \<Longrightarrow> psys_inv s"
  by (auto simp: pipe_start_def psys_inv_def pipe_inv_def pipe_init_def pcontents_def call_ok_def sleep_ok_def)

interpretation pipe_sys: step_invariant pipe_start pipe_step psys_inv
  by unfold_locales (auto intro: pipe_start_inv pipe_step_inv)

section \<open>Properties\<close>


definition pipe_ex :: psys where
  "pipe_ex = \<lparr>pip = pipe_init \<lparr>plock = \<lparr>locked = False, lkname = [], lkcpu = None, pcs = []\<rparr>,
       pdata = replicate 512 0, nread = 5, nwrite = 7, readopen = False, writeopen = False\<rparr>,
     calls = (\<lambda>_. None), asleep = (\<lambda>_. None), killed = (\<lambda>_. False), sent = [], got = [], aborted = False\<rparr>"

lemma pipe_ex_start: "reach pipe_start pipe_step pipe_ex"
proof (rule reach_init)
  have "length (pdata \<lparr>plock = \<lparr>locked = False, lkname = [], lkcpu = None, pcs = []\<rparr>, pdata = replicate 512 (0 :: uchar),
    nread = 5, nwrite = 7, readopen = False, writeopen = False\<rparr>) = PIPESIZE" by (simp add: PIPESIZE_def)
  then show "pipe_start pipe_ex" unfolding pipe_start_def pipe_ex_def psys.simps by blast
qed

lemma pipe_ex_sel [simp]:
  "readopen (pip pipe_ex)" "writeopen (pip pipe_ex)" "pcontents (pip pipe_ex) = []" "pipe_inv (pip pipe_ex)"
  "nread (pip pipe_ex) = 0" "nwrite (pip pipe_ex) = 0"
  "calls pipe_ex = (\<lambda>_. None)" "asleep pipe_ex = (\<lambda>_. None)" "killed pipe_ex = (\<lambda>_. False)"
  "sent pipe_ex = []" "got pipe_ex = []" "\<not> aborted pipe_ex"
  by (simp_all add: pipe_ex_def pipe_init_def pcontents_def pipe_inv_def PIPESIZE_def)

text \<open>A writer puts \<open>bs\<close> into the fresh pipe.\<close>

definition pipe_ex_write :: "nat \<Rightarrow> uchar list \<Rightarrow> psys" where
  "pipe_ex_write q bs = step_write q bs (int (length bs)) 0 (pipe_ex\<lparr>calls := (\<lambda>_. None)(q := Some (Wr bs (int (length bs)) 0))\<rparr>)"

lemma pipe_ex_write_reach: "reach pipe_start pipe_step (pipe_ex_write q bs)"
  unfolding pipe_ex_write_def
  using reach_step [OF reach_step [OF pipe_ex_start begin_write [of pipe_ex q "int (length bs)" bs]] run_write]
  by simp

lemma pipe_ex_write_sent: "length bs \<le> 512 \<Longrightarrow> sent (pipe_ex_write q bs) = bs \<and> got (pipe_ex_write q bs) = []"
  using pipewrite_loop_spec [of "pip pipe_ex" 0 "int (length bs)" bs False]
  by (auto simp: pipe_ex_write_def step_write_def PIPESIZE_def)


text \<open>C16. No lost wakeup: as long as no killed writer has given up, a process sleeps in \<open>piperead\<close> only
  while the pipe is empty and its write end open, and in \<open>pipewrite\<close> only while the pipe is full and
  its read end open.\<close>

theorem pipe_no_lost_wakeup:
  assumes "reach pipe_start pipe_step s" and "\<not> aborted s"
  shows "(asleep s q = Some ChanRead \<longrightarrow> pcontents (pip s) = [] \<and> writeopen (pip s)) \<and>
    (asleep s q = Some ChanWrite \<longrightarrow> length (pcontents (pip s)) = PIPESIZE \<and> readopen (pip s))"
proof -
  have "sleep_ok s q" using pipe_sys.reach_inv [OF assms(1)] by (simp add: psys_inv_def)
  then show ?thesis using assms(2) by (auto simp: sleep_ok_def)
qed

text \<open>A reader that sleeps on the fresh pipe.\<close>

definition pipe_ex_read :: psys where
  "pipe_ex_read = step_read 1 1 (pipe_ex\<lparr>calls := (\<lambda>_. None)(1 := Some (Rd 1))\<rparr>)"

lemma pipe_ex_read_reach: "reach pipe_start pipe_step pipe_ex_read"
  unfolding pipe_ex_read_def
  using reach_step [OF reach_step [OF pipe_ex_start begin_read [of pipe_ex 1 1]] run_read] by simp

lemma pipe_ex_read_eq:
  "pipe_ex_read = pipe_ex\<lparr>calls := (\<lambda>_. None)(1 := Some (Rd 1)), asleep := (\<lambda>_. None)(1 := Some ChanRead)\<rparr>"
  by (simp add: pipe_ex_read_def step_read_def piperead_def)

theorem pipe_no_lost_wakeup_witness:
  "asleep pipe_ex_read 1 = Some ChanRead \<and> pcontents (pip pipe_ex_read) = [] \<and> writeopen (pip pipe_ex_read)"
  using pipe_no_lost_wakeup [OF pipe_ex_read_reach, of 1] by (simp add: pipe_ex_read_eq)

text \<open>C17. The exception is real: a killed writer that fills the pipe returns -1 without calling
  \<open>wakeup\<close>, and a reader can be left asleep on a pipe that holds \<open>PIPESIZE\<close> bytes.\<close>

theorem pipe_killed_writer_lost_wakeup:
  "\<exists>s q. reach pipe_start pipe_step s \<and> asleep s q = Some ChanRead \<and> length (pcontents (pip s)) = PIPESIZE \<and>
     writeopen (pip s)"
proof -
  let ?bs = "replicate 513 (65 :: uchar)"
  let ?s = "pipe_ex_read\<lparr>calls := (calls pipe_ex_read)(2 := Some (Wr ?bs 513 0))\<rparr>"
  let ?k = "?s\<lparr>killed := (killed ?s)(2 := True), asleep := (asleep ?s)(2 := None)\<rparr>"
  have "reach pipe_start pipe_step ?s"
    by (rule reach_step [OF pipe_ex_read_reach begin_write]) (simp_all add: pipe_ex_read_eq)
  then have "reach pipe_start pipe_step ?k" by (rule reach_step) (rule kill)
  then have r: "reach pipe_start pipe_step (step_write 2 ?bs 513 0 ?k)"
    by (rule reach_step) (rule run_write; simp add: pipe_ex_read_eq)
  obtain p wk where p: "pipewrite_loop True ?bs 513 0 (pip pipe_ex) = (p, Returns (-1), wk)"
    "length (pcontents p) = 512" "writeopen p" and wk: "wk = []"
    using pipewrite_loop_spec [of "pip pipe_ex" 0 513 ?bs True] by (auto simp: PIPESIZE_def)
  show ?thesis
    by (intro exI [of _ "step_write 2 ?bs 513 0 ?k"] exI [of _ 1] conjI r)
      (simp_all add: step_write_def pipe_ex_read_eq p wk PIPESIZE_def)
qed

end
