(* ===== verification/File.thy ===== *)
theory File
  imports Fs Pipe
begin

text \<open>
  Open files (\<open>file.c\<close>, \<open>struct file\<close> of \<open>file.h\<close>) and \<open>pipealloc\<close> of \<open>pipe.c\<close>.  A file pointer is an index into
  \<open>ftable.file\<close>.  A pipe lives in a page of \<open>kalloc\<close>; \<open>page_pipe\<close> is that page read as a
  \<open>struct pipe\<close>.  A call that has to wait for the other
  end of a pipe stops with \<open>Sleeps\<close>; the channels it wakes are recorded in \<open>wakeups\<close>.
\<close>

section \<open>Definitions\<close>

definition NFILE :: nat where [param_defs]: "NFILE = 100"

datatype ftype = FD_NONE | FD_PIPE | FD_INODE

record kfile =
  f_type :: ftype
  f_ref :: int
  f_readable :: bool
  f_writable :: bool
  f_pipe :: uint
  f_ip :: "nat option"
  f_off :: uint

record fsys = fs +
  ftable_lock :: spinlock
  ftable :: "nat \<Rightarrow> kfile"
  page_pipe :: "uint \<Rightarrow> pipe"
  wakeups :: "(uint \<times> chan) list"

definition upd_file :: "nat \<Rightarrow> (kfile \<Rightarrow> kfile) \<Rightarrow> 'a fsys_scheme \<Rightarrow> 'a fsys_scheme" where
  "upd_file f g s = s\<lparr>ftable := (ftable s)(f := g (ftable s f))\<rparr>"

definition inode_of :: "nat option \<Rightarrow> ('s, nat) kern" where
  "inode_of p = (case p of Some ip \<Rightarrow> kret ip | None \<Rightarrow> kpanic ''ilock'')"

definition fileinit :: "('a fsys_scheme, unit) kern" where
  "fileinit = kmod (\<lambda>s. s\<lparr>ftable_lock := init_lock ''ftable'' (ftable_lock s)\<rparr>)"

definition filealloc :: "('a fsys_scheme, nat option) kern" where
  "filealloc = (\<lambda>s.
     case find (\<lambda>f. f_ref (ftable s f) = 0) [0..<NFILE] of
       Some f \<Rightarrow> Inr (Some f, upd_file f (\<lambda>x. x\<lparr>f_ref := 1\<rparr>) s)
     | None \<Rightarrow> Inr (None, s))"

definition filedup :: "nat \<Rightarrow> ('a fsys_scheme, nat) kern" where
  "filedup f =
     kbind (kget (\<lambda>s. f_ref (ftable s f))) (\<lambda>r.
     if r < 1 then kpanic ''filedup''
     else kthen (kmod (upd_file f (\<lambda>x. x\<lparr>f_ref := f_ref x + 1\<rparr>))) (kret f))"

text \<open>\<open>pipeclose\<close> on the pipe in a page, and \<open>kfree\<close> of the page when both ends are closed.\<close>

definition close_pipe :: "uint \<Rightarrow> bool \<Rightarrow> ('a fsys_scheme, unit) kern" where
  "close_pipe p writable =
     kbind (kget (\<lambda>s. pipeclose (page_pipe s p) writable)) (\<lambda>(q, freed, ws).
     kthen (kmod (\<lambda>s. s\<lparr>page_pipe := (page_pipe s)(p := q), wakeups := wakeups s @ map (Pair p) ws\<rparr>))
     (if freed then kfree p else kret ()))"

definition fileclose :: "nat \<Rightarrow> ('a fsys_scheme, unit) kern" where
  "fileclose f =
     kbind (kget (\<lambda>s. f_ref (ftable s f))) (\<lambda>r.
     if r < 1 then kpanic ''fileclose'' else
     kthen (kmod (upd_file f (\<lambda>x. x\<lparr>f_ref := f_ref x - 1\<rparr>)))
     (kbind (kget (\<lambda>s. ftable s f)) (\<lambda>ff.
     if f_ref ff > 0 then kret () else
     kthen (kmod (upd_file f (\<lambda>x. x\<lparr>f_ref := 0, f_type := FD_NONE\<rparr>)))
     (case f_type ff of
        FD_PIPE \<Rightarrow> close_pipe (f_pipe ff) (f_writable ff)
      | FD_INODE \<Rightarrow>
          kthen begin_op
          (kthen (kbind (inode_of (f_ip ff)) iput)
          end_op)
      | FD_NONE \<Rightarrow> kret ()))))"

definition filestat :: "nat \<Rightarrow> ('a fsys_scheme, stat option) kern" where
  "filestat f =
     kbind (kget (\<lambda>s. ftable s f)) (\<lambda>ff.
     if f_type ff = FD_INODE then
       kbind (inode_of (f_ip ff)) (\<lambda>ip.
       kthen (ilock ip)
       (kbind (stati ip) (\<lambda>st.
       kthen (iunlock ip)
       (kret (Some st)))))
     else kret None)"

definition fileread :: "(nat \<Rightarrow> 'a fsys_scheme devsw) \<Rightarrow> nat \<Rightarrow> int \<Rightarrow> ('a fsys_scheme, int \<times> uchar list) kern" where
  "fileread dv f n =
     kbind (kget (\<lambda>s. ftable s f)) (\<lambda>ff.
     if \<not> f_readable ff then kret (- 1, []) else
     case f_type ff of
       FD_PIPE \<Rightarrow> (\<lambda>s.
         case piperead (p_killed (myproc s)) (page_pipe s (f_pipe ff)) n of
           (q, Returns r, bs, ws) \<Rightarrow> Inr ((r, bs), s\<lparr>page_pipe := (page_pipe s)(f_pipe ff := q),
             wakeups := wakeups s @ map (Pair (f_pipe ff)) ws\<rparr>)
         | (q, Blocks i, bs, ws) \<Rightarrow> Inl (Sleeps ''piperead''))
     | FD_INODE \<Rightarrow>
         kbind (inode_of (f_ip ff)) (\<lambda>ip.
         kthen (ilock ip)
         (kbind (readi dv ip (f_off ff) (of_int n)) (\<lambda>(r, bs).
         kthen (if r > 0 then kmod (upd_file f (\<lambda>x. x\<lparr>f_off := f_off x + of_int r\<rparr>)) else kret ())
         (kthen (iunlock ip)
         (kret (r, bs))))))
     | FD_NONE \<Rightarrow> kpanic ''fileread'')"

definition write_max :: int where
  "write_max = ((int MAXOPBLOCKS - 1 - 1 - 2) div 2) * 512"

function filewrite_loop :: "(nat \<Rightarrow> 'a fsys_scheme devsw) \<Rightarrow> nat \<Rightarrow> nat \<Rightarrow> uchar list \<Rightarrow> int \<Rightarrow> int \<Rightarrow> ('a fsys_scheme, int) kern" where
  "filewrite_loop dv f ip addr n i =
     (if i < n then
        let n1 = (if n - i > write_max then write_max else n - i) in
        kthen begin_op
        (kthen (ilock ip)
        (kbind (kget (\<lambda>s. f_off (ftable s f))) (\<lambda>off.
        kbind (writei dv ip (drop (nat i) addr) off (of_int n1)) (\<lambda>r.
        kthen (if r > 0 then kmod (upd_file f (\<lambda>x. x\<lparr>f_off := f_off x + of_int r\<rparr>)) else kret ())
        (kthen (iunlock ip)
        (kthen end_op
        (if r < 0 then kret i
         else if r \<noteq> n1 then kpanic ''short filewrite''
         else filewrite_loop dv f ip addr n (i + n1))))))))
      else kret i)"
  by pat_completeness auto
termination
  by (relation "measure (\<lambda>(dv, f, ip, addr, n, i). nat (n - i))") (auto simp: write_max_def MAXOPBLOCKS_def)

declare filewrite_loop.simps [simp del]

definition filewrite :: "(nat \<Rightarrow> 'a fsys_scheme devsw) \<Rightarrow> nat \<Rightarrow> uchar list \<Rightarrow> int \<Rightarrow> ('a fsys_scheme, int) kern" where
  "filewrite dv f addr n =
     kbind (kget (\<lambda>s. ftable s f)) (\<lambda>ff.
     if \<not> f_writable ff then kret (- 1) else
     case f_type ff of
       FD_PIPE \<Rightarrow> (\<lambda>s.
         case pipewrite (p_killed (myproc s)) (page_pipe s (f_pipe ff)) addr n of
           (q, Returns r, ws) \<Rightarrow> Inr (r, s\<lparr>page_pipe := (page_pipe s)(f_pipe ff := q),
             wakeups := wakeups s @ map (Pair (f_pipe ff)) ws\<rparr>)
         | (q, Blocks i, ws) \<Rightarrow> Inl (Sleeps ''pipewrite''))
     | FD_INODE \<Rightarrow>
         kbind (inode_of (f_ip ff)) (\<lambda>ip.
         kbind (filewrite_loop dv f ip addr n 0) (\<lambda>i.
         kret (if i = n then n else - 1)))
     | FD_NONE \<Rightarrow> kpanic ''filewrite'')"

definition filelock :: "nat \<Rightarrow> ('a fsys_scheme, int) kern" where
  "filelock fp =
     kbind (kget (\<lambda>s. (f_ip (ftable s fp), icache s))) (\<lambda>(p, ic).
     if (case p of None \<Rightarrow> True | Some ip \<Rightarrow> i_ref (ic ip) < 1) then kret (- 1)
     else kthen (fsemaphore_lock p) (kret 0))"

definition fileunlock :: "nat \<Rightarrow> ('a fsys_scheme, int) kern" where
  "fileunlock fp =
     kbind (kget (\<lambda>s. (f_ip (ftable s fp), icache s, curpid s))) (\<lambda>(p, ic, pid).
     if (case p of None \<Rightarrow> False | Some ip \<Rightarrow> holdingsleep pid (i_flock (ic ip)) \<and> \<not> i_ref (ic ip) < 1)
     then kthen (fsemaphore_unlock p) (kret 0)
     else kret (- 1))"

subsection \<open>pipealloc\<close>

definition file_pipe :: "bool \<Rightarrow> uint \<Rightarrow> kfile \<Rightarrow> kfile" where
  "file_pipe rd p x = x\<lparr>f_type := FD_PIPE, f_readable := rd, f_writable := \<not> rd, f_pipe := p\<rparr>"

definition pipealloc :: "('a fsys_scheme, (nat \<times> nat) option) kern" where
  "pipealloc =
     kbind filealloc (\<lambda>r0.
     case r0 of
       None \<Rightarrow> kret None
     | Some f0 \<Rightarrow>
         kbind filealloc (\<lambda>r1.
         case r1 of
           None \<Rightarrow> kthen (fileclose f0) (kret None)
         | Some f1 \<Rightarrow>
             kbind kalloc (\<lambda>p.
             if p = 0 then kthen (fileclose f0) (kthen (fileclose f1) (kret None))
             else
               kthen (kmod (\<lambda>s. s\<lparr>page_pipe := (page_pipe s)(p := pipe_init (page_pipe s p))\<rparr>))
               (kthen (kmod (upd_file f0 (file_pipe True p)))
               (kthen (kmod (upd_file f1 (file_pipe False p)))
               (kret (Some (f0, f1))))))))"

section \<open>Examples\<close>

definition file_ex :: kfile where
  "file_ex = \<lparr>f_type = FD_NONE, f_ref = 0, f_readable = False, f_writable = False, f_pipe = 0, f_ip = None, f_off = 0\<rparr>"

definition fsys_ex :: fsys where
  "fsys_ex = fs.extend fs_ex
     \<lparr>ftable_lock = \<lparr>locked = False, lkname = [], lkcpu = None, pcs = []\<rparr>, ftable = (\<lambda>_. file_ex),
      page_pipe = (\<lambda>_. \<lparr>plock = \<lparr>locked = False, lkname = [], lkcpu = None, pcs = []\<rparr>, pdata = replicate PIPESIZE 0, nread = 0,
        nwrite = 0, readopen = False, writeopen = False\<rparr>), wakeups = []\<rparr>"

end
