(* ===== verification/Printf.thy ===== *)
theory Printf
  imports CString
begin

text \<open>
  Formatted output: \<open>printf.c\<close> (user library) and the copy of it in \<open>ticks.c\<close> (kernel device).  A
  format and the strings it prints are lists of bytes; the variable arguments are a list.  The sink
  has the bytes written to the file descriptor and the caller's buffer; a store outside that
  buffer is undefined behaviour.  Integers keep their width: \<open>length\<close> is an \<open>int\<close> that the code
  compares with an \<open>uint\<close>, so it is converted to 32 bits first.
\<close>

section \<open>Definitions\<close>

datatype parg = AInt uint | AStr "uchar list option"

record psink =
  fdout :: "uchar list"
  obuf :: "uchar list"

type_synonym putfun = "nat \<Rightarrow> uint \<Rightarrow> uint \<Rightarrow> uchar \<Rightarrow> (psink, unit) kern"

text \<open>\<open>base\<close> is the offset of the \<open>outbuffer\<close> argument in the caller's buffer.\<close>

definition s_putc :: putfun where
  "s_putc base len index c = kmod (\<lambda>s. s\<lparr>fdout := fdout s @ [c]\<rparr>)"

definition s_sputc :: putfun where
  "s_sputc base len index c = (\<lambda>s.
     if index < len then
       if base + unat index < length (obuf s) then Inr ((), s\<lparr>obuf := (obuf s)[base + unat index := c]\<rparr>)
       else Inl (Undef ''outbuffer'')
     else Inr ((), s))"

definition digit :: "uint \<Rightarrow> uchar" where
  "digit d = (if d < 10 then 48 + ucast d else 55 + ucast d)"

text \<open>The digit loop of \<open>s_getReverseDigits\<close>, and the one of \<open>s_getReverse\<close> in \<open>ticks.c\<close>, whose
  condition tests the argument \<open>x\<close> and not the number \<open>a\<close> that is divided.\<close>

function digit_loop :: "nat \<Rightarrow> uint \<Rightarrow> nat \<Rightarrow> uint \<Rightarrow> uchar list" where
  "digit_loop len base i x =
     (if i + 1 < len \<and> x \<noteq> 0 then digit (x mod base) # digit_loop len base (Suc i) (x div base) else [])"
  by pat_completeness auto
termination by (relation "measure (\<lambda>(len, base, i, x). len - i)") auto

declare digit_loop.simps [simp del]

function reverse_loop :: "nat \<Rightarrow> uint \<Rightarrow> uint \<Rightarrow> nat \<Rightarrow> uint \<Rightarrow> uchar list" where
  "reverse_loop len base x i a =
     (if i + 1 < len \<and> x \<noteq> 0 then digit (a mod base) # reverse_loop len base x (Suc i) (a div base) else [])"
  by pat_completeness auto
termination by (relation "measure (\<lambda>(len, base, x, i, a). len - i)") auto

declare reverse_loop.simps [simp del]

definition s_getReverseDigits :: "nat \<Rightarrow> uint \<Rightarrow> uint \<Rightarrow> bool \<Rightarrow> uchar list" where
  "s_getReverseDigits len xx base sg =
     (let neg = sg \<and> sint xx < 0;
          x = (if neg then - xx else xx);
          ds = digit_loop len base 0 x;
          ds = (if xx = 0 \<and> length ds + 1 < len then ds @ [digit 0] else ds)
      in if neg \<and> length ds < len then ds @ [45] else ds)"

definition s_getReverse :: "nat \<Rightarrow> uint \<Rightarrow> uint \<Rightarrow> bool \<Rightarrow> uchar list" where
  "s_getReverse len x base sg =
     (let n = sg \<and> sint x < 0;
          a = (if n then - x else x);
          ds = reverse_loop len base x 0 a;
          ds = (if x = 0 \<and> length ds + 1 < len then ds @ [digit 0] else ds)
      in if n \<and> length ds < len then ds @ [45] else ds)"

text \<open>The output loop of \<open>s_printint\<close>: \<open>localBuffer\<close> from the last character to the first.\<close>

fun put_digits :: "putfun \<Rightarrow> nat \<Rightarrow> uint \<Rightarrow> nat \<Rightarrow> uchar list \<Rightarrow> (psink, unit) kern" where
  "put_digits put base len j [] = kret ()"
| "put_digits put base len j (c # cs) =
     (if of_nat j < len then kthen (put base len (of_nat j) c) (put_digits put base len (Suc j) cs) else kret ())"

definition s_printint :: "(nat \<Rightarrow> uint \<Rightarrow> uint \<Rightarrow> bool \<Rightarrow> uchar list) \<Rightarrow> putfun \<Rightarrow> nat \<Rightarrow> uint \<Rightarrow> uint \<Rightarrow> uint \<Rightarrow> bool \<Rightarrow>
    (psink, uint) kern" where
  "s_printint rev_digits put outbuf len xx base sg =
     (let ds = rev_digits 16 xx base sg in
      kthen (put_digits put outbuf len 0 (rev ds)) (kret (of_nat (length ds))))"

definition s_min :: "uint \<Rightarrow> uint \<Rightarrow> uint" where
  "s_min a b = (if a < b then a else b)"

fun put_string :: "putfun \<Rightarrow> uint \<Rightarrow> uint \<Rightarrow> uchar list \<Rightarrow> (psink, uint) kern" where
  "put_string put len outindex [] = kret outindex"
| "put_string put len outindex (c # cs) =
     (if c = 0 then kret outindex
      else kthen (put 0 len outindex c) (put_string put len (outindex + 1) cs))"

definition null_text :: "uchar list" where
  "null_text = [40, 110, 117, 108, 108, 41]"

text \<open>The loop of \<open>s_printf\<close>; \<open>st\<close> says that a percent sign has been read.\<close>

fun s_printf_loop :: "(nat \<Rightarrow> uint \<Rightarrow> uint \<Rightarrow> bool \<Rightarrow> uchar list) \<Rightarrow> putfun \<Rightarrow> uint \<Rightarrow> bool \<Rightarrow> uchar list \<Rightarrow> uint \<Rightarrow>
    parg list \<Rightarrow> (psink, uint) kern" where
  "s_printf_loop rd put len st [] outindex ap = kret outindex"
| "s_printf_loop rd put len st (c # cs) outindex ap =
     (if c = 0 \<or> \<not> outindex < len then kret outindex
      else if \<not> st then
        if c = 37 then s_printf_loop rd put len True cs outindex ap
        else kthen (put 0 len outindex c) (s_printf_loop rd put len False cs (outindex + 1) ap)
      else if c = 100 then
        (case ap of AInt v # ap' \<Rightarrow>
           kbind (s_printint rd put (unat outindex) (len - outindex) v 10 True) (\<lambda>r.
           s_printf_loop rd put len False cs (outindex + r) ap') | _ \<Rightarrow> kundef ''argument'')
      else if c = 120 \<or> c = 112 then
        (case ap of AInt v # ap' \<Rightarrow>
           kbind (s_printint rd put (unat outindex) (len - outindex) v 16 False) (\<lambda>r.
           s_printf_loop rd put len False cs (outindex + r) ap') | _ \<Rightarrow> kundef ''argument'')
      else if c = 115 then
        (case ap of AStr s # ap' \<Rightarrow>
           kbind (put_string put len outindex (case s of None \<Rightarrow> null_text | Some t \<Rightarrow> t)) (\<lambda>oi.
           s_printf_loop rd put len False cs oi ap') | _ \<Rightarrow> kundef ''argument'')
      else if c = 99 then
        (case ap of AInt v # ap' \<Rightarrow>
           kthen (put 0 len outindex (ucast v)) (s_printf_loop rd put len False cs (outindex + 1) ap')
         | _ \<Rightarrow> kundef ''argument'')
      else if c = 37 then
        kthen (put 0 len outindex c) (s_printf_loop rd put len False cs (outindex + 1) ap)
      else
        kthen (put 0 len outindex 37) (kthen (put 0 len (outindex + 1) c)
        (s_printf_loop rd put len False cs (outindex + 2) ap)))"

definition s_printf :: "(nat \<Rightarrow> uint \<Rightarrow> uint \<Rightarrow> bool \<Rightarrow> uchar list) \<Rightarrow> putfun \<Rightarrow> int \<Rightarrow> uchar list \<Rightarrow> parg list \<Rightarrow>
    (psink, uint) kern" where
  "s_printf rd put n fmt ap =
     (let len = of_int (n - 1) in
      kbind (s_printf_loop rd put len False fmt 0 ap) (\<lambda>outindex. kret (s_min len outindex)))"

definition snprintf :: "(nat \<Rightarrow> uint \<Rightarrow> uint \<Rightarrow> bool \<Rightarrow> uchar list) \<Rightarrow> int \<Rightarrow> uchar list \<Rightarrow> parg list \<Rightarrow> (psink, uint) kern" where
  "snprintf rd n fmt ap =
     kbind (s_printf rd s_sputc n fmt ap) (\<lambda>count.
     kthen (if count < of_int n then s_sputc 0 (count + 1) count 0 else kret ())
     (kret count))"

definition printf :: "uchar list \<Rightarrow> parg list \<Rightarrow> (psink, unit) kern" where
  "printf fmt ap = kthen (s_printf s_getReverseDigits s_putc (2 ^ 30) fmt ap) (kret ())"

text \<open>\<open>ticks.c\<close>: the string copy of the device, and the read function for the value \<open>t\<close> of \<open>ticks\<close>.\<close>

fun cnputs_loop :: "nat \<Rightarrow> uchar list \<Rightarrow> nat \<Rightarrow> uchar list" where
  "cnputs_loop n [] itr = []"
| "cnputs_loop n (c # cs) itr = (if itr < n \<and> c \<noteq> 0 then c # cnputs_loop n cs (Suc itr) else [])"

definition s_cnputs :: "nat \<Rightarrow> uchar list \<Rightarrow> uchar list \<times> nat" where
  "s_cnputs n str =
     (let cs = cnputs_loop n str 0 in
      (if length cs < n then cs @ [0] else cs, length cs + 1))"

definition ticksread :: "uint \<Rightarrow> nat \<Rightarrow> (psink, uchar list \<times> nat) kern" where
  "ticksread t n =
     kthen (snprintf s_getReverse 512 [37, 100] [AInt t])
     (kbind (kget obuf) (\<lambda>b. kret (s_cnputs n b)))"

subsection \<open>Reference: the text a format denotes\<close>

fun fmt_text :: "(nat \<Rightarrow> uint \<Rightarrow> uint \<Rightarrow> bool \<Rightarrow> uchar list) \<Rightarrow> bool \<Rightarrow> uchar list \<Rightarrow> parg list \<Rightarrow> uchar list option" where
  "fmt_text rd st [] ap = Some []"
| "fmt_text rd st (c # cs) ap =
     (if c = 0 then Some []
      else if \<not> st then
        if c = 37 then fmt_text rd True cs ap else map_option (Cons c) (fmt_text rd False cs ap)
      else if c = 100 then
        (case ap of AInt v # ap' \<Rightarrow> map_option ((@) (rev (rd 16 v 10 True))) (fmt_text rd False cs ap') | _ \<Rightarrow> None)
      else if c = 120 \<or> c = 112 then
        (case ap of AInt v # ap' \<Rightarrow> map_option ((@) (rev (rd 16 v 16 False))) (fmt_text rd False cs ap') | _ \<Rightarrow> None)
      else if c = 115 then
        (case ap of AStr s # ap' \<Rightarrow>
           map_option ((@) (takeWhile (\<lambda>c. c \<noteq> 0) (case s of None \<Rightarrow> null_text | Some t \<Rightarrow> t)))
             (fmt_text rd False cs ap') | _ \<Rightarrow> None)
      else if c = 99 then
        (case ap of AInt v # ap' \<Rightarrow> map_option (Cons (ucast v)) (fmt_text rd False cs ap') | _ \<Rightarrow> None)
      else if c = 37 then map_option (Cons 37) (fmt_text rd False cs ap)
      else map_option (\<lambda>t. 37 # c # t) (fmt_text rd False cs ap))"

text \<open>Buffer \<open>b\<close> after the text \<open>t\<close> has been printed into its first \<open>l\<close> bytes.\<close>

definition printed :: "uchar list \<Rightarrow> nat \<Rightarrow> uchar list \<Rightarrow> uchar list" where
  "printed b l t = take l t @ drop (min l (length t)) b"

section \<open>Lemmas\<close>

lemma printed_Nil [simp]: "printed b l [] = b"
  by (simp add: printed_def)

lemma printed_length: "l \<le> length b \<Longrightarrow> length (printed b l t) = length b"
  by (simp add: printed_def min_def)

lemma printed_over: "l \<le> length t \<Longrightarrow> printed b l (t @ u) = printed b l t"
  by (simp add: printed_def)

lemma printed_snoc:
  assumes "length t < l" and "l \<le> length b"
  shows "(printed b l t)[length t := c] = printed b l (t @ [c])"
proof -
  have "min l (Suc (length t)) = Suc (length t)" using assms by simp
  then show ?thesis
    using assms by (simp add: printed_def list_update_append Cons_nth_drop_Suc [symmetric])
qed

text \<open>One character at position \<open>length t\<close> of the output.\<close>

lemma sputc_printed:
  assumes s: "obuf s = printed b (unat len) t" and l: "unat len \<le> length b"
    and i: "base + unat i = length t" "i < len' \<longleftrightarrow> length t < unat len"
  shows "s_sputc base len' i c s = Inr ((), s\<lparr>obuf := printed b (unat len) (t @ [c])\<rparr>)"
proof (cases "length t < unat len")
  case True
  then show ?thesis using assms by (simp add: s_sputc_def printed_length printed_snoc)
next
  case False
  then have "printed b (unat len) (t @ [c]) = obuf s" using printed_over [of "unat len" t b "[c]"] s by simp
  then show ?thesis using False i by (cases s) (simp add: s_sputc_def)
qed

lemma put_digits_printed:
  assumes l: "unat len \<le> length b" and o: "oi < len" and k: "length t = unat oi + j"
    and small: "j + length cs < 2 ^ 32" and s: "obuf s = printed b (unat len) t"
  shows "put_digits s_sputc (unat oi) (len - oi) j cs s
           = Inr ((), s\<lparr>obuf := printed b (unat len) (t @ cs)\<rparr>)"
  using k small s
proof (induction cs arbitrary: t j s)
  case Nil
  then show ?case by (cases s) (simp add: kmonad_simps)
next
  case (Cons c cs)
  have j: "unat (of_nat j :: uint) = j" using Cons.prems by (simp add: unat_of_nat)
  have sub: "unat (len - oi) = unat len - unat oi" using o by (simp add: unat_sub order.strict_implies_order)
  have lt: "(of_nat j :: uint) < len - oi \<longleftrightarrow> length t < unat len"
    using Cons.prems(1) o by (simp add: word_less_nat_alt j sub) linarith
  show ?case
  proof (cases "length t < unat len")
    case True
    have "s_sputc (unat oi) (len - oi) (of_nat j) c s = Inr ((), s\<lparr>obuf := printed b (unat len) (t @ [c])\<rparr>)"
      by (rule sputc_printed [OF Cons.prems(3) l]) (simp_all add: j Cons.prems(1) lt)
    then show ?thesis
      using True Cons.IH [of "t @ [c]" "Suc j" "s\<lparr>obuf := printed b (unat len) (t @ [c])\<rparr>"] Cons.prems
      by (simp add: kmonad_simps lt)
  next
    case False
    then show ?thesis
      using Cons.prems printed_over [of "unat len" t b "c # cs"]
      by (cases s) (simp add: kmonad_simps lt)
  qed
qed

lemma put_string_printed:
  assumes l: "unat len \<le> length b" and k: "length t = unat oi"
    and small: "length t + length (takeWhile (\<lambda>c. c \<noteq> 0) cs) < 2 ^ 32" and s: "obuf s = printed b (unat len) t"
  shows "put_string s_sputc len oi cs s
           = Inr (oi + of_nat (length (takeWhile (\<lambda>c. c \<noteq> 0) cs)),
                  s\<lparr>obuf := printed b (unat len) (t @ takeWhile (\<lambda>c. c \<noteq> 0) cs)\<rparr>)"
  using k small s
proof (induction cs arbitrary: t oi s)
  case Nil
  then show ?case by (cases s) (simp add: kmonad_simps)
next
  case (Cons c cs)
  have put: "s_sputc 0 len oi c s = Inr ((), s\<lparr>obuf := printed b (unat len) (t @ [c])\<rparr>)"
    by (rule sputc_printed [OF Cons.prems(3) l]) (simp_all add: Cons.prems(1) word_less_nat_alt)
  show ?case
  proof (cases "c = 0")
    case True
    then show ?thesis using Cons.prems by (cases s) (simp add: kmonad_simps)
  next
    case False
    have i: "unat (oi + 1) = Suc (unat oi)"
      using Cons.prems False by (simp add: unat_word_ariths)
    show ?thesis
      using False Cons.IH [of "t @ [c]" "oi + 1" "s\<lparr>obuf := printed b (unat len) (t @ [c])\<rparr>"] Cons.prems
      by (simp add: kmonad_simps put i)
  qed
qed


text \<open>The rest \<open>m\<close> of the loop prints the rest \<open>r\<close> of the text, or stops early with the buffer full.\<close>

definition prints :: "uchar list \<Rightarrow> uint \<Rightarrow> uchar list \<Rightarrow> uchar list \<Rightarrow> (psink, uint) kern \<Rightarrow> psink \<Rightarrow> bool" where
  "prints b len t r m s \<longleftrightarrow> (\<exists>u v. r = u @ v \<and> (v = [] \<or> unat len \<le> length (t @ u)) \<and>
     m s = Inr (of_nat (length (t @ u)), s\<lparr>obuf := printed b (unat len) (t @ u)\<rparr>))"

lemma prints_stop:
  assumes "obuf s = printed b (unat len) t" "length t = unat oi" "r = [] \<or> unat len \<le> length t"
  shows "prints b len t r (kret oi) s"
  unfolding prints_def by (rule exI [of _ "[]"], rule exI [of _ r]) (use assms in \<open>cases s; simp add: kmonad_simps\<close>)

lemma prints_step:
  assumes "prints b len (t @ w) r m' (s\<lparr>obuf := x\<rparr>)" and "m s = m' (s\<lparr>obuf := x\<rparr>)"
  shows "prints b len t (w @ r) m s"
proof -
  obtain u v where *: "r = u @ v" "v = [] \<or> unat len \<le> length ((t @ w) @ u)"
    "m' (s\<lparr>obuf := x\<rparr>) = Inr (of_nat (length ((t @ w) @ u)), s\<lparr>obuf := x\<rparr>\<lparr>obuf := printed b (unat len) ((t @ w) @ u)\<rparr>)"
    using assms(1) unfolding prints_def by blast
  show ?thesis
    unfolding prints_def by (rule exI [of _ "w @ u"], rule exI [of _ v]) (use * assms(2) in simp)
qed

lemma printint_printed:
  assumes l: "unat len \<le> length b" and o: "oi < len" and k: "length t = unat oi"
    and small: "length (rd 16 v base sg) < 2 ^ 32" and s: "obuf s = printed b (unat len) t"
  shows "s_printint rd s_sputc (unat oi) (len - oi) v base sg s
           = Inr (of_nat (length (rd 16 v base sg)), s\<lparr>obuf := printed b (unat len) (t @ rev (rd 16 v base sg))\<rparr>)"
  using put_digits_printed [OF l o, of t 0 "rev (rd 16 v base sg)" s] k small s
  by (simp add: s_printint_def Let_def kmonad_simps)

lemma loop_printed:
  assumes l: "unat len \<le> length b"
  shows "fmt_text rd st cs ap = Some r \<Longrightarrow> length t = unat oi \<Longrightarrow> length t + length r < 2 ^ 32 \<Longrightarrow>
    obuf s = printed b (unat len) t \<Longrightarrow> prints b len t r (s_printf_loop rd s_sputc len st cs oi ap) s"
proof (induction cs arbitrary: st ap r t oi s)
  case Nil
  then show ?case by (simp add: prints_stop)
next
  case (Cons c cs)
  let ?p = "\<lambda>t. printed b (unat len) t"
  let ?s = "\<lambda>t. s\<lparr>obuf := ?p t\<rparr>"
  have oi: "unat (oi + of_nat (length w)) = length (t @ w)" if "length t + length w < 2 ^ 32" for w :: "uchar list"
    using that Cons.prems(2) by (simp add: unat_word_ariths unat_of_nat)
  have step: "prints b len t (w @ r') m s"
    if "fmt_text rd st' cs ap' = Some r'" "r = w @ r'"
      "m s = s_printf_loop rd s_sputc len st' cs (oi + of_nat (length w)) ap' (?s (t @ w))" for st' ap' r' w m
    by (rule prints_step [OF Cons.IH [OF that(1), of "t @ w" "oi + of_nat (length w)" "?s (t @ w)"]])
      (use that Cons.prems in \<open>simp_all add: oi\<close>)
  have put: "s_sputc 0 len (oi + of_nat (length w)) d (?s (t @ w)) = Inr ((), ?s (t @ w @ [d]))"
    if "length t + length w < 2 ^ 32" for w d
    using sputc_printed [of "?s (t @ w)" b len "t @ w" 0 "oi + of_nat (length w)" len d] l oi [OF that]
    by (simp add: word_less_nat_alt)
  have s0: "?s t = s" using Cons.prems(4) by (cases s) simp
  show ?case
  proof (cases "c = 0 \<or> \<not> oi < len")
    case True
    then show ?thesis
      using Cons.prems by (auto simp: word_less_nat_alt intro!: prints_stop)
  next
    case False
    then have c: "c \<noteq> 0" and lt: "oi < len" by simp_all
    have put1: "s_sputc 0 len oi d s = Inr ((), ?s (t @ [d]))" for d
      using put [of "[]" d] Cons.prems(3) s0 by simp
    have put2: "s_sputc 0 len (oi + 1) d (?s (t @ [e])) = Inr ((), ?s (t @ [e, d]))" if "length t + 1 < 2 ^ 32" for d e
      using put [of "[e]" d] that by simp
    note int = printint_printed [OF l lt Cons.prems(2) _ Cons.prems(4)]
    note str = put_string_printed [OF l Cons.prems(2) _ Cons.prems(4)]
    consider (plain) "\<not> st" "c \<noteq> 37" | (pct) "\<not> st" "c = 37" | (d) st "c = 100" | (x) st "c = 120 \<or> c = 112"
      | (s) st "c = 115" | (c) st "c = 99" | (pp) st "c = 37" | (u) st "c \<notin> {100, 120, 112, 115, 99, 37}"
      by auto
    then show ?thesis
    proof cases
      case plain
      then obtain r' where r: "fmt_text rd False cs ap = Some r'" "r = [c] @ r'" using Cons.prems(1) c by auto
      show ?thesis unfolding r(2) by (rule step [OF r]) (simp add: plain c lt put1 kmonad_simps)
    next
      case pct
      then have r: "fmt_text rd True cs ap = Some r" "r = [] @ r" using Cons.prems(1) by auto
      have "prints b len t ([] @ r) (s_printf_loop rd s_sputc len st (c # cs) oi ap) s"
        by (rule step [OF r]) (simp add: pct lt s0)
      then show ?thesis by simp
    next
      case d
      then obtain v ap' r' where r: "fmt_text rd False cs ap' = Some r'" "r = rev (rd 16 v 10 True) @ r'"
        and ap: "ap = AInt v # ap'" using Cons.prems(1) by (auto split: list.splits parg.splits)
      show ?thesis unfolding r(2)
        by (rule step [OF r]) (use Cons.prems(3) r(2) in \<open>simp add: d lt ap int kmonad_simps\<close>)
    next
      case x
      then obtain v ap' r' where r: "fmt_text rd False cs ap' = Some r'" "r = rev (rd 16 v 16 False) @ r'"
        and ap: "ap = AInt v # ap'" using Cons.prems(1) by (auto split: list.splits parg.splits)
      show ?thesis unfolding r(2)
        by (rule step [OF r]) (use x(2) Cons.prems(3) r(2) in \<open>auto simp: x(1) lt ap int kmonad_simps\<close>)
    next
      case s
      then obtain v ap' r' where r: "fmt_text rd False cs ap' = Some r'"
          "r = takeWhile (\<lambda>c. c \<noteq> 0) (case v of None \<Rightarrow> null_text | Some t \<Rightarrow> t) @ r'"
        and ap: "ap = AStr v # ap'" using Cons.prems(1) by (auto split: list.splits parg.splits)
      show ?thesis unfolding r(2)
        by (rule step [OF r]) (use Cons.prems(3) r(2) in \<open>simp add: s lt ap str kmonad_simps\<close>)
    next
      case c
      then obtain v ap' r' where r: "fmt_text rd False cs ap' = Some r'" "r = [ucast v] @ r'"
        and ap: "ap = AInt v # ap'" using Cons.prems(1) by (auto split: list.splits parg.splits)
      show ?thesis unfolding r(2) by (rule step [OF r]) (simp add: c lt ap put1 kmonad_simps)
    next
      case pp
      then obtain r' where r: "fmt_text rd False cs ap = Some r'" "r = [37] @ r'" using Cons.prems(1) by auto
      show ?thesis unfolding r(2) by (rule step [OF r]) (simp add: pp lt put1 kmonad_simps)
    next
      case u
      then obtain r' where r: "fmt_text rd False cs ap = Some r'" "r = [37, c] @ r'" using Cons.prems(1) c by auto
      have "length t + 1 < 2 ^ 32" using Cons.prems(3) r(2) by simp
      then show ?thesis unfolding r(2)
        by (intro step [OF r]) (use u in \<open>simp add: c lt put1 put2 kmonad_simps\<close>)
    qed
  qed
qed

lemma unat_of_int32: "0 \<le> k \<Longrightarrow> k < 2 ^ 32 \<Longrightarrow> unat (of_int k :: uint) = nat k"
  by (simp add: unsigned_of_int take_bit_int_eq_self_iff nat_eq_iff)

lemma s_min_nat: "k < 2 ^ 32 \<Longrightarrow> s_min len (of_nat k) = of_nat (min (unat len) k)"
  by (simp add: s_min_def word_less_nat_alt unat_of_nat min_def)

lemma s_printf_printed:
  assumes n: "0 < n" "n \<le> int (length (obuf s))" "n < 2 ^ 31"
    and r: "fmt_text rd False fmt ap = Some r" "length r < 2 ^ 32"
  shows "s_printf rd s_sputc n fmt ap s
    = Inr (of_nat (min (nat (n - 1)) (length r)), s\<lparr>obuf := printed (obuf s) (nat (n - 1)) r\<rparr>)"
proof -
  define len :: uint where "len = of_int (n - 1)"
  have l: "unat len = nat (n - 1)"
    unfolding len_def by (rule unat_of_int32) (use n in simp_all)
  have "prints (obuf s) len [] r (s_printf_loop rd s_sputc len False fmt 0 ap) s"
    using n r l by (intro loop_printed) simp_all
  then obtain u v where uv: "r = u @ v" "v = [] \<or> nat (n - 1) \<le> length u"
    and run: "s_printf_loop rd s_sputc len False fmt 0 ap s
                = Inr (of_nat (length u), s\<lparr>obuf := printed (obuf s) (nat (n - 1)) u\<rparr>)"
    unfolding prints_def l by auto
  have "s_min len (of_nat (length u)) = of_nat (min (nat (n - 1)) (length u))"
    unfolding l [symmetric] by (rule s_min_nat) (use r(2) uv(1) in simp)
  moreover have "printed (obuf s) (nat (n - 1)) u = printed (obuf s) (nat (n - 1)) r"
    using uv printed_over by fastforce
  moreover have "min (nat (n - 1)) (length u) = min (nat (n - 1)) (length r)" using uv by auto
  ultimately show ?thesis unfolding s_printf_def Let_def len_def [symmetric] by (simp add: kmonad_simps run)
qed

text \<open>The digit loops.\<close>

lemma digit_10: "d < 10 \<Longrightarrow> uint (digit d) = 48 + uint d"
  by (simp add: digit_def word_less_def uint_word_ariths unsigned_ucast_eq take_bit_int_eq_self)

lemma digit_loop_value:
  assumes "uint x < 10 ^ (15 - i)"
  shows "foldr (\<lambda>d v. v * 10 + uint d - 48) (digit_loop 16 10 i x) 0 = uint x"
    "\<forall>d \<in> set (digit_loop 16 10 i x). 48 \<le> d \<and> d \<le> 57"
  using assms
proof (induction "16 :: nat" "10 :: uint" i x rule: digit_loop.induct)
  case (1 i x)
  have mod10: "x mod 10 < 10" by (simp add: word_mod_less_divisor)
  have v: "uint (digit (x mod 10)) = 48 + uint x mod 10"
    using digit_10 [OF mod10] by (simp add: uint_mod)
  have r: "48 \<le> digit (x mod 10)" "digit (x mod 10) \<le> 57"
    using v by (simp_all add: word_le_def)
  {
    case 1
    then show ?case
      using v "1.hyps"(1)
      by (subst digit_loop.simps, auto simp: uint_div Suc_diff_Suc [symmetric] not_less)
        (use unsigned_greater_eq [of x, where 'a = int] in linarith)
  next
    case 2
    then show ?case
      using r "1.hyps"(2) by (subst digit_loop.simps) (auto simp: uint_div Suc_diff_Suc [symmetric])
  }
qed

lemma getReverseDigits_value:
  assumes "0 \<le> sint x" and ds: "ds = rev (s_getReverseDigits 16 x 10 sg)"
  shows "digits_val 0 ds = uint x" "\<forall>d \<in> set ds. 48 \<le> d \<and> d \<le> 57"
proof -
  have "uint x < 2 ^ 32" using unsigned_less [of x, where 'a = int] by simp
  then have small: "uint x < 10 ^ (15 - 0)" by simp
  have z: "digit_loop 16 10 0 0 = []" by (simp add: digit_loop.simps)
  have e: "s_getReverseDigits 16 x 10 sg = (if x = 0 then [48] else digit_loop 16 10 0 x)"
    using assms(1) by (simp add: s_getReverseDigits_def Let_def z digit_def)
  show "digits_val 0 ds = uint x"
    unfolding ds e digits_val_def foldl_conv_foldr rev_rev_ident
    using digit_loop_value(1) [OF small] by simp
  show "\<forall>d \<in> set ds. 48 \<le> d \<and> d \<le> 57"
    unfolding ds e using digit_loop_value(2) [OF small] by simp
qed

lemma reverse_loop_length: "x \<noteq> 0 \<Longrightarrow> i < len \<Longrightarrow> length (reverse_loop len base x i a) = len - 1 - i"
  by (induction len base x i a rule: reverse_loop.induct) (subst reverse_loop.simps; force)

lemma plain_overflow:
  assumes "\<forall>c \<in> set cs. c \<noteq> 0 \<and> c \<noteq> 37" and "unat oi \<le> length (obuf s)"
    and "length (obuf s) < unat oi + length cs" and "length (obuf s) < 2 ^ 32 - 1"
  shows "s_printf_loop rd s_sputc (- 1) False cs oi ap s = Inl (Undef ''outbuffer'')"
  using assms
proof (induction cs arbitrary: oi s)
  case Nil
  then show ?case by simp
next
  case (Cons c cs)
  have m1: "unat (- 1 :: uint) = 2 ^ 32 - 1" by (simp add: unsigned_minus_1_eq_mask mask_eq_exp_minus_1)
  then have lt: "oi < - 1" using Cons.prems by (simp add: word_less_nat_alt)
  have i: "unat (oi + 1) = Suc (unat oi)" using Cons.prems by (simp add: unat_word_ariths)
  show ?case
  proof (cases "unat oi < length (obuf s)")
    case True
    then show ?thesis
      using Cons.prems lt i Cons.IH [of "oi + 1" "s\<lparr>obuf := (obuf s)[unat oi := c]\<rparr>"]
      by (simp add: s_sputc_def kthen_Inr)
  next
    case False
    then show ?thesis using Cons.prems lt by (simp add: s_sputc_def kthen_Inl)
  qed
qed

lemma snprintf_printed:
  assumes "0 < n" "n \<le> int (length (obuf s))" "n < 2 ^ 31"
    and "fmt_text rd False fmt ap = Some r" "length r < 2 ^ 32"
    and "k = min (nat (n - 1)) (length r)"
  shows "snprintf rd n fmt ap s
    = Inr (of_nat k, s\<lparr>obuf := take k r @ 0 # drop (Suc k) (obuf s)\<rparr>)"
proof -
  have k: "int k < n" "k < length (obuf s)" using assms by auto
  have "k < 2 ^ 31" using k(1) assms(3) by simp
  then have uk: "unat (of_nat k :: uint) = k" and uk1: "unat (of_nat k + 1 :: uint) = Suc k"
    by (simp_all add: unat_of_nat unat_word_ariths)
  have un: "unat (of_int n :: uint) = nat n"
    by (rule unat_of_int32) (use assms in simp_all)
  have lt: "(of_nat k :: uint) < of_int n" "(of_nat k :: uint) < of_nat k + 1"
    using k(1) by (simp_all add: word_less_nat_alt uk uk1 un)
  have p: "printed (obuf s) (nat (n - 1)) r = take k r @ drop k (obuf s)"
    using assms by (simp add: printed_def min_def)
  have "(take k r @ drop k (obuf s))[k := 0] = take k r @ 0 # drop (Suc k) (obuf s)"
    using k(2) assms(6) by (simp add: list_update_append Cons_nth_drop_Suc [symmetric])
  moreover have "length (take k r @ drop k (obuf s)) = length (obuf s)" using k assms(6) by simp
  ultimately show ?thesis
    using s_printf_printed [OF assms(1-5)] lt k
    by (simp add: snprintf_def s_sputc_def kmonad_simps p uk assms(6) [symmetric])
qed

lemma reverse_loop_nonzero: "d \<in> set (reverse_loop len 10 x i a) \<Longrightarrow> d \<noteq> 0"
proof (induction len "10 :: uint" x i a rule: reverse_loop.induct)
  case (1 len x i a)
  have "uint (digit (a mod 10)) = 48 + uint (a mod 10)" by (rule digit_10) (simp add: word_mod_less_divisor)
  then have "digit (a mod 10) \<noteq> 0" using unsigned_greater_eq [of "a mod 10", where 'a = int] by force
  then show ?case using 1 by (subst (asm) reverse_loop.simps) (auto split: if_splits)
qed

lemma cnputs_loop_text:
  "0 \<notin> set ds \<Longrightarrow> itr + length ds < n \<Longrightarrow> cnputs_loop n (ds @ 0 # r) itr = ds"
  by (induction ds arbitrary: itr) auto

section \<open>Properties\<close>

text \<open>C18. \<open>snprintf\<close> into a buffer of at least \<open>n > 0\<close> bytes stores exactly the first \<open>n - 1\<close>
  bytes of the text the format denotes, then a NUL, leaves the rest of the buffer alone, and returns the number
  of bytes stored; the reference text is defined by \<open>fmt_text\<close> without any buffer.\<close>

theorem snprintf_correct:
  assumes "0 < n" "n \<le> int (length (obuf s))" "n < 2 ^ 31"
    and "fmt_text s_getReverseDigits False fmt ap = Some r" "length r < 2 ^ 32"
    and "k = min (nat (n - 1)) (length r)"
  shows "snprintf s_getReverseDigits n fmt ap s
    = Inr (of_nat k, s\<lparr>obuf := take k r @ 0 # drop (Suc k) (obuf s)\<rparr>)"
  using assms by (rule snprintf_printed)

theorem snprintf_correct_witness:
  "snprintf s_getReverseDigits 6 [97, 61, 37, 100, 59] [AInt (- 42)] \<lparr>fdout = [], obuf = [7, 7, 7, 7, 7, 7, 7, 7]\<rparr>
     = Inr (5, \<lparr>fdout = [], obuf = [97, 61, 45, 52, 50, 0, 7, 7]\<rparr>)"
proof -
  have r: "fmt_text s_getReverseDigits False [97, 61, 37, 100, 59] [AInt (- 42)] = Some [97, 61, 45, 52, 50, 59]"
    by (simp add: s_getReverseDigits_def Let_def digit_loop.simps digit_def)
  show ?thesis
    by (subst snprintf_correct [OF _ _ _ r, where k = 5]) simp_all
qed





text \<open>With \<open>n = 0\<close> the size \<open>n - 1\<close> becomes the largest \<open>uint\<close>: \<open>snprintf\<close> does not stop at the end
  of the buffer but writes past it as soon as the text is longer than the buffer.\<close>

lemma snprintf_zero_overflows:
  assumes "\<forall>c \<in> set fmt. c \<noteq> 0 \<and> c \<noteq> 37" "length (obuf s) < length fmt" "length (obuf s) < 2 ^ 32 - 1"
  shows "snprintf s_getReverseDigits 0 fmt ap s = Inl (Undef ''outbuffer'')"
  using plain_overflow [of fmt 0 s] assms
  by (simp add: snprintf_def s_printf_def Let_def kbind_Inl)

lemma snprintf_zero_overflows_witness:
  "snprintf s_getReverseDigits 0 [104, 105] [] \<lparr>fdout = [], obuf = []\<rparr> = Inl (Undef ''outbuffer'')"
  by (rule snprintf_zero_overflows) simp_all

end
