(* ===== verification/Kbd.thy ===== *)
theory Kbd
  imports Prelude
begin

text \<open>
  The keyboard (\<open>kbd.c\<close>, \<open>kbd.h\<close>): translation of scan codes into characters with the shift, control and lock
  states.  The static \<open>shift\<close> of \<open>kbdgetc\<close> is an argument and a result; the status and data ports
  together are an optional byte.
\<close>

section \<open>Definitions\<close>

definition chars :: "string \<Rightarrow> uchar list" where
  "chars cs = map of_char cs"

definition SHIFT :: uint where "SHIFT = 1"

definition CTL :: uint where "CTL = 2"

definition ALT :: uint where "ALT = 4"

definition CAPSLOCK :: uint where "CAPSLOCK = 8"

definition NUMLOCK :: uint where "NUMLOCK = 16"

definition SCROLLLOCK :: uint where "SCROLLLOCK = 32"

definition E0ESC :: uint where "E0ESC = 64"

lemmas shift_bits = SHIFT_def CTL_def ALT_def CAPSLOCK_def NUMLOCK_def SCROLLLOCK_def E0ESC_def

text \<open>\<open>C('A')\<close> is Control-A.\<close>

definition ctrl :: "char \<Rightarrow> uchar" where
  "ctrl c = of_char c - 64"

definition shiftcode :: "uint \<Rightarrow> uint" where
  "shiftcode d =
     (if d = 0x1D \<or> d = 0x9D then CTL
      else if d = 0x2A \<or> d = 0x36 then SHIFT
      else if d = 0x38 \<or> d = 0xB8 then ALT
      else 0)"

definition togglecode :: "uint \<Rightarrow> uint" where
  "togglecode d = (if d = 0x3A then CAPSLOCK else if d = 0x45 then NUMLOCK else if d = 0x46 then SCROLLLOCK else 0)"

text \<open>The keys behind an E0 escape, the same in all tables but for Enter and \<open>/\<close>.\<close>

definition extended_key :: "uchar \<Rightarrow> uchar \<Rightarrow> uint \<Rightarrow> uchar" where
  "extended_key enter slashkey d =
     (if d = 0x9C then enter
      else if d = 0xB5 then slashkey
      else if d = 0xC8 then 0xE2 else if d = 0xD0 then 0xE3
      else if d = 0xC9 then 0xE6 else if d = 0xD1 then 0xE7
      else if d = 0xCB then 0xE4 else if d = 0xCD then 0xE5
      else if d = 0x97 then 0xE0 else if d = 0xCF then 0xE1
      else if d = 0xD2 then 0xE8 else if d = 0xD3 then 0xE9
      else 0)"

definition normal_keys :: "uchar list" where
  "normal_keys = [0, 0x1B] @ chars ''1234567890-='' @ [8, 9] @ chars ''qwertyuiop[]'' @ [10, 0] @
     chars ''asdfghjkl;'' @ [39] @ chars ''`'' @ [0, 92] @ chars ''zxcvbnm,./'' @ [0] @ chars ''*'' @ [0] @ chars '' '' @
     replicate 13 0 @ chars ''789-456+1230.'' @ replicate 4 0"

definition shift_keys :: "uchar list" where
  "shift_keys = [0, 0x1B] @ chars ''!@#$%^&*()_+'' @ [8, 9] @ chars ''QWERTYUIOP{}'' @ [10, 0] @
     chars ''ASDFGHJKL:'' @ [34] @ chars ''~'' @ [0] @ chars ''|ZXCVBNM<>?'' @ [0] @ chars ''*'' @ [0] @ chars '' '' @
     replicate 13 0 @ chars ''789-456+1230.'' @ replicate 4 0"

definition ctl_keys :: "uchar list" where
  "ctl_keys = replicate 16 0 @ map ctrl ''QWERTYUIOP'' @ [0, 0, 13, 0] @ map ctrl ''ASDFGHJKL'' @ [0, 0, 0, 0] @
     [0x1C] @ map ctrl ''ZXCVBNM'' @ [0, 0] @ [ctrl (CHR ''/'')] @ [0, 0]"

definition table :: "uchar list \<Rightarrow> uchar \<Rightarrow> uchar \<Rightarrow> uint \<Rightarrow> uchar" where
  "table keys enter slashkey d = (if unat d < length keys then keys ! unat d else extended_key enter slashkey d)"

definition normalmap :: "uint \<Rightarrow> uchar" where
  "normalmap = table normal_keys 10 47"

definition shiftmap :: "uint \<Rightarrow> uchar" where
  "shiftmap = table shift_keys 10 47"

definition ctlmap :: "uint \<Rightarrow> uchar" where
  "ctlmap = table ctl_keys 13 (ctrl (CHR ''/''))"

definition charcode :: "uint \<Rightarrow> uint \<Rightarrow> uchar" where
  "charcode i = (if i = 0 then normalmap else if i = 1 then shiftmap else ctlmap)"

definition caps :: "uint \<Rightarrow> uint" where
  "caps c = (if 97 \<le> c \<and> c \<le> 122 then c + (65 - 97) else if 65 \<le> c \<and> c \<le> 90 then c + (97 - 65) else c)"

text \<open>\<open>kbdgetc\<close> from the test of \<open>0xE0\<close> on: a key press, \<open>data\<close> already merged with the escape.\<close>

definition key_down :: "uint \<Rightarrow> uint \<Rightarrow> int \<times> uint" where
  "key_down shift data =
     (let shift = or shift (shiftcode data);
          shift = xor shift (togglecode data);
          c = ucast (charcode (and shift (or CTL SHIFT)) data);
          c = (if and shift CAPSLOCK \<noteq> 0 then caps c else c)
      in (uint c, shift))"

definition kbdgetc :: "uint \<Rightarrow> uchar option \<Rightarrow> int \<times> uint" where
  "kbdgetc shift port = (case port of None \<Rightarrow> (- 1, shift) | Some d \<Rightarrow>
     let data = ucast d in
     if data = 0xE0 then (0, or shift E0ESC)
     else if and data 0x80 \<noteq> 0 then
       (let data = (if and shift E0ESC \<noteq> 0 then data else and data 0x7F)
        in (0, and shift (not (or (shiftcode data) E0ESC))))
     else if and shift E0ESC \<noteq> 0 then key_down (and shift (not E0ESC)) (or data 0x80)
     else key_down shift data)"

text \<open>The values the loop of \<open>consoleintr\<close> gets until the port is empty.\<close>

fun kbd_codes :: "uint \<Rightarrow> uchar list \<Rightarrow> int list \<times> uint" where
  "kbd_codes shift [] = ([], snd (kbdgetc shift None))"
| "kbd_codes shift (d # ds) =
     (let (c, shift) = kbdgetc shift (Some d); (cs, shift) = kbd_codes shift ds in (c # cs, shift))"

section \<open>Lemmas\<close>

lemma key_counts: "length normal_keys = 88" "length shift_keys = 88" "length ctl_keys = 56"
  by (simp_all add: normal_keys_def shift_keys_def ctl_keys_def chars_def)

lemma small_take: "(a :: uint) < 128 \<longleftrightarrow> take_bit 7 a = a"
  unfolding word_less_nat_alt word_unat_eq_iff unsigned_take_bit_eq take_bit_nat_eq_self_iff by simp

lemma small_or: "(a :: uint) < 128 \<Longrightarrow> b < 128 \<Longrightarrow> or a b < 128"
  unfolding small_take by simp

lemma small_xor: "(a :: uint) < 128 \<Longrightarrow> b < 128 \<Longrightarrow> xor a b < 128"
  unfolding small_take by simp

lemma small_and: "(a :: uint) < 128 \<Longrightarrow> and a b < 128"
  unfolding small_take take_bit_eq_mask by (metis and.assoc and.commute)

lemma small_codes: "shiftcode d < 128" "togglecode d < 128" "E0ESC < 128"
  by (simp_all add: shiftcode_def togglecode_def shift_bits)

lemma key_down_small: "shift < 128 \<Longrightarrow> snd (key_down shift data) < 128"
  unfolding key_down_def Let_def snd_conv by (intro small_or small_xor small_codes)

lemma caps_small: "c < 256 \<Longrightarrow> caps c < 256"
  by (auto simp: caps_def) uint_arith+

lemma uchar_small: "(ucast (x :: uchar) :: uint) < 256"
proof -
  have "unat x < 256" using unsigned_less [of x] by simp
  then show ?thesis by (simp add: word_less_nat_alt unsigned_ucast_eq take_bit_nat_eq_self)
qed

lemma key_down_range: "0 \<le> fst (key_down shift data) \<and> fst (key_down shift data) \<le> 255"
proof -
  have "uint c \<le> 255" if "(c :: uint) < 256" for c using that by uint_arith
  then show ?thesis unfolding key_down_def Let_def fst_conv using caps_small uchar_small by auto
qed



end
