(* ===== verification/Console.thy ===== *)
theory Console
  imports File Printf Kbd
begin

text \<open>
  The console (\<open>console.c\<close>, \<open>uart.c\<close>, \<open>procdump\<close> of \<open>proc.c\<close>): output to the screen and the serial port, \<open>cprintf\<close>,
  the input line editor and the device operations.  The screen memory is indexed by cell, \<open>crt_pos\<close> is what the cursor
  registers of the controller hold, \<open>uart_tx\<close> are the bytes sent so far.  The polling delays of \<open>uartputc\<close> have no effect
  on the state.  The line editor is a ring buffer of \<open>INPUT_BUF\<close> bytes with free-running indices: committed
  input from \<open>r\<close> to \<open>w\<close>, the line being edited from \<open>w\<close> to \<open>e\<close>.
\<close>

section \<open>Definitions\<close>

definition BACKSPACE :: uint where "BACKSPACE = 0x100"

definition INPUT_BUF :: nat where "INPUT_BUF = 128"

record con = fsys +
  cons_held :: bool
  cons_locking :: bool
  panicked :: bool
  uart_present :: bool
  uart_tx :: "uchar list"
  crt :: "nat \<Rightarrow> ushort"
  crt_pos :: nat
  in_buf :: "uchar list"
  in_r :: uint
  in_w :: uint
  in_e :: uint
  kbd_shift :: uint

text \<open>\<open>acquire(&cons.lock)\<close> and \<open>release(&cons.lock)\<close> on this CPU.\<close>

definition lock_cons :: "('a con_scheme, unit) kern" where
  "lock_cons = (\<lambda>s. if cons_held s then Inl (Panic ''acquire'')
     else Inr ((), s\<lparr>cons_held := True, cpu_ncli := cpu_ncli s + 1, cpu_intr := False\<rparr>))"

definition unlock_cons :: "('a con_scheme, unit) kern" where
  "unlock_cons = (\<lambda>s. if \<not> cons_held s then Inl (Panic ''release'')
     else Inr ((), s\<lparr>cons_held := False, cpu_ncli := cpu_ncli s - 1, cpu_intr := cpu_ncli s = 1\<rparr>))"

subsection \<open>Output\<close>

definition uartputc :: "uint \<Rightarrow> ('a con_scheme, unit) kern" where
  "uartputc c = kmod (\<lambda>s. if uart_present s then s\<lparr>uart_tx := uart_tx s @ [ucast c]\<rparr> else s)"

definition cga_scroll :: "nat \<Rightarrow> (nat \<Rightarrow> ushort) \<Rightarrow> nat \<Rightarrow> ushort" where
  "cga_scroll pos m = (let m = (\<lambda>i. if i < 23 * 80 then m (i + 80) else m i) in
     (\<lambda>i. if pos \<le> i \<and> i < 24 * 80 then 0 else m i))"

definition cgaputc :: "uint \<Rightarrow> ('a con_scheme, unit) kern" where
  "cgaputc c = (\<lambda>s.
     let pos = crt_pos s;
         (m, pos) = (if c = 10 then (crt s, pos + (80 - pos mod 80))
           else if c = BACKSPACE then (crt s, if pos > 0 then pos - 1 else pos)
           else ((crt s)(pos := or (ucast (and c 0xFF)) 0x0700), pos + 1))
     in if pos > 25 * 80 then Inl (Panic ''pos under/overflow'') else
     let (m, pos) = (if pos div 80 \<ge> 24 then (cga_scroll (pos - 80) m, pos - 80) else (m, pos))
     in Inr ((), s\<lparr>crt_pos := pos mod 65536, crt := m(pos := or 32 0x0700)\<rparr>))"

definition consputc :: "uint \<Rightarrow> ('a con_scheme, unit) kern" where
  "consputc c = (\<lambda>s. if panicked s then Inl Diverges else
     kthen (if c = BACKSPACE then kthen (uartputc 8) (kthen (uartputc 32) (uartputc 8)) else uartputc c)
     (cgaputc c) s)"

definition cons_digit :: "uint \<Rightarrow> uchar" where
  "cons_digit d = (if d < 10 then 48 + ucast d else 87 + ucast d)"

text \<open>The \<open>do\<close> loop of \<open>printint\<close>: the digits from the lowest on, for a base of at least 2.\<close>

function cons_digits :: "uint \<Rightarrow> uint \<Rightarrow> uchar list" where
  "cons_digits base x =
     cons_digit (x mod base) # (if 2 \<le> base \<and> x div base \<noteq> 0 then cons_digits base (x div base) else [])"
  by pat_completeness auto
termination
proof (relation "measure (\<lambda>(base, x). unat x)")
  fix base x :: uint assume a: "2 \<le> base \<and> x div base \<noteq> 0"
  then have "x \<noteq> 0" by auto
  then have "0 < unat x" by (simp add: unat_gt_0)
  moreover have "2 \<le> unat base" using a by (simp add: word_le_nat_alt)
  ultimately have "unat x div unat base < unat x" by (intro div_less_dividend) simp_all
  then show "((base, x div base), base, x) \<in> measure (\<lambda>(base, x). unat x)" by (simp add: unat_div)
qed simp

declare cons_digits.simps [simp del]

definition printint :: "uint \<Rightarrow> uint \<Rightarrow> bool \<Rightarrow> ('a con_scheme, unit) kern" where
  "printint xx base sg =
     (let neg = sg \<and> sint xx < 0; x = (if neg then - xx else xx);
          buf = cons_digits base x @ (if neg then [45] else [])
      in kfor (rev buf) (\<lambda>c. consputc (scast c)))"

fun cprintf_loop :: "uchar list \<Rightarrow> parg list \<Rightarrow> ('a con_scheme, unit) kern" where
  "cprintf_loop [] ap = kret ()"
| "cprintf_loop [c] ap = (if c = 0 \<or> c = 37 then kret () else consputc (ucast c))"
| "cprintf_loop (c # d # cs) ap =
     (if c = 0 then kret ()
      else if c \<noteq> 37 then kthen (consputc (ucast c)) (cprintf_loop (d # cs) ap)
      else if d = 0 then kret ()
      else if d = 100 then
        (case ap of AInt v # ap \<Rightarrow> kthen (printint v 10 True) (cprintf_loop cs ap) | _ \<Rightarrow> kundef ''*argp++'')
      else if d = 120 \<or> d = 112 then
        (case ap of AInt v # ap \<Rightarrow> kthen (printint v 16 False) (cprintf_loop cs ap) | _ \<Rightarrow> kundef ''*argp++'')
      else if d = 115 then
        (case ap of AStr p # ap \<Rightarrow>
           kthen (kfor (takeWhile (\<lambda>c. c \<noteq> 0) (case p of None \<Rightarrow> chars ''(null)'' | Some str \<Rightarrow> str)) (\<lambda>c. consputc (scast c)))
           (cprintf_loop cs ap) | _ \<Rightarrow> kundef ''*argp++'')
      else if d = 37 then kthen (consputc 37) (cprintf_loop cs ap)
      else kthen (consputc 37) (kthen (consputc (ucast d)) (cprintf_loop cs ap)))"

definition cprintf :: "string \<Rightarrow> parg list \<Rightarrow> ('a con_scheme, unit) kern" where
  "cprintf fmt ap =
     kbind (kget cons_locking) (\<lambda>locking.
     kthen (if locking then lock_cons else kret ())
     (kthen (cprintf_loop (chars fmt) ap)
     (if locking then unlock_cons else kret ())))"

text \<open>\<open>procdump\<close>; \<open>trace p\<close> are the return addresses \<open>getcallerpcs\<close> finds on the kernel stack of a sleeping process.\<close>

definition states :: "procstate \<Rightarrow> string" where
  "states st = (case st of UNUSED \<Rightarrow> ''unused'' | EMBRYO \<Rightarrow> ''embryo'' | SLEEPING \<Rightarrow> ''sleep '' | RUNNABLE \<Rightarrow> ''runble''
     | RUNNING \<Rightarrow> ''run   '' | ZOMBIE \<Rightarrow> ''zombie'')"

definition procdump :: "(nat \<Rightarrow> uint list) \<Rightarrow> ('a con_scheme, unit) kern" where
  "procdump trace = kfor [0..<NPROC] (\<lambda>p.
     kbind (kget (\<lambda>s. ptable s p)) (\<lambda>x.
     if p_state x = UNUSED then kret () else
     kthen (cprintf ''%d %s %s'' [AInt (of_int (p_pid x)), AStr (Some (chars (states (p_state x)))), AStr (Some (p_name x))])
     (kthen (if p_state x = SLEEPING then
               kfor (takeWhile (\<lambda>pc. pc \<noteq> 0) (take 10 (trace p))) (\<lambda>pc. cprintf '' %p'' [AInt pc])
             else kret ())
     (cprintf [CHR 0x0A] []))))"

subsection \<open>Input\<close>

function kill_line :: "uchar list \<Rightarrow> uint \<Rightarrow> uint \<Rightarrow> ('a con_scheme, unit) kern" where
  "kill_line buf w e =
     (if e \<noteq> w \<and> buf ! unat ((e - 1) mod of_nat INPUT_BUF) \<noteq> 10 then
        kthen (kmod (\<lambda>s. s\<lparr>in_e := e - 1\<rparr>))
        (kthen (consputc BACKSPACE)
        (kill_line buf w (e - 1)))
      else kret ())"
  by pat_completeness auto
termination
proof (relation "measure (\<lambda>(buf, w, e). unat (e - w))")
  fix buf :: "uchar list" and w e :: uint
  assume "e \<noteq> w \<and> buf ! unat ((e - 1) mod of_nat INPUT_BUF) \<noteq> 10"
  then have "w \<noteq> e" by blast
  from unat_diff_Suc' [OF this] show "((buf, w, e - 1), buf, w, e) \<in> measure (\<lambda>(buf, w, e). unat (e - w))" by simp
qed simp

declare kill_line.simps [simp del]

text \<open>One round of the loop of \<open>consoleintr\<close> with \<open>c\<close> from \<open>getc\<close>; the result says that \<open>doprocdump\<close> was set.\<close>

definition put_input :: "uchar \<Rightarrow> 'a con_scheme \<Rightarrow> 'a con_scheme" where
  "put_input c s = s\<lparr>in_buf := (in_buf s)[unat (in_e s mod of_nat INPUT_BUF) := c], in_e := in_e s + 1\<rparr>"

definition console_char :: "int \<Rightarrow> ('a con_scheme, bool) kern" where
  "console_char c =
     (if c = 16 then kret True
      else if c = 21 then
        kthen (kbind (kget (\<lambda>s. (in_buf s, in_w s, in_e s))) (\<lambda>(buf, w, e). kill_line buf w e)) (kret False)
      else if c = 8 \<or> c = 127 then
        kthen (kbind (kget (\<lambda>s. in_e s \<noteq> in_w s)) (\<lambda>ne.
          if ne then kthen (kmod (\<lambda>s. s\<lparr>in_e := in_e s - 1\<rparr>)) (consputc BACKSPACE) else kret ()))
        (kret False)
      else
        kthen (kbind (kget (\<lambda>s. in_e s - in_r s < of_nat INPUT_BUF)) (\<lambda>room.
          if c \<noteq> 0 \<and> room then
            let c = (if c = 13 then 10 else c) in
            kthen (kmod (put_input (of_int c)))
            (kthen (consputc (of_int c))
            (kbind (kget (\<lambda>s. in_e s = in_r s + of_nat INPUT_BUF)) (\<lambda>full.
            if c = 10 \<or> c = 4 \<or> full then
              kthen (kmod (\<lambda>s. s\<lparr>in_w := in_e s\<rparr>)) (wakeup OnInput)
            else kret ())))
          else kret ()))
        (kret False))"

fun consoleintr_loop :: "int list \<Rightarrow> bool \<Rightarrow> ('a con_scheme, bool) kern" where
  "consoleintr_loop [] dump = kret dump"
| "consoleintr_loop (c # cs) dump = kbind (console_char c) (\<lambda>d. consoleintr_loop cs (dump \<or> d))"

definition consoleintr :: "(nat \<Rightarrow> uint list) \<Rightarrow> int list \<Rightarrow> ('a con_scheme, unit) kern" where
  "consoleintr trace codes =
     kthen lock_cons
     (kbind (consoleintr_loop codes False) (\<lambda>dump.
     kthen unlock_cons
     (if dump then procdump trace else kret ())))"

definition kbdintr :: "(nat \<Rightarrow> uint list) \<Rightarrow> uchar list \<Rightarrow> ('a con_scheme, unit) kern" where
  "kbdintr trace port =
     kbind (kget (\<lambda>s. kbd_codes (kbd_shift s) port)) (\<lambda>(codes, shift).
     kthen (kmod (\<lambda>s. s\<lparr>kbd_shift := shift\<rparr>))
     (consoleintr trace codes))"

text \<open>\<open>uartgetc\<close> returns what the receive register holds while its status says so, -1 without a serial port.\<close>

definition uartintr :: "(nat \<Rightarrow> uint list) \<Rightarrow> uchar list \<Rightarrow> ('a con_scheme, unit) kern" where
  "uartintr trace rx =
     kbind (kget uart_present) (\<lambda>u. consoleintr trace (if u then map uint rx else []))"

text \<open>The loop of \<open>consoleread\<close>: the new read index, the bytes stored and the outcome.\<close>

function console_read_loop :: "bool \<Rightarrow> uchar list \<Rightarrow> uint \<Rightarrow> uint \<Rightarrow> int \<Rightarrow> uint \<Rightarrow> uint \<times> uchar list \<times> outcome" where
  "console_read_loop kd buf w target n r =
     (if n > 0 then
        if r = w then (r, [], if kd then Returns (- 1) else Blocks (nat n))
        else
          let c = buf ! unat (r mod of_nat INPUT_BUF) in
          if c = 4 then (if of_int n < target then r else r + 1, [], Returns (sint (target - of_int n)))
          else if c = 10 then (r + 1, [c], Returns (sint (target - of_int (n - 1))))
          else let (r', bs, res) = console_read_loop kd buf w target (n - 1) (r + 1) in (r', c # bs, res)
      else (r, [], Returns (sint (target - of_int n))))"
  by pat_completeness auto
termination by (relation "measure (\<lambda>(kd, buf, w, target, n, r). nat n)") auto

declare console_read_loop.simps [simp del]

definition consoleread :: "nat \<Rightarrow> uint \<Rightarrow> ('a con_scheme, int \<times> uchar list) kern" where
  "consoleread ip n =
     kthen (iunlock ip)
     (kthen lock_cons
     (kbind (kget (\<lambda>s. console_read_loop (p_killed (myproc s)) (in_buf s) (in_w s) n (sint n) (in_r s))) (\<lambda>(r, bs, res).
     case res of
       Blocks i \<Rightarrow> ksleep ''consoleread''
     | Returns k \<Rightarrow>
         kthen (kmod (\<lambda>s. s\<lparr>in_r := r\<rparr>))
         (kthen unlock_cons
         (kthen (ilock ip)
         (kret (k, bs)))))))"

definition consolewrite :: "nat \<Rightarrow> uchar list \<Rightarrow> uint \<Rightarrow> ('a con_scheme, int) kern" where
  "consolewrite ip buf n =
     kthen (iunlock ip)
     (kthen lock_cons
     (kthen (kfor (take (nat (sint n)) buf) (\<lambda>c. consputc (ucast c)))
     (kthen unlock_cons
     (kthen (ilock ip)
     (kret (sint n))))))"

section \<open>Lemmas\<close>

interpretation input_ring: ring_buffer INPUT_BUF
  by unfold_locales (simp_all add: INPUT_BUF_def)

text \<open>What the console needs to run without panic, and the part of the state its output does not touch.\<close>

definition screen_ok :: "'a con_scheme \<Rightarrow> bool" where
  "screen_ok s \<longleftrightarrow> \<not> panicked s \<and> crt_pos s < 24 * 80"

definition editor :: "'a con_scheme \<Rightarrow> uchar list \<times> uint \<times> uint \<times> uint \<times> bool \<times> bool" where
  "editor s = (in_buf s, in_r s, in_w s, in_e s, ptable_held s, cons_held s)"

lemma cgaputc_runs:
  assumes "crt_pos s < 24 * 80"
  shows "\<exists>m pos. cgaputc c s = Inr ((), s\<lparr>crt_pos := pos, crt := m\<rparr>) \<and> pos < 24 * 80 \<and> (\<forall>i \<ge> 24 * 80. m i = crt s i)"
proof -
  define mp where "mp = (if c = 10 then (crt s, crt_pos s + (80 - crt_pos s mod 80))
    else if c = BACKSPACE then (crt s, if crt_pos s > 0 then crt_pos s - 1 else crt_pos s)
    else ((crt s)(crt_pos s := or (ucast (and c 0xFF)) 0x0700), crt_pos s + 1))"
  obtain m pos where e: "mp = (m, pos)" by fastforce
  have nl: "crt_pos s + (80 - crt_pos s mod 80) \<le> 24 * 80"
  proof -
    have "crt_pos s div 80 < 24" by (rule less_mult_imp_div_less) (rule assms)
    moreover have "80 * (crt_pos s div 80) + crt_pos s mod 80 = crt_pos s" by (rule mult_div_mod_eq)
    moreover have "crt_pos s mod 80 < 80" by simp
    ultimately show ?thesis by linarith
  qed
  then have pos: "pos \<le> 24 * 80" and m: "\<forall>i \<ge> 24 * 80. m i = crt s i"
    using e assms by (auto simp: mp_def split: if_splits)
  have c: "cgaputc c s = (if pos > 25 * 80 then Inl (Panic ''pos under/overflow'') else
     let (m, pos) = (if pos div 80 \<ge> 24 then (cga_scroll (pos - 80) m, pos - 80) else (m, pos))
     in Inr ((), s\<lparr>crt_pos := pos mod 65536, crt := m(pos := or 32 0x0700)\<rparr>))"
    unfolding cgaputc_def Let_def mp_def [symmetric] e by simp
  show ?thesis
  proof (cases "pos = 24 * 80")
    case True
    then show ?thesis unfolding c by (simp add: cga_scroll_def Let_def) (intro exI conjI, rule refl, use m in auto)
  next
    case False
    with pos have "pos < 24 * 80" "pos div 80 < 24" by auto
    then show ?thesis unfolding c by simp (intro exI conjI, rule refl, use m in auto)
  qed
qed

lemma consputc_runs:
  assumes "screen_ok s"
  shows "\<exists>t. consputc c s = Inr ((), t) \<and> screen_ok t \<and> editor t = editor s"
proof -
  define u :: "('a con_scheme, unit) kern" where "u = (if c = BACKSPACE then kthen (uartputc 8) (kthen (uartputc 32) (uartputc 8)) else uartputc c)"
  have "\<exists>tx. u s = Inr ((), s\<lparr>uart_tx := tx\<rparr>)"
    by (cases "uart_present s") (auto simp: u_def uartputc_def kmonad_simps intro: exI [of _ "uart_tx s"])
  then obtain tx where u: "u s = Inr ((), s\<lparr>uart_tx := tx\<rparr>)" ..
  from cgaputc_runs [of "s\<lparr>uart_tx := tx\<rparr>" c] assms obtain m pos where
    "cgaputc c (s\<lparr>uart_tx := tx\<rparr>) = Inr ((), s\<lparr>uart_tx := tx, crt_pos := pos, crt := m\<rparr>)" "pos < 24 * 80"
    by (auto simp: screen_ok_def)
  then show ?thesis
    using assms u by (auto simp: consputc_def u_def [symmetric] kmonad_simps screen_ok_def editor_def)
qed

lemma wakeup_runs:
  assumes "\<not> ptable_held s" "screen_ok s"
  shows "\<exists>t. wakeup ch s = Inr ((), t) \<and> screen_ok t \<and> editor t = editor s"
  using assms by (simp add: wakeup_def lock_ptable_def unlock_ptable_def wakeup1_eval kmonad_simps screen_ok_def editor_def)

lemma editor_upd [simp]:
  "editor (s\<lparr>in_e := e\<rparr>) = (in_buf s, in_r s, in_w s, e, ptable_held s, cons_held s)"
  "editor (s\<lparr>in_w := w\<rparr>) = (in_buf s, in_r s, w, in_e s, ptable_held s, cons_held s)"
  "screen_ok (s\<lparr>in_e := e\<rparr>) = screen_ok s" "screen_ok (s\<lparr>in_w := w\<rparr>) = screen_ok s"
  "screen_ok (put_input c s) = screen_ok s"
  by (simp_all add: editor_def screen_ok_def put_input_def)

lemma kill_line_runs:
  assumes "screen_ok s" "editor s = (buf, r, w, e, ph, ch)" "10 \<notin> set (window INPUT_BUF buf w e)"
  shows "\<exists>t. kill_line buf w e s = Inr ((), t) \<and> screen_ok t \<and> editor t = (buf, r, w, w, ph, ch)"
  using assms
proof (induction buf w e arbitrary: s rule: kill_line.induct)
  case (1 buf w e)
  show ?case
  proof (cases "e = w")
    case True
    then show ?thesis using 1 by (subst kill_line.simps) (simp add: kmonad_simps)
  next
    case False
    from input_ring.window_butlast [of w e buf] False 1(4)
    have c: "buf ! unat ((e - 1) mod of_nat INPUT_BUF) \<noteq> 10" "10 \<notin> set (window INPUT_BUF buf w (e - 1))" by auto
    from consputc_runs [of "s\<lparr>in_e := e - 1\<rparr>" BACKSPACE] 1(2,3) obtain u where
      u: "consputc BACKSPACE (s\<lparr>in_e := e - 1\<rparr>) = Inr ((), u)" "screen_ok u" "editor u = (buf, r, w, e - 1, ph, ch)"
      by (auto simp: editor_def)
    from False c(1) have g: "e \<noteq> w \<and> buf ! unat ((e - 1) mod of_nat INPUT_BUF) \<noteq> 10" by simp
    from 1(1) [OF g u(2,3) c(2)] u(1) g show ?thesis
      by (subst kill_line.simps) (simp add: kmonad_simps)
  qed
qed

subsection \<open>The line editor\<close>

text \<open>The specification: committed input and the line being edited.\<close>

definition line_edit :: "int \<Rightarrow> uchar list \<times> uchar list \<Rightarrow> uchar list \<times> uchar list" where
  "line_edit c = (\<lambda>(cm, pd).
     if c = 16 then (cm, pd)
     else if c = 21 then (cm, [])
     else if c = 8 \<or> c = 127 then (cm, butlast pd)
     else if c = 0 \<or> length cm + length pd \<ge> INPUT_BUF then (cm, pd)
     else let b = of_int (if c = 13 then 10 else c) in
       if b = 10 \<or> b = 4 \<or> length cm + length pd + 1 = INPUT_BUF then (cm @ pd @ [b], []) else (cm, pd @ [b]))"

definition line_state :: "'a con_scheme \<Rightarrow> uchar list \<times> uchar list" where
  "line_state s = (window INPUT_BUF (in_buf s) (in_r s) (in_w s), window INPUT_BUF (in_buf s) (in_w s) (in_e s))"

definition con_inv :: "'a con_scheme \<Rightarrow> bool" where
  "con_inv s \<longleftrightarrow> screen_ok s \<and> length (in_buf s) = INPUT_BUF \<and>
     unat (in_w s - in_r s) + unat (in_e s - in_w s) \<le> INPUT_BUF \<and> 10 \<notin> set (snd (line_state s))"

lemma con_inv_span:
  assumes "con_inv s"
  shows "unat (in_e s - in_r s) = unat (in_w s - in_r s) + unat (in_e s - in_w s)"
    "in_e s - in_r s < of_nat INPUT_BUF \<longleftrightarrow> unat (in_w s - in_r s) + unat (in_e s - in_w s) < INPUT_BUF"
proof -
  show "unat (in_e s - in_r s) = unat (in_w s - in_r s) + unat (in_e s - in_w s)"
    using assms unat_plus_if' [of "in_w s - in_r s" "in_e s - in_w s"] by (simp add: con_inv_def INPUT_BUF_def)
  then show "in_e s - in_r s < of_nat INPUT_BUF \<longleftrightarrow> unat (in_w s - in_r s) + unat (in_e s - in_w s) < INPUT_BUF"
    by (simp add: word_less_nat_alt INPUT_BUF_def)
qed

lemma line_state_editor:
  "editor t = (buf, r, w, e, ph, ch) \<Longrightarrow> line_state t = (window INPUT_BUF buf r w, window INPUT_BUF buf w e)"
  by (simp add: editor_def line_state_def)

lemma con_inv_editor:
  "editor t = (buf, r, w, e, ph, ch) \<Longrightarrow> screen_ok t \<Longrightarrow> length buf = INPUT_BUF \<Longrightarrow>
     unat (w - r) + unat (e - w) \<le> INPUT_BUF \<Longrightarrow> 10 \<notin> set (window INPUT_BUF buf w e) \<Longrightarrow> con_inv t"
  by (simp add: con_inv_def editor_def line_state_def)

text \<open>The result of one character: the run returns, keeps the locks, and edits the line.\<close>

definition edits :: "int \<Rightarrow> 'a con_scheme \<Rightarrow> 'a con_scheme \<Rightarrow> bool" where
  "edits c s t \<longleftrightarrow> con_inv t \<and> ptable_held t = ptable_held s \<and> cons_held t = cons_held s \<and>
     line_state t = line_edit c (line_state s)"

lemma edits_kill:
  assumes "con_inv s"
  shows "\<exists>t. console_char 21 s = Inr (False, t) \<and> edits 21 s t"
proof -
  have "10 \<notin> set (window INPUT_BUF (in_buf s) (in_w s) (in_e s))" "screen_ok s" "length (in_buf s) = INPUT_BUF"
    "unat (in_w s - in_r s) \<le> INPUT_BUF"
    using assms by (simp_all add: con_inv_def line_state_def)
  with kill_line_runs [OF this(2) editor_def this(1)] obtain t where
    "kill_line (in_buf s) (in_w s) (in_e s) s = Inr ((), t)" "screen_ok t"
    "editor t = (in_buf s, in_r s, in_w s, in_w s, ptable_held s, cons_held s)" by blast
  then show ?thesis
    using \<open>length (in_buf s) = INPUT_BUF\<close> \<open>unat (in_w s - in_r s) \<le> INPUT_BUF\<close> con_inv_editor [of t]
    by (auto simp: console_char_def kmonad_simps edits_def line_state_editor line_edit_def line_state_def editor_def)
qed

lemma edits_backspace:
  assumes "con_inv s" "c = 8 \<or> c = 127"
  shows "\<exists>t. console_char c s = Inr (False, t) \<and> edits c s t"
proof (cases "in_e s = in_w s")
  case True
  then show ?thesis using assms
    by (auto simp: console_char_def kmonad_simps edits_def line_edit_def line_state_def)
next
  case False
  have s: "10 \<notin> set (window INPUT_BUF (in_buf s) (in_w s) (in_e s))" "screen_ok s" "length (in_buf s) = INPUT_BUF"
    "unat (in_w s - in_r s) + unat (in_e s - in_w s) \<le> INPUT_BUF"
    using assms by (simp_all add: con_inv_def line_state_def)
  from consputc_runs [of "s\<lparr>in_e := in_e s - 1\<rparr>" BACKSPACE] s(2) obtain t where
    t: "consputc BACKSPACE (s\<lparr>in_e := in_e s - 1\<rparr>) = Inr ((), t)" "screen_ok t"
      "editor t = (in_buf s, in_r s, in_w s, in_e s - 1, ptable_held s, cons_held s)" by auto
  have w: "in_w s \<noteq> in_e s" using False by simp
  note b = input_ring.window_butlast [OF w, of "in_buf s"] unat_diff_Suc' [OF w]
  have "con_inv t" by (rule con_inv_editor [OF t(3,2)]) (use s b in simp_all)
  with t False b(1) assms(2) show ?thesis
    by (auto simp: console_char_def kmonad_simps edits_def line_state_editor line_edit_def line_state_def editor_def)
qed

lemma put_input_line:
  fixes s :: "'a con_scheme" and b :: uchar
  assumes "con_inv s" "unat (in_e s - in_r s) < INPUT_BUF"
  defines "buf \<equiv> (in_buf s)[unat (in_e s mod of_nat INPUT_BUF) := b]"
  shows "editor (put_input b s) = (buf, in_r s, in_w s, in_e s + 1, ptable_held s, cons_held s)"
    "length buf = INPUT_BUF" "unat (in_e s + 1 - in_r s) = Suc (unat (in_e s - in_r s))"
    "unat (in_e s + 1 - in_w s) = Suc (unat (in_e s - in_w s))"
    "window INPUT_BUF buf (in_r s) (in_w s) = fst (line_state s)"
    "window INPUT_BUF buf (in_w s) (in_e s + 1) = snd (line_state s) @ [b]"
    "window INPUT_BUF buf (in_r s) (in_e s + 1) = fst (line_state s) @ snd (line_state s) @ [b]"
proof -
  note sp = con_inv_span(1) [OF assms(1)]
  have l: "length (in_buf s) = INPUT_BUF" using assms(1) by (simp add: con_inv_def)
  show "editor (put_input b s) = (buf, in_r s, in_w s, in_e s + 1, ptable_held s, cons_held s)"
    by (simp add: editor_def put_input_def buf_def)
  show "length buf = INPUT_BUF" by (simp add: buf_def l)
  have e: "unat (in_e s + 1 - a) = Suc (unat (in_e s - a))" if "unat (in_e s - a) < INPUT_BUF" for a
    using input_ring.window_snoc [OF l that, of 0, THEN arg_cong [where f = length]] by simp
  show "unat (in_e s + 1 - in_r s) = Suc (unat (in_e s - in_r s))" by (rule e) (rule assms(2))
  show "unat (in_e s + 1 - in_w s) = Suc (unat (in_e s - in_w s))" by (rule e) (use assms(2) sp in simp)
  show "window INPUT_BUF buf (in_r s) (in_w s) = fst (line_state s)"
    unfolding buf_def using input_ring.window_frame [OF l, of "in_w s" "in_r s" "in_e s" b] sp assms(2)
    by (simp add: line_state_def)
  show "window INPUT_BUF buf (in_w s) (in_e s + 1) = snd (line_state s) @ [b]"
    unfolding buf_def using input_ring.window_snoc [OF l, of "in_e s" "in_w s" b] sp assms(2)
    by (simp add: line_state_def)
  show "window INPUT_BUF buf (in_r s) (in_e s + 1) = fst (line_state s) @ snd (line_state s) @ [b]"
    unfolding buf_def using input_ring.window_snoc [OF l assms(2), of b] sp assms(2)
      input_ring.window_append [of "in_w s" "in_r s" "in_e s" "in_buf s"]
    by (simp add: line_state_def INPUT_BUF_def)
qed

lemma line_lengths:
  assumes "con_inv s"
  shows "unat (in_e s - in_r s) = length (fst (line_state s)) + length (snd (line_state s))"
  using con_inv_span(1) [OF assms] by (simp add: line_state_def)

lemma edits_put:
  assumes inv: "con_inv s" and ph: "\<not> ptable_held s" and c: "0 < c" "c \<le> 255" "c \<notin> {16, 21, 8, 127}"
    and room: "unat (in_e s - in_r s) < INPUT_BUF"
  shows "\<exists>t. console_char c s = Inr (False, t) \<and> edits c s t"
proof -
  define d where "d = (if c = 13 then 10 else c)"
  define b :: uchar where "b = of_int d"
  define full where "full = (Suc (unat (in_e s - in_r s)) = INPUT_BUF)"
  have d: "0 < d" "d < 256" using c by (auto simp: d_def)
  then have "uint b = d" by (simp add: b_def unsigned_of_int take_bit_eq_mod)
  then have db: "b = 10 \<longleftrightarrow> d = 10" "b = 4 \<longleftrightarrow> d = 4"
    by (auto simp: word_uint_eq_iff)
  note p = put_input_line(1,2,5-7) [OF inv room, of b] and q = put_input_line(3,4) [OF inv room]
  from inv have "screen_ok (put_input b s)" by (simp add: con_inv_def)
  from consputc_runs [OF this, of "of_int d"] obtain u where
    u: "consputc (of_int d) (put_input b s) = Inr ((), u)" "screen_ok u" "editor u = editor (put_input b s)" by blast
  have full: "in_e u = in_r u + of_nat INPUT_BUF \<longleftrightarrow> full"
  proof -
    have "in_e u = in_e s + 1" "in_r u = in_r s" using u(3) p(1) by (simp_all add: editor_def)
    then have "in_e u = in_r u + of_nat INPUT_BUF \<longleftrightarrow> unat (in_e s + 1 - in_r s) = INPUT_BUF"
      by (simp add: word_unat_eq_iff [symmetric] INPUT_BUF_def unat_eq_of_nat [of 128] algebra_simps)
    then show ?thesis using q(1) by (simp add: full_def)
  qed
  have ed: "editor u = ((in_buf s)[unat (in_e s mod of_nat INPUT_BUF) := b], in_r s, in_w s, in_e s + 1, ptable_held s, cons_held s)"
    using u(3) p(1) by simp
  note code = console_char_def Let_def d_def [symmetric] b_def [symmetric]
  have c': "c \<noteq> 16" "c \<noteq> 21" "\<not> (c = 8 \<or> c = 127)" "c \<noteq> 0 \<and> in_e s - in_r s < of_nat INPUT_BUF"
    using c room con_inv_span [OF inv] by auto
  have le: "line_edit c (line_state s) = (if d = 10 \<or> d = 4 \<or> full
      then (fst (line_state s) @ snd (line_state s) @ [b], []) else (fst (line_state s), snd (line_state s) @ [b]))"
    unfolding line_edit_def case_prod_beta Let_def d_def [symmetric] b_def [symmetric]
    using c room line_lengths [OF inv] by (simp add: db full_def)
  show ?thesis
  proof (cases "d = 10 \<or> d = 4 \<or> full")
    case False
    have "con_inv u"
      by (rule con_inv_editor [OF ed u(2) p(2)])
        (use p(4) q False db inv con_inv_span(1) [OF inv] room in \<open>auto simp: con_inv_def\<close>)
    moreover have "console_char c s = Inr (False, u)"
      unfolding code using c' u(1) full False by (simp add: kmonad_simps)
    ultimately show ?thesis using le ed p(3,4) False by (auto simp: edits_def line_state_editor editor_def)
  next
    case True
    have ee: "in_e u = in_e s + 1" using ed by (simp add: editor_def)
    have ew: "editor (u\<lparr>in_w := in_e u\<rparr>) = ((in_buf s)[unat (in_e s mod of_nat INPUT_BUF) := b], in_r s, in_e s + 1, in_e s + 1, ptable_held s, cons_held s)"
      using ed by (simp add: editor_def)
    from wakeup_runs [of "u\<lparr>in_w := in_e u\<rparr>" OnInput] ph u(2) ew obtain t where
      t: "wakeup OnInput (u\<lparr>in_w := in_e u\<rparr>) = Inr ((), t)" "screen_ok t" "editor t = editor (u\<lparr>in_w := in_e u\<rparr>)"
      by (auto simp: editor_def)
    note et = t(3) [unfolded ew]
    have "con_inv t"
      by (rule con_inv_editor [OF et t(2) p(2)]) (use q(1) room in auto)
    moreover have "console_char c s = Inr (False, t)"
      unfolding code using c' u(1) full True t(1) by (simp add: kmonad_simps)
    ultimately show ?thesis using le et p(5) True by (auto simp: edits_def line_state_editor editor_def)
  qed
qed

lemma console_char_refines:
  assumes "con_inv s" "\<not> ptable_held s" "0 \<le> c" "c \<le> 255"
  shows "\<exists>t. console_char c s = Inr (c = 16, t) \<and> edits c s t"
proof -
  consider "c = 16" | "c = 21" | "c = 8 \<or> c = 127" | "c \<notin> {16, 21, 8, 127}" by blast
  then show ?thesis
  proof cases
    case 1
    then show ?thesis using assms by (simp add: console_char_def kmonad_simps edits_def line_edit_def case_prod_beta)
  next
    case 2
    then show ?thesis using edits_kill [OF assms(1)] by simp
  next
    case 3
    then show ?thesis using edits_backspace [OF assms(1)] by auto
  next
    case 4
    show ?thesis
    proof (cases "0 < c \<and> unat (in_e s - in_r s) < INPUT_BUF")
      case True
      then show ?thesis using edits_put [OF assms(1,2)] assms 4 by auto
    next
      case False
      then show ?thesis using assms 4 con_inv_span [OF assms(1)] line_lengths [OF assms(1)]
        by (auto simp: console_char_def kmonad_simps edits_def line_edit_def case_prod_beta)
    qed
  qed
qed

lemma consoleintr_loop_refines:
  assumes "con_inv s" "\<not> ptable_held s" "\<forall>c \<in> set codes. 0 \<le> c \<and> c \<le> 255"
  shows "\<exists>d t. consoleintr_loop codes dump s = Inr (d, t) \<and> con_inv t \<and> \<not> ptable_held t \<and> cons_held t = cons_held s \<and>
    line_state t = fold line_edit codes (line_state s)"
  using assms
proof (induction codes arbitrary: s dump)
  case Nil
  then show ?case by (simp add: kmonad_simps)
next
  case (Cons c cs)
  then obtain u where u: "console_char c s = Inr (c = 16, u)" "edits c s u"
    using console_char_refines [of s c] by auto
  with Cons.prems Cons.IH [of u "dump \<or> c = 16"] show ?case by (auto simp: edits_def kmonad_simps)
qed

text \<open>Output through \<open>cprintf\<close> returns and leaves the editor alone.\<close>

definition prints :: "('a con_scheme, unit) kern \<Rightarrow> bool" where
  "prints m \<longleftrightarrow> (\<forall>s. screen_ok s \<longrightarrow> (\<exists>t. m s = Inr ((), t) \<and> screen_ok t \<and> editor t = editor s))"

lemma prints_consputc: "prints (consputc c)"
  unfolding prints_def using consputc_runs by blast

lemma prints_kret: "prints (kret ())"
  by (simp add: prints_def kmonad_simps)

lemma prints_kthen: "prints m \<Longrightarrow> prints n \<Longrightarrow> prints (kthen m n)"
  unfolding prints_def by (metis kthen_Inr)

lemma prints_kfor: "(\<And>x. prints (f x)) \<Longrightarrow> prints (kfor xs f)"
  by (induction xs) (simp_all add: prints_kret prints_kthen)

lemmas prints_rules = prints_consputc prints_kret prints_kthen prints_kfor

lemma prints_printint: "prints (printint v base sg)"
  unfolding printint_def Let_def by (intro prints_rules)

definition prints_free :: "('a con_scheme, unit) kern \<Rightarrow> bool" where
  "prints_free m \<longleftrightarrow> (\<forall>s. screen_ok s \<longrightarrow> \<not> cons_held s \<longrightarrow> (\<exists>t. m s = Inr ((), t) \<and> screen_ok t \<and> editor t = editor s))"

lemma prints_cprintf:
  assumes "prints (cprintf_loop (chars fmt) ap :: ('a con_scheme, unit) kern)"
  shows "prints_free (cprintf fmt ap :: ('a con_scheme, unit) kern)"
  unfolding prints_free_def
proof (intro allI impI)
  fix s :: "'a con_scheme"
  assume s: "screen_ok s" "\<not> cons_held s"
  show "\<exists>t. cprintf fmt ap s = Inr ((), t) \<and> screen_ok t \<and> editor t = editor s"
  proof (cases "cons_locking s")
    case False
    with assms s show ?thesis by (auto simp: cprintf_def kmonad_simps prints_def)
  next
    case True
    let ?u = "s\<lparr>cons_held := True, cpu_ncli := cpu_ncli s + 1, cpu_intr := False\<rparr>"
    from s have "screen_ok ?u" by (simp add: screen_ok_def)
    with assms obtain t where "cprintf_loop (chars fmt) ap ?u = Inr ((), t)" "screen_ok t" "editor t = editor ?u"
      unfolding prints_def by blast
    then show ?thesis using True s
      by (auto simp: cprintf_def kmonad_simps lock_cons_def unlock_cons_def editor_def screen_ok_def)
  qed
qed

lemma prints_free_kret: "prints_free (kret ())"
  by (simp add: prints_free_def kmonad_simps)

lemma editor_held: "editor t = editor s \<Longrightarrow> cons_held t = cons_held s"
  by (simp add: editor_def)

lemma prints_free_kthen:
  assumes "prints_free m" "prints_free n"
  shows "prints_free (kthen m n)"
  unfolding prints_free_def
proof (intro allI impI)
  fix s :: "'a con_scheme" assume "screen_ok s" "\<not> cons_held s"
  with assms(1) obtain u where u: "m s = Inr ((), u)" "screen_ok u" "editor u = editor s" unfolding prints_free_def by blast
  with \<open>\<not> cons_held s\<close> assms(2) obtain t where "n u = Inr ((), t)" "screen_ok t" "editor t = editor u"
    unfolding prints_free_def using editor_held by blast
  with u show "\<exists>t. kthen m n s = Inr ((), t) \<and> screen_ok t \<and> editor t = editor s" by (simp add: kthen_Inr)
qed

lemma prints_free_kfor: "(\<And>x. prints_free (f x)) \<Longrightarrow> prints_free (kfor xs f)"
  by (induction xs) (simp_all add: prints_free_kret prints_free_kthen)

lemma prints_free_kget: "(\<And>x. prints_free (f x)) \<Longrightarrow> prints_free (kbind (kget g) f)"
  unfolding prints_free_def by (simp add: kmonad_simps)

lemma prints_free_if: "prints_free m \<Longrightarrow> prints_free n \<Longrightarrow> prints_free (if b then m else n)"
  by simp

lemma procdump_prints: "prints_free (procdump trace)"
proof -
  have "prints_free (cprintf ''%d %s %s'' [AInt a, AStr (Some b), AStr (Some c)])" for a b c
    by (rule prints_cprintf) (simp add: chars_def prints_rules prints_printint)
  moreover have "prints_free (cprintf '' %p'' [AInt a])" for a
    by (rule prints_cprintf) (simp add: chars_def prints_rules prints_printint)
  moreover have "prints_free (cprintf [CHR 0x0A] [])"
    by (rule prints_cprintf) (simp add: chars_def prints_rules)
  ultimately show ?thesis
    unfolding procdump_def by (intro prints_free_kfor prints_free_kget prints_free_if prints_free_kret prints_free_kthen)
qed

lemma editor_con_inv:
  "editor t = editor s \<Longrightarrow> screen_ok t \<Longrightarrow> con_inv s \<Longrightarrow> con_inv t \<and> line_state t = line_state s"
  by (auto simp: editor_def con_inv_def line_state_def)

text \<open>The specification of a read: bytes up to a newline or the requested number; \<open>^D\<close> ends a read and is
  kept for the next one unless it comes first; \<open>None\<close> is a read that has to wait.\<close>

fun line_read :: "bool \<Rightarrow> nat \<Rightarrow> uchar list \<Rightarrow> (uchar list \<times> uchar list) option" where
  "line_read some 0 cm = Some ([], cm)"
| "line_read some (Suc n) [] = None"
| "line_read some (Suc n) (c # cm) =
     (if c = 4 then Some ([], if some then c # cm else cm)
      else if c = 10 then Some ([c], cm)
      else map_option (apfst (Cons c)) (line_read True n cm))"

lemma console_read_loop_line:
  assumes "target = of_int n + of_nat k" "0 \<le> n" "nat n + k < 2147483648"
  shows "case line_read (0 < k) (nat n) (window INPUT_BUF buf r w) of
      Some (bs, rest) \<Rightarrow> \<exists>r'. console_read_loop kd buf w target n r = (r', bs, Returns (int (k + length bs))) \<and>
        window INPUT_BUF buf r' w = rest \<and> unat (w - r') \<le> unat (w - r)
    | None \<Rightarrow> \<exists>r' bs j. console_read_loop kd buf w target n r = (r', bs, if kd then Returns (- 1) else Blocks j)"
  using assms
proof (induction kd buf w target n r arbitrary: k rule: console_read_loop.induct)
  case (1 kd buf w target n r)
  note IH = 1(1) and tgt = 1(2) and n = 1(3) and bound = 1(4)
  have sub: "target - of_int n = of_nat k" "target - of_int (n - 1) = of_nat (Suc k)" using tgt by simp_all
  note code = console_read_loop.simps [of kd buf w target n r]
  show ?case
  proof (cases "n > 0")
    case False
    then show ?thesis unfolding code using n bound sub(1) sint_small [of k] by simp
  next
    case pos: True
    then obtain m where m: "nat n = Suc m" by (metis gr0_conv_Suc zero_less_nat_eq)
    show ?thesis
    proof (cases "r = w")
      case True
      then show ?thesis unfolding code using pos m by simp
    next
      case False
      define c where "c = buf ! unat (r mod of_nat INPUT_BUF)"
      have win: "window INPUT_BUF buf r w = c # window INPUT_BUF buf (r + 1) w"
        unfolding c_def by (rule input_ring.window_cons) (rule False)
      have shrink: "unat (w - (r + 1)) \<le> unat (w - r)" using unat_diff_Suc [OF False] by simp
      have later: "of_int n < target \<longleftrightarrow> 0 < k"
      proof -
        have "of_int n = (of_nat (nat n) :: uint)" using n by simp
        then show ?thesis using tgt bound m by (simp add: word_less_nat_alt unat_of_nat unat_word_ariths)
      qed
      have code': "console_read_loop kd buf w target n r =
          (if c = 4 then (if 0 < k then r else r + 1, [], Returns (int k))
           else if c = 10 then (r + 1, [c], Returns (int (Suc k)))
           else let (r', bs, res) = console_read_loop kd buf w target (n - 1) (r + 1) in (r', c # bs, res))"
      proof -
        have "sint (of_nat k :: uint) = int k" "sint (of_nat (Suc k) :: uint) = int (Suc k)"
          by (rule sint_small, use bound m in simp)+
        then show ?thesis unfolding code c_def [symmetric] Let_def sub later using pos False by (simp del: of_nat_Suc)
      qed
      show ?thesis
      proof (cases "c = 4 \<or> c = 10")
        case True
        then show ?thesis unfolding m win code' using shrink win by auto
      next
        case ne: False
        have "line_read (0 < Suc k) m (window INPUT_BUF buf (r + 1) w) = line_read True m (window INPUT_BUF buf (r + 1) w)" by simp
        moreover have "nat (n - 1) = m" "0 \<le> n - 1" "nat (n - 1) + Suc k < 2147483648" "target = of_int (n - 1) + of_nat (Suc k)"
          using m pos bound tgt by auto
        ultimately show ?thesis unfolding m win code'
          using IH [OF pos False c_def, of "Suc k"] ne shrink
          by (cases kd) (auto split: option.splits prod.splits)
      qed
    qed
  qed
qed

section \<open>Properties\<close>

definition con_ex :: con where
  "con_ex = fsys.extend fsys_ex
     \<lparr>cons_held = False, cons_locking = True, panicked = False, uart_present = True, uart_tx = [], crt = (\<lambda>_. 0), crt_pos = 0,
      in_buf = replicate INPUT_BUF 0, in_r = - 2, in_w = - 2, in_e = - 2, kbd_shift = 0\<rparr>"

lemmas con_ex_simps = con_ex_def fsys.defs fsys_ex_def fs.defs fs_ex_def fslog.defs log_ex_def bio.defs bio_ex_simps

text \<open>C28. The console interrupt refines the line editor: from a state in which the screen works, for any characters the
  driver delivers, the handler returns without panic and without the lock, and committed input and the line being edited
  are what the specification of the editor makes of them, although they live in a ring buffer with wrapping indices.\<close>

theorem consoleintr_refines:
  assumes "con_inv s" "\<not> ptable_held s" "\<not> cons_held s" "\<forall>c \<in> set codes. 0 \<le> c \<and> c \<le> 255"
  shows "\<exists>t. consoleintr trace codes s = Inr ((), t) \<and> con_inv t \<and> \<not> cons_held t \<and>
    line_state t = fold line_edit codes (line_state s)"
proof -
  let ?u = "s\<lparr>cons_held := True, cpu_ncli := cpu_ncli s + 1, cpu_intr := False\<rparr>"
  have "con_inv ?u" "line_state ?u = line_state s" "\<not> ptable_held ?u"
    using assms by (simp_all add: con_inv_def line_state_def screen_ok_def)
  with consoleintr_loop_refines [of ?u codes False] assms(4) obtain d v where
    v: "consoleintr_loop codes False ?u = Inr (d, v)" "con_inv v" "cons_held v"
      "line_state v = fold line_edit codes (line_state s)" by auto
  let ?w = "v\<lparr>cons_held := False, cpu_ncli := cpu_ncli v - 1, cpu_intr := cpu_ncli v = 1\<rparr>"
  have w: "con_inv ?w" "line_state ?w = line_state v" "\<not> cons_held ?w"
    using v(2) by (simp_all add: con_inv_def line_state_def screen_ok_def)
  have e: "consoleintr trace codes s = (if d then procdump trace else kret ()) ?w"
    using assms(3) v(1,3) by (simp add: consoleintr_def lock_cons_def unlock_cons_def kmonad_simps)
  show ?thesis
  proof (cases d)
    case False
    then show ?thesis using e w v(4) by (simp add: kmonad_simps)
  next
    case True
    from w(1) have "screen_ok ?w" by (simp add: con_inv_def)
    with procdump_prints [of trace] w(3) obtain t where
      "procdump trace ?w = Inr ((), t)" "screen_ok t" "editor t = editor ?w" unfolding prints_free_def by blast
    with editor_con_inv [of t ?w] editor_held [of t ?w] w v(4) e True show ?thesis by auto
  qed
qed

theorem consoleintr_refines_witness:
  "\<exists>t. consoleintr (\<lambda>_. []) [104, 105, 8, 13] con_ex = Inr ((), t) \<and> line_state t = ([104, 10], [])"
proof -
  have "con_inv con_ex" "\<not> ptable_held con_ex" "\<not> cons_held con_ex" "line_state con_ex = ([], [])"
    by (simp_all add: con_inv_def line_state_def screen_ok_def con_ex_simps)
  with consoleintr_refines [of con_ex "[104, 105, 8, 13]" "\<lambda>_. []"] show ?thesis
    by (auto simp: line_edit_def INPUT_BUF_def)
qed

text \<open>C29. A read of the console returns the next line: for a process that holds the lock of a valid console inode,
  \<open>consoleread\<close> takes from the committed input exactly what the specification says and leaves the rest for the next
  read (\<open>^D\<close> included, if it ended a non-empty read); it waits only if there is no complete line and the
  request is not satisfied.\<close>

theorem consoleread_line:
  assumes "con_inv s" "\<not> cons_held s" "0 \<le> sint n" "i_valid (icache s ip)" "0 < i_ref (icache s ip)"
    "holdingsleep (curpid s) (i_lock (icache s ip))"
  shows "case line_read False (nat (sint n)) (fst (line_state s)) of
      Some (bs, rest) \<Rightarrow> \<exists>t. consoleread ip n s = Inr ((int (length bs), bs), t) \<and> con_inv t \<and> \<not> cons_held t \<and>
        line_state t = (rest, snd (line_state s))
    | None \<Rightarrow> p_killed (myproc s) \<or> consoleread ip n s = Inl (Sleeps ''consoleread'')"
proof -
  have "n = of_int (sint n) + of_nat 0" "nat (sint n) + 0 < 2147483648"
    using sint_lt [of n] by simp_all
  note R = console_read_loop_line [OF this(1) assms(3) this(2), where buf = "in_buf s" and r = "in_r s" and w = "in_w s"
    and kd = "p_killed (myproc s)"]
  let ?o = "line_read False (nat (sint n)) (fst (line_state s))"
  show ?thesis
  proof (cases ?o)
    case None
    then show ?thesis using R assms
      by (cases "p_killed (myproc s)") (auto simp: line_state_def consoleread_def iunlock_def lock_cons_def upd_inode_def kmonad_simps)
  next
    case (Some a)
    obtain bs rest where a: "a = (bs, rest)" by (cases a)
    from R Some a obtain r' where
      r: "console_read_loop (p_killed (myproc s)) (in_buf s) (in_w s) n (sint n) (in_r s) = (r', bs, Returns (int (length bs)))"
        "window INPUT_BUF (in_buf s) r' (in_w s) = rest" "unat (in_w s - r') \<le> unat (in_w s - in_r s)"
      by (auto simp: line_state_def)
    define t where "t = s\<lparr>icache := (icache s)(ip := icache s ip\<lparr>i_lock := (i_lock (icache s ip))\<lparr>slocked := True, slpid := curpid s\<rparr>\<rparr>),
      cons_held := False, cpu_intr := cpu_ncli s = 0, in_r := r'\<rparr>"
    have "consoleread ip n s = Inr ((int (length bs), bs), t)"
      unfolding consoleread_def using assms r(1)
      by (simp add: iunlock_def lock_cons_def unlock_cons_def upd_inode_def ilock_def inode_acquiresleep_def
        releasesleep_def acquiresleep_def kmonad_simps t_def)
    moreover have "con_inv t" "line_state t = (rest, snd (line_state s))" "\<not> cons_held t"
      using assms(1) r(2,3) by (auto simp: t_def con_inv_def line_state_def screen_ok_def)
    ultimately show ?thesis by (simp add: Some a)
  qed
qed

theorem consoleread_line_witness:
  "\<exists>t s. s = con_ex\<lparr>in_buf := [10, 120] @ replicate 124 0 @ [104, 105], in_w := 1, in_e := 2, icache := (\<lambda>_. inode_ex\<lparr>i_ref := 1, i_valid := True,
      i_lock := (i_lock inode_ex)\<lparr>slocked := True, slpid := 7\<rparr>\<rparr>)\<rparr> \<and>
    consoleread 3 100 s = Inr ((3, [104, 105, 10]), t) \<and> line_state t = ([], [120])"
proof -
  let ?s = "con_ex\<lparr>in_buf := [10, 120] @ replicate 124 0 @ [104, 105], in_w := 1, in_e := 2, icache := (\<lambda>_. inode_ex\<lparr>i_ref := 1, i_valid := True,
      i_lock := (i_lock inode_ex)\<lparr>slocked := True, slpid := 7\<rparr>\<rparr>)\<rparr>"
  have l: "line_state ?s = ([104, 105, 10], [120])"
    by (simp add: line_state_def window_def INPUT_BUF_def con_ex_simps upt_rec nth_append)
  have "con_inv ?s" "\<not> cons_held ?s" "i_valid (icache ?s 3)" "0 < i_ref (icache ?s 3)"
    "holdingsleep (curpid ?s) (i_lock (icache ?s 3))"
    using l by (simp_all add: con_inv_def screen_ok_def INPUT_BUF_def con_ex_simps holdingsleep_def)
  moreover have "line_read False 100 [104, 105, 10] = Some ([104, 105, 10], [])"
    using line_read.simps(3) [of False 99 104 "[105, 10]"] line_read.simps(3) [of True 98 105 "[10]"]
      line_read.simps(3) [of True 97 10 "[]"] by simp
  ultimately show ?thesis using consoleread_line [of ?s 100 3] l by auto
qed

end
