(* ===== verification/Devices.thy ===== *)
theory Devices
  imports Console
begin

text \<open>
  The character devices (\<open>zero.c\<close>, \<open>null.c\<close>, \<open>dhello.c\<close>, \<open>ticks.c\<close>, \<open>consoleinit\<close>) and the device table their
  initialisation fills in.  A read returns the result of the call and the bytes stored at \<open>dst\<close>.
\<close>

section \<open>Definitions\<close>

definition CONSOLE :: nat where "CONSOLE = 1"

definition ZERO :: nat where "ZERO = 2"

definition NULL_DEV :: nat where "NULL_DEV = 3"

definition TICKS :: nat where "TICKS = 4"

definition HELLO :: nat where "HELLO = 7"

lemmas dev_numbers = CONSOLE_def ZERO_def NULL_DEV_def TICKS_def HELLO_def

text \<open>\<open>s_cnputs\<close> of \<open>zero.c\<close> and \<open>dhello.c\<close>.\<close>

definition dev_cnputs :: "int \<Rightarrow> string \<Rightarrow> int \<times> uchar list" where
  "dev_cnputs n str =
     (let out = take (nat n) (takeWhile (\<lambda>c. c \<noteq> 0) (chars str)); count = length out in
      (int count, if int count < n then out @ [0] else out))"

definition zeroread :: "nat \<Rightarrow> uint \<Rightarrow> ('s, int \<times> uchar list) kern" where
  "zeroread ip n = kret (dev_cnputs (sint n) ''0'')"

definition nullread :: "nat \<Rightarrow> uint \<Rightarrow> ('s, int \<times> uchar list) kern" where
  "nullread ip n = kret (sint n, [])"

definition nullwrite :: "nat \<Rightarrow> uchar list \<Rightarrow> uint \<Rightarrow> ('s, int) kern" where
  "nullwrite ip src n = kret (sint n)"

definition helloread :: "nat \<Rightarrow> uint \<Rightarrow> ('s, int \<times> uchar list) kern" where
  "helloread ip n = kret (dev_cnputs (sint n) ''Hello, World!'')"

definition hellowrite :: "nat \<Rightarrow> uchar list \<Rightarrow> uint \<Rightarrow> ('s, int) kern" where
  "hellowrite ip buf n = kret 0"

text \<open>\<open>ticksread\<close> on its static buffer, whose old contents do not matter.\<close>

definition ticks_read :: "nat \<Rightarrow> uint \<Rightarrow> ('a ktab_scheme, int \<times> uchar list) kern" where
  "ticks_read ip n = (\<lambda>s. case ticksread (ticks s) (nat (sint n)) \<lparr>fdout = [], obuf = replicate 512 0\<rparr> of
     Inl e \<Rightarrow> Inl e | Inr ((bs, k), _) \<Rightarrow> Inr ((int k, bs), s))"

definition consoleinit :: "(nat \<Rightarrow> 'a con_scheme devsw) \<Rightarrow> nat \<Rightarrow> 'a con_scheme devsw" where
  "consoleinit dv = dv(CONSOLE := (dv CONSOLE)\<lparr>dev_write := Some consolewrite, dev_read := Some consoleread\<rparr>)"

definition helloinit :: "(nat \<Rightarrow> 's devsw) \<Rightarrow> nat \<Rightarrow> 's devsw" where
  "helloinit dv = dv(HELLO := (dv HELLO)\<lparr>dev_write := Some hellowrite, dev_read := Some helloread\<rparr>)"

definition zeroinit :: "(nat \<Rightarrow> 's devsw) \<Rightarrow> nat \<Rightarrow> 's devsw" where
  "zeroinit dv = dv(ZERO := (dv ZERO)\<lparr>dev_read := Some zeroread\<rparr>)"

definition nullinit :: "(nat \<Rightarrow> 's devsw) \<Rightarrow> nat \<Rightarrow> 's devsw" where
  "nullinit dv = dv(NULL_DEV := (dv NULL_DEV)\<lparr>dev_read := Some nullread, dev_write := Some nullwrite\<rparr>)"

definition ticksinit :: "(nat \<Rightarrow> 'a ktab_scheme devsw) \<Rightarrow> nat \<Rightarrow> 'a ktab_scheme devsw" where
  "ticksinit dv = dv(TICKS := (dv TICKS)\<lparr>dev_read := Some ticks_read\<rparr>)"

text \<open>\<open>devsw\<close> as \<open>main\<close> leaves it.\<close>

definition devsw_table :: "nat \<Rightarrow> 'a con_scheme devsw" where
  "devsw_table = ticksinit (nullinit (zeroinit (helloinit (consoleinit (\<lambda>_. \<lparr>dev_read = None, dev_write = None\<rparr>)))))"

end
