(* ===== verification/Usermem.thy ===== *)
theory Usermem
  imports Ptable Layout
begin

text \<open>
  The user memory of the running process as the kernel accesses it during a system call: through the page
  table of the process, which the hardware walks (\<open>cr3\<close>, \<open>mmu.h\<close>).  An access to a page that is not present
  traps in the kernel, where \<open>trap\<close> panics.
\<close>

section \<open>Definitions\<close>

text \<open>The page table entry of \<open>va\<close>, 0 if there is no table for it; the entry \<open>walkpgdir\<close> finds.\<close>

definition pte_at :: "mem \<Rightarrow> uint \<Rightarrow> uint \<Rightarrow> uint" where
  "pte_at m pgdir va =
     (let pde = load32 m (pgdir + 4 * PDX va) in
      if and pde PTE_P = 0 then 0 else load32 m (PTE_ADDR pde + KERNBASE + 4 * PTX va))"

definition user_page :: "'a ktab_scheme \<Rightarrow> uint \<Rightarrow> bool" where
  "user_page s va \<longleftrightarrow> and (pte_at (kmemory s) (p_pgdir (myproc s)) va) PTE_P \<noteq> 0"

text \<open>The kernel address of the byte at user address \<open>va\<close>.\<close>

definition user_addr :: "'a ktab_scheme \<Rightarrow> uint \<Rightarrow> uint" where
  "user_addr s va = PTE_ADDR (pte_at (kmemory s) (p_pgdir (myproc s)) va) + KERNBASE + and va 0xFFF"

definition ubyte :: "uint \<Rightarrow> ('a ktab_scheme, uchar) kern" where
  "ubyte va = (\<lambda>s. if user_page s va then Inr (kmemory s (user_addr s va), s) else Inl (Panic ''trap''))"

definition set_ubyte :: "uint \<Rightarrow> uchar \<Rightarrow> ('a ktab_scheme, unit) kern" where
  "set_ubyte va c = (\<lambda>s. if user_page s va then Inr ((), s\<lparr>kmemory := (kmemory s)(user_addr s va := c)\<rparr>)
     else Inl (Panic ''trap''))"

fun ubytes :: "uint \<Rightarrow> nat \<Rightarrow> ('a ktab_scheme, uchar list) kern" where
  "ubytes va 0 = kret []"
| "ubytes va (Suc n) = kbind (ubyte va) (\<lambda>c. kbind (ubytes (va + 1) n) (\<lambda>cs. kret (c # cs)))"

fun set_ubytes :: "uint \<Rightarrow> uchar list \<Rightarrow> ('a ktab_scheme, unit) kern" where
  "set_ubytes va [] = kret ()"
| "set_ubytes va (c # cs) = kthen (set_ubyte va c) (set_ubytes (va + 1) cs)"

definition uword :: "uint \<Rightarrow> ('a ktab_scheme, uint) kern" where
  "uword va = kbind (ubytes va 4) (\<lambda>bs. kret (get32 bs 0))"

definition set_uword :: "uint \<Rightarrow> uint \<Rightarrow> ('a ktab_scheme, unit) kern" where
  "set_uword va w = set_ubytes va (put32 (replicate 4 0) 0 w)"

section \<open>Lemmas\<close>

lemma user_leaves [leaves_rules]:
  "leaves kmem.more (ubyte va)" "leaves kmem.more (set_ubyte va c)"
  by (auto intro!: leavesI simp: ubyte_def set_ubyte_def split: if_splits)

lemma ubytes_leaves [leaves_rules]: "leaves kmem.more (ubytes va n)"
  by (induction n arbitrary: va) (auto intro!: leaves_rules)

lemma set_ubytes_leaves [leaves_rules]: "leaves kmem.more (set_ubytes va cs)"
  by (induction cs arbitrary: va) (auto intro!: leaves_rules)

lemma uword_leaves [leaves_rules]: "leaves kmem.more (uword va)" "leaves kmem.more (set_uword va w)"
  unfolding uword_def set_uword_def by (intro leaves_rules)+

end
