(* ===== verification/Sysfile.thy ===== *)
theory Sysfile
  imports File Usermem
begin

text \<open>
  Fetching system call arguments (\<open>syscall.c\<close>) and the file system calls (\<open>sysfile.c\<close>) of the running process.
  Arguments and buffers are in its user memory; size, trap frame, open files and current directory are fields of its
  \<open>struct proc\<close>.  \<open>exec\<close> is an argument of \<open>sys_exec\<close>.
\<close>

section \<open>Definitions\<close>

definition MAXARG :: nat where [param_defs]: "MAXARG = 32"

definition O_RDONLY :: uint where "O_RDONLY = 0x000"

definition O_WRONLY :: uint where "O_WRONLY = 0x001"

definition O_RDWR :: uint where "O_RDWR = 0x002"

definition O_CREATE :: uint where "O_CREATE = 0x200"

subsection \<open>syscall.c\<close>

definition fetchint :: "uint \<Rightarrow> ('a ktab_scheme, uint option) kern" where
  "fetchint addr =
     kbind (kget (\<lambda>s. p_sz (myproc s))) (\<lambda>sz.
     if addr \<ge> sz \<or> addr + 4 > sz then kret None
     else kbind (uword addr) (\<lambda>w. kret (Some w)))"

function fetchstr_loop :: "uint \<Rightarrow> uint \<Rightarrow> uchar list \<Rightarrow> ('a ktab_scheme, uchar list option) kern" where
  "fetchstr_loop ep s acc =
     (if s < ep then
        kbind (ubyte s) (\<lambda>c. if c = 0 then kret (Some acc) else fetchstr_loop ep (s + 1) (acc @ [c]))
      else kret None)"
  by pat_completeness auto
termination
proof (relation "measure (\<lambda>(ep, s, acc). unat (ep - s))")
  fix ep s :: uint and acc and c :: uchar
  assume "s < ep"
  then have "ep - s \<noteq> 0" by auto
  then have "unat (ep - (s + 1)) < unat (ep - s)"
    using unat_minus_step [of "ep - s"] unfolding diff_diff_eq by linarith
  then show "((ep, s + 1, acc @ [c]), ep, s, acc) \<in> measure (\<lambda>(ep, s, acc). unat (ep - s))" by simp
qed simp

declare fetchstr_loop.simps [simp del]

text \<open>The string is returned; the number the code returns is its length.\<close>

definition fetchstr :: "uint \<Rightarrow> ('a ktab_scheme, uchar list option) kern" where
  "fetchstr addr =
     kbind (kget (\<lambda>s. p_sz (myproc s))) (\<lambda>sz.
     if addr \<ge> sz then kret None else fetchstr_loop sz addr [])"

definition argint :: "nat \<Rightarrow> ('a fsys_scheme, uint option) kern" where
  "argint n = kbind (kget (\<lambda>s. tf_esp (p_tf (myproc s)))) (\<lambda>esp. fetchint (esp + 4 + 4 * of_nat n))"

definition argptr :: "nat \<Rightarrow> int \<Rightarrow> ('a fsys_scheme, uint option) kern" where
  "argptr n sz =
     kbind (argint n) (\<lambda>r. kget (\<lambda>s.
     case r of
       None \<Rightarrow> None
     | Some i \<Rightarrow> if sz < 0 \<or> i \<ge> p_sz (myproc s) \<or> i + of_int sz > p_sz (myproc s) then None else Some i))"

definition argstr :: "nat \<Rightarrow> ('a fsys_scheme, uchar list option) kern" where
  "argstr n = kbind (argint n) (\<lambda>r. case r of None \<Rightarrow> kret None | Some addr \<Rightarrow> fetchstr addr)"

subsection \<open>sysfile.c\<close>

definition argfd :: "nat \<Rightarrow> ('a fsys_scheme, (nat \<times> nat) option) kern" where
  "argfd n =
     kbind (argint n) (\<lambda>r. kget (\<lambda>s.
     case r of
       None \<Rightarrow> None
     | Some w \<Rightarrow>
         if sint w < 0 \<or> sint w \<ge> int NOFILE then None
         else map_option (Pair (unat w)) (p_ofile (myproc s) ! unat w)))"

definition set_ofile :: "nat \<Rightarrow> nat option \<Rightarrow> 'a ktab_scheme \<Rightarrow> 'a ktab_scheme" where
  "set_ofile fd f s = upd_proc (curproc s) (\<lambda>x. x\<lparr>p_ofile := (p_ofile x)[fd := f]\<rparr>) s"

definition fdalloc :: "nat \<Rightarrow> ('a fsys_scheme, int) kern" where
  "fdalloc f = (\<lambda>s.
     case find (\<lambda>fd. p_ofile (myproc s) ! fd = None) [0..<NOFILE] of
       Some fd \<Rightarrow> Inr (int fd, set_ofile fd (Some f) s)
     | None \<Rightarrow> Inr (- 1, s))"

definition sys_dup :: "('a fsys_scheme, int) kern" where
  "sys_dup =
     kbind (argfd 0) (\<lambda>r.
     case r of None \<Rightarrow> kret (- 1) | Some (_, f) \<Rightarrow>
     kbind (fdalloc f) (\<lambda>fd.
     if fd < 0 then kret (- 1)
     else kthen (filedup f) (kret fd)))"

definition arg_rw :: "('a fsys_scheme, (nat \<times> uint \<times> int) option) kern" where
  "arg_rw =
     kbind (argfd 0) (\<lambda>r.
     case r of None \<Rightarrow> kret None | Some (_, f) \<Rightarrow>
     kbind (argint 2) (\<lambda>r.
     case r of None \<Rightarrow> kret None | Some n \<Rightarrow>
     kbind (argptr 1 (sint n)) (\<lambda>r.
     kret (map_option (\<lambda>p. (f, p, sint n)) r))))"

definition sys_read :: "(nat \<Rightarrow> 'a fsys_scheme devsw) \<Rightarrow> ('a fsys_scheme, int) kern" where
  "sys_read dv =
     kbind arg_rw (\<lambda>r.
     case r of None \<Rightarrow> kret (- 1) | Some (f, p, n) \<Rightarrow>
     kbind (fileread dv f n) (\<lambda>(r, bs).
     kthen (set_ubytes p bs)
     (kret r)))"

definition sys_write :: "(nat \<Rightarrow> 'a fsys_scheme devsw) \<Rightarrow> ('a fsys_scheme, int) kern" where
  "sys_write dv =
     kbind arg_rw (\<lambda>r.
     case r of None \<Rightarrow> kret (- 1) | Some (f, p, n) \<Rightarrow>
     kbind (ubytes p (nat n)) (\<lambda>src.
     filewrite dv f src n))"

definition sys_flock :: "('a fsys_scheme, int) kern" where
  "sys_flock = kbind (argfd 0) (\<lambda>r. case r of Some (_, fp) \<Rightarrow> filelock fp | None \<Rightarrow> kret (- 1))"

definition sys_funlock :: "('a fsys_scheme, int) kern" where
  "sys_funlock = kbind (argfd 0) (\<lambda>r. case r of Some (_, fp) \<Rightarrow> fileunlock fp | None \<Rightarrow> kret (- 1))"

definition sys_close :: "('a fsys_scheme, int) kern" where
  "sys_close =
     kbind (argfd 0) (\<lambda>r.
     case r of None \<Rightarrow> kret (- 1) | Some (fd, f) \<Rightarrow>
     kthen (kmod (set_ofile fd None))
     (kthen (fileclose f)
     (kret 0)))"

text \<open>\<open>struct stat\<close> in user memory: five fields, at offsets 0, 4, 8, 12 and 16, the padding kept.\<close>

definition put_stat :: "uint \<Rightarrow> stat \<Rightarrow> ('a ktab_scheme, unit) kern" where
  "put_stat a st =
     kbind (ubytes a 20) (\<lambda>d.
     set_ubytes a (put32 (put16 (put32 (put32 (put16 d 0 (st_type st)) 4 (of_nat (st_dev st)))
        8 (of_nat (st_ino st))) 12 (st_nlink st)) 16 (st_size st)))"

definition sys_fstat :: "('a fsys_scheme, int) kern" where
  "sys_fstat =
     kbind (argfd 0) (\<lambda>r.
     case r of None \<Rightarrow> kret (- 1) | Some (_, f) \<Rightarrow>
     kbind (argptr 1 20) (\<lambda>r.
     case r of None \<Rightarrow> kret (- 1) | Some a \<Rightarrow>
     kbind (filestat f) (\<lambda>r.
     case r of
       None \<Rightarrow> kret (- 1)
     | Some st \<Rightarrow> kthen (put_stat a st) (kret 0))))"

text \<open>\<open>end_op(); return -1;\<close>\<close>

definition fail_op :: "('a fsys_scheme, int) kern" where
  "fail_op = kthen end_op (kret (- 1))"

definition link_bad :: "nat \<Rightarrow> ('a fsys_scheme, int) kern" where
  "link_bad ip =
     kthen (ilock ip)
     (kthen (kmod (upd_inode ip (\<lambda>x. x\<lparr>i_nlink := i_nlink x - 1\<rparr>)))
     (kthen (iupdate ip)
     (kthen (iunlockput ip)
     fail_op)))"

definition sys_link :: "(nat \<Rightarrow> 'a fsys_scheme devsw) \<Rightarrow> ('a fsys_scheme, int) kern" where
  "sys_link dv =
     kbind (argstr 0) (\<lambda>r.
     case r of None \<Rightarrow> kret (- 1) | Some old \<Rightarrow>
     kbind (argstr 1) (\<lambda>r.
     case r of None \<Rightarrow> kret (- 1) | Some new \<Rightarrow>
     kthen begin_op
     (kbind (namei dv old) (\<lambda>r.
     case r of None \<Rightarrow> fail_op | Some ip \<Rightarrow>
     kthen (ilock ip)
     (kbind (kget (\<lambda>s. i_type (icache s ip))) (\<lambda>ty.
     if ty = T_DIR then kthen (iunlockput ip) fail_op else
     kthen (kmod (upd_inode ip (\<lambda>x. x\<lparr>i_nlink := i_nlink x + 1\<rparr>)))
     (kthen (iupdate ip)
     (kthen (iunlock ip)
     (kbind (nameiparent dv new) (\<lambda>r.
     case r of None \<Rightarrow> link_bad ip | Some (dp, name) \<Rightarrow>
     kthen (ilock dp)
     (kbind (kget (\<lambda>s. (icache s dp, icache s ip))) (\<lambda>(d, x).
     kbind (if i_dev d \<noteq> i_dev x then kret (- 1) else dirlink dv dp name (i_inum x)) (\<lambda>l.
     if l < 0 then kthen (iunlockput dp) (link_bad ip) else
     kthen (iunlockput dp)
     (kthen (iput ip)
     (kthen end_op
     (kret 0))))))))))))))))"

function isdirempty_loop :: "(nat \<Rightarrow> 'a fsys_scheme devsw) \<Rightarrow> nat \<Rightarrow> uint \<Rightarrow> nat \<Rightarrow> ('a fsys_scheme, bool) kern" where
  "isdirempty_loop dv dp sz off =
     (if off < unat sz then
        kbind (readi dv dp (of_nat off) (of_nat DIRENT)) (\<lambda>(r, de).
        if r \<noteq> int DIRENT then kpanic ''isdirempty: readi''
        else if get16 de 0 \<noteq> 0 then kret False
        else isdirempty_loop dv dp sz (off + DIRENT))
      else kret True)"
  by pat_completeness auto
termination by (relation "measure (\<lambda>(dv, dp, sz, off). unat sz - off)") (auto simp: DIRENT_def)

declare isdirempty_loop.simps [simp del]

definition isdirempty :: "(nat \<Rightarrow> 'a fsys_scheme devsw) \<Rightarrow> nat \<Rightarrow> ('a fsys_scheme, bool) kern" where
  "isdirempty dv dp =
     kbind (kget (\<lambda>s. i_size (icache s dp))) (\<lambda>sz. isdirempty_loop dv dp sz (2 * DIRENT))"

definition unlink_entry :: "(nat \<Rightarrow> 'a fsys_scheme devsw) \<Rightarrow> nat \<Rightarrow> nat \<Rightarrow> nat \<Rightarrow> ('a fsys_scheme, int) kern" where
  "unlink_entry dv dp ip off =
     kbind (writei dv dp (replicate DIRENT 0) (of_nat off) (of_nat DIRENT)) (\<lambda>w.
     if w \<noteq> int DIRENT then kpanic ''unlink: writei'' else
     kbind (kget (\<lambda>s. i_type (icache s ip))) (\<lambda>ty.
     kthen
       (if ty = T_DIR then
          kthen (kmod (upd_inode dp (\<lambda>x. x\<lparr>i_nlink := i_nlink x - 1\<rparr>))) (iupdate dp)
        else kret ())
     (kthen (iunlockput dp)
     (kthen (kmod (upd_inode ip (\<lambda>x. x\<lparr>i_nlink := i_nlink x - 1\<rparr>)))
     (kthen (iupdate ip)
     (kthen (iunlockput ip)
     (kthen end_op
     (kret 0))))))))"

definition sys_unlink :: "(nat \<Rightarrow> 'a fsys_scheme devsw) \<Rightarrow> ('a fsys_scheme, int) kern" where
  "sys_unlink dv =
     kbind (argstr 0) (\<lambda>r.
     case r of None \<Rightarrow> kret (- 1) | Some path \<Rightarrow>
     kthen begin_op
     (kbind (nameiparent dv path) (\<lambda>r.
     case r of None \<Rightarrow> fail_op | Some (dp, name) \<Rightarrow>
     kthen (ilock dp)
     (if namecmp name [46] = 0 \<or> namecmp name [46, 46] = 0 then kthen (iunlockput dp) fail_op else
     kbind (dirlookup dv dp name) (\<lambda>r.
     case r of None \<Rightarrow> kthen (iunlockput dp) fail_op | Some (ip, off) \<Rightarrow>
     kthen (ilock ip)
     (kbind (kget (\<lambda>s. icache s ip)) (\<lambda>x.
     if sint (i_nlink x) < 1 then kpanic ''unlink: nlink < 1'' else
     kbind (if i_type x = T_DIR then isdirempty dv ip else kret True) (\<lambda>empty.
     if \<not> empty then kthen (iunlockput ip) (kthen (iunlockput dp) fail_op)
     else unlink_entry dv dp ip off))))))))"

definition create_new :: "(nat \<Rightarrow> 'a fsys_scheme devsw) \<Rightarrow> nat \<Rightarrow> uchar list \<Rightarrow> ushort \<Rightarrow> ushort \<Rightarrow> ushort \<Rightarrow>
    ('a fsys_scheme, nat option) kern" where
  "create_new dv dp name type major minor =
     kbind (kget (\<lambda>s. (i_dev (icache s dp), i_inum (icache s dp)))) (\<lambda>(dev, dinum).
     kbind (ialloc dev type) (\<lambda>ip.
     kthen (ilock ip)
     (kthen (kmod (upd_inode ip (\<lambda>x. x\<lparr>i_major := major, i_minor := minor, i_nlink := 1\<rparr>)))
     (kthen (iupdate ip)
     (kbind (kget (\<lambda>s. i_inum (icache s ip))) (\<lambda>inum.
     kthen
       (if type = T_DIR then
          kthen (kmod (upd_inode dp (\<lambda>x. x\<lparr>i_nlink := i_nlink x + 1\<rparr>)))
          (kthen (iupdate dp)
          (kbind (dirlink dv ip [46] inum) (\<lambda>a.
          if a < 0 then kpanic ''create dots'' else
          kbind (dirlink dv ip [46, 46] dinum) (\<lambda>b.
          if b < 0 then kpanic ''create dots'' else kret ()))))
        else kret ())
     (kbind (dirlink dv dp name inum) (\<lambda>l.
     if l < 0 then kpanic ''create: dirlink'' else
     kthen (iunlockput dp)
     (kret (Some ip))))))))))"

definition create :: "(nat \<Rightarrow> 'a fsys_scheme devsw) \<Rightarrow> uchar list \<Rightarrow> ushort \<Rightarrow> ushort \<Rightarrow> ushort \<Rightarrow>
    ('a fsys_scheme, nat option) kern" where
  "create dv path type major minor =
     kbind (nameiparent dv path) (\<lambda>r.
     case r of None \<Rightarrow> kret None | Some (dp, name) \<Rightarrow>
     kthen (ilock dp)
     (kbind (dirlookup dv dp name) (\<lambda>r.
     case r of
       Some (ip, _) \<Rightarrow>
         kthen (iunlockput dp)
         (kthen (ilock ip)
         (kbind (kget (\<lambda>s. i_type (icache s ip))) (\<lambda>ty.
         if type = T_FILE \<and> ty = T_FILE then kret (Some ip)
         else kthen (iunlockput ip) (kret None))))
     | None \<Rightarrow> create_new dv dp name type major minor)))"

definition open_file :: "nat \<Rightarrow> uint \<Rightarrow> kfile \<Rightarrow> kfile" where
  "open_file ip omode x = x\<lparr>f_type := FD_INODE, f_ip := Some ip, f_off := 0, f_readable := and omode O_WRONLY = 0,
     f_writable := and omode O_WRONLY \<noteq> 0 \<or> and omode O_RDWR \<noteq> 0\<rparr>"

definition open_inode :: "(nat \<Rightarrow> 'a fsys_scheme devsw) \<Rightarrow> uchar list \<Rightarrow> uint \<Rightarrow> ('a fsys_scheme, nat option) kern" where
  "open_inode dv path omode =
     (if and omode O_CREATE \<noteq> 0 then create dv path T_FILE 0 0
      else
        kbind (namei dv path) (\<lambda>r.
        case r of None \<Rightarrow> kret None | Some ip \<Rightarrow>
        kthen (ilock ip)
        (kbind (kget (\<lambda>s. i_type (icache s ip))) (\<lambda>ty.
        if ty = T_DIR \<and> omode \<noteq> O_RDONLY then kthen (iunlockput ip) (kret None)
        else kret (Some ip)))))"

definition sys_open :: "(nat \<Rightarrow> 'a fsys_scheme devsw) \<Rightarrow> ('a fsys_scheme, int) kern" where
  "sys_open dv =
     kbind (argstr 0) (\<lambda>r.
     case r of None \<Rightarrow> kret (- 1) | Some path \<Rightarrow>
     kbind (argint 1) (\<lambda>r.
     case r of None \<Rightarrow> kret (- 1) | Some omode \<Rightarrow>
     kthen begin_op
     (kbind (open_inode dv path omode) (\<lambda>r.
     case r of None \<Rightarrow> fail_op | Some ip \<Rightarrow>
     kbind filealloc (\<lambda>r.
     case r of None \<Rightarrow> kthen (iunlockput ip) fail_op | Some f \<Rightarrow>
     kbind (fdalloc f) (\<lambda>fd.
     if fd < 0 then kthen (fileclose f) (kthen (iunlockput ip) fail_op) else
     kthen (iunlock ip)
     (kthen end_op
     (kthen (kmod (upd_file f (open_file ip omode)))
     (kret fd)))))))))"

definition sys_mkdir :: "(nat \<Rightarrow> 'a fsys_scheme devsw) \<Rightarrow> ('a fsys_scheme, int) kern" where
  "sys_mkdir dv =
     kthen begin_op
     (kbind (argstr 0) (\<lambda>r.
     case r of None \<Rightarrow> fail_op | Some path \<Rightarrow>
     kbind (create dv path T_DIR 0 0) (\<lambda>r.
     case r of None \<Rightarrow> fail_op | Some ip \<Rightarrow>
     kthen (iunlockput ip)
     (kthen end_op
     (kret 0)))))"

definition sys_mknod :: "(nat \<Rightarrow> 'a fsys_scheme devsw) \<Rightarrow> ('a fsys_scheme, int) kern" where
  "sys_mknod dv =
     kthen begin_op
     (kbind (argstr 0) (\<lambda>r.
     case r of None \<Rightarrow> fail_op | Some path \<Rightarrow>
     kbind (argint 1) (\<lambda>r.
     case r of None \<Rightarrow> fail_op | Some major \<Rightarrow>
     kbind (argint 2) (\<lambda>r.
     case r of None \<Rightarrow> fail_op | Some minor \<Rightarrow>
     kbind (create dv path T_DEV (ucast major) (ucast minor)) (\<lambda>r.
     case r of None \<Rightarrow> fail_op | Some ip \<Rightarrow>
     kthen (iunlockput ip)
     (kthen end_op
     (kret 0)))))))"

definition sys_chdir :: "(nat \<Rightarrow> 'a fsys_scheme devsw) \<Rightarrow> ('a fsys_scheme, int) kern" where
  "sys_chdir dv =
     kthen begin_op
     (kbind (argstr 0) (\<lambda>r.
     case r of None \<Rightarrow> fail_op | Some path \<Rightarrow>
     kbind (namei dv path) (\<lambda>r.
     case r of None \<Rightarrow> fail_op | Some ip \<Rightarrow>
     kthen (ilock ip)
     (kbind (kget (\<lambda>s. i_type (icache s ip))) (\<lambda>ty.
     if ty \<noteq> T_DIR then kthen (iunlockput ip) fail_op else
     kthen (iunlock ip)
     (kthen (kbind (kget (\<lambda>s. p_cwd (myproc s))) (\<lambda>c. kbind (inode_of c) iput))
     (kthen end_op
     (kthen (kmod (\<lambda>s. upd_proc (curproc s) (\<lambda>x. x\<lparr>p_cwd := Some ip\<rparr>) s))
     (kret 0)))))))))"

text \<open>The loop of \<open>sys_exec\<close> that collects the argument strings.\<close>

function exec_args :: "uint \<Rightarrow> nat \<Rightarrow> uchar list list \<Rightarrow> ('a fsys_scheme, uchar list list option) kern" where
  "exec_args uargv i argv =
     (if i \<ge> MAXARG then kret None else
      kbind (fetchint (uargv + 4 * of_nat i)) (\<lambda>r.
      case r of None \<Rightarrow> kret None | Some uarg \<Rightarrow>
      if uarg = 0 then kret (Some argv) else
      kbind (fetchstr uarg) (\<lambda>r.
      case r of None \<Rightarrow> kret None | Some str \<Rightarrow> exec_args uargv (Suc i) (argv @ [str]))))"
  by pat_completeness auto
termination by (relation "measure (\<lambda>(uargv, i, argv). MAXARG - i)") auto

declare exec_args.simps [simp del]

definition sys_exec :: "(uchar list \<Rightarrow> uchar list list \<Rightarrow> ('a fsys_scheme, int) kern) \<Rightarrow> ('a fsys_scheme, int) kern" where
  "sys_exec exec =
     kbind (argstr 0) (\<lambda>r.
     case r of None \<Rightarrow> kret (- 1) | Some path \<Rightarrow>
     kbind (argint 1) (\<lambda>r.
     case r of None \<Rightarrow> kret (- 1) | Some uargv \<Rightarrow>
     kbind (exec_args uargv 0 []) (\<lambda>r.
     case r of None \<Rightarrow> kret (- 1) | Some argv \<Rightarrow> exec path argv)))"

definition sys_pipe :: "('a fsys_scheme, int) kern" where
  "sys_pipe =
     kbind (argptr 0 8) (\<lambda>r.
     case r of None \<Rightarrow> kret (- 1) | Some fd \<Rightarrow>
     kbind pipealloc (\<lambda>r.
     case r of None \<Rightarrow> kret (- 1) | Some (r_f, w_f) \<Rightarrow>
     kbind (fdalloc r_f) (\<lambda>fd0.
     kbind (if fd0 < 0 then kret (- 1) else fdalloc w_f) (\<lambda>fd1.
     if fd0 < 0 \<or> fd1 < 0 then
       kthen (if fd0 \<ge> 0 then kmod (set_ofile (nat fd0) None) else kret ())
       (kthen (fileclose r_f)
       (kthen (fileclose w_f)
       (kret (- 1))))
     else
       kthen (set_uword fd (of_int fd0))
       (kthen (set_uword (fd + 4) (of_int fd1))
       (kret 0))))))"

end
