(* ===== verification/Exec.thy ===== *)
theory Exec
  imports Devices Sysfile
begin

text \<open>
  Loading a program (\<open>exec.c\<close>, \<open>elf.h\<close>, \<open>loaduvm\<close> of \<open>vm.c\<close>).  The argument strings are lists of bytes without their
  terminating NUL.  The headers are read as bytes and decoded at the offsets of their fields.
\<close>

section \<open>Definitions\<close>

definition ELF_MAGIC :: uint where "ELF_MAGIC = 0x464C457F"

definition ELF_PROG_LOAD :: uint where "ELF_PROG_LOAD = 1"

record elfhdr =
  elf_magic :: uint
  elf_entry :: uint
  elf_phoff :: uint
  elf_phnum :: ushort

record proghdr =
  ph_type :: uint
  ph_off :: uint
  ph_vaddr :: uint
  ph_filesz :: uint
  ph_memsz :: uint

definition ELFHDR :: nat where "ELFHDR = 52"

definition PROGHDR :: nat where "PROGHDR = 32"

definition dec_elfhdr :: "uchar list \<Rightarrow> elfhdr" where
  "dec_elfhdr d = \<lparr>elf_magic = get32 d 0, elf_entry = get32 d 24, elf_phoff = get32 d 28, elf_phnum = get16 d 44\<rparr>"

definition dec_proghdr :: "uchar list \<Rightarrow> proghdr" where
  "dec_proghdr d = \<lparr>ph_type = get32 d 0, ph_off = get32 d 4, ph_vaddr = get32 d 8, ph_filesz = get32 d 16, ph_memsz = get32 d 20\<rparr>"

fun loaduvm_loop :: "(nat \<Rightarrow> 'a fsys_scheme devsw) \<Rightarrow> uint \<Rightarrow> uint \<Rightarrow> nat \<Rightarrow> uint \<Rightarrow> uint \<Rightarrow> uint list \<Rightarrow> ('a fsys_scheme, int) kern" where
  "loaduvm_loop dv pgdir addr ip offset sz [] = kret 0"
| "loaduvm_loop dv pgdir addr ip offset sz (i # is) =
     kbind (walkpgdir pgdir (addr + i) False) (\<lambda>pte.
     if pte = 0 then kpanic ''loaduvm: address should exist'' else
     kbind (load pte) (\<lambda>e.
     let pa = PTE_ADDR e; n = (if sz - i < PGSIZE then sz - i else PGSIZE) in
     kbind (P2V pa) (\<lambda>a.
     kbind (readi dv ip (offset + i) n) (\<lambda>(r, bs).
     kthen (kmod (\<lambda>s. s\<lparr>kmemory := write_mem (kmemory s) a bs\<rparr>))
     (if of_int r \<noteq> n then kret (- 1) else loaduvm_loop dv pgdir addr ip offset sz is)))))"

definition loaduvm :: "(nat \<Rightarrow> 'a fsys_scheme devsw) \<Rightarrow> uint \<Rightarrow> uint \<Rightarrow> nat \<Rightarrow> uint \<Rightarrow> uint \<Rightarrow> ('a fsys_scheme, int) kern" where
  "loaduvm dv pgdir addr ip offset sz =
     (if addr mod PGSIZE \<noteq> 0 then kpanic ''loaduvm: addr must be page aligned''
      else loaduvm_loop dv pgdir addr ip offset sz (pages_upto 0 sz))"

text \<open>The loop over the program headers; the first argument is the number of headers left, \<open>None\<close> is \<open>goto bad\<close>.\<close>

fun load_segments :: "nat \<Rightarrow> (nat \<Rightarrow> 'a fsys_scheme devsw) \<Rightarrow> nat \<Rightarrow> uint \<Rightarrow> uint \<Rightarrow> uint \<Rightarrow> ('a fsys_scheme, uint option) kern" where
  "load_segments 0 dv ip pgdir off sz = kret (Some sz)"
| "load_segments (Suc k) dv ip pgdir off sz =
     kbind (readi dv ip off (of_nat PROGHDR)) (\<lambda>(r, bs).
     if r \<noteq> int PROGHDR then kret None else
     let ph = dec_proghdr bs in
     if ph_type ph \<noteq> ELF_PROG_LOAD then load_segments k dv ip pgdir (off + of_nat PROGHDR) sz
     else if ph_memsz ph < ph_filesz ph then kret None
     else if ph_vaddr ph + ph_memsz ph < ph_vaddr ph then kret None
     else
       kbind (allocuvm pgdir sz (ph_vaddr ph + ph_memsz ph)) (\<lambda>sz.
       if sz = 0 then kret None
       else if ph_vaddr ph mod PGSIZE \<noteq> 0 then kret None
       else
         kbind (loaduvm dv pgdir (ph_vaddr ph) ip (ph_off ph) (ph_filesz ph)) (\<lambda>r.
         if r < 0 then kret None else load_segments k dv ip pgdir (off + of_nat PROGHDR) sz)))"

text \<open>The loop that pushes the argument strings; the result is \<open>argc\<close>, \<open>sp\<close> and \<open>ustack[3..]\<close>.\<close>

fun push_args :: "uint \<Rightarrow> uchar list list \<Rightarrow> nat \<Rightarrow> uint \<Rightarrow> uint list \<Rightarrow> ('a fsys_scheme, (nat \<times> uint \<times> uint list) option) kern" where
  "push_args pgdir [] argc sp ust = kret (Some (argc, sp, ust))"
| "push_args pgdir (a # as) argc sp ust =
     (if argc \<ge> MAXARG then kret None else
      let sp = and (sp - (of_nat (length a) + 1)) (not 3) in
      kbind (copyout pgdir sp (a @ [0])) (\<lambda>r.
      if r < 0 then kret None else push_args pgdir as (Suc argc) sp (ust @ [sp])))"

definition words_bytes :: "uint list \<Rightarrow> uchar list" where
  "words_bytes ws = concat (map (\<lambda>w. put32 (replicate 4 0) 0 w) ws)"

text \<open>The last element of a path.\<close>

definition last_elem :: "uchar list \<Rightarrow> uchar list" where
  "last_elem path = rev (takeWhile (\<lambda>c. c \<noteq> slash) (rev (cstr_of path)))"

definition exec_bad :: "uint \<Rightarrow> nat option \<Rightarrow> ('a fsys_scheme, int) kern" where
  "exec_bad pgdir ip =
     kthen (if pgdir \<noteq> 0 then freevm pgdir else kret ())
     (kthen (case ip of Some i \<Rightarrow> kthen (iunlockput i) end_op | None \<Rightarrow> kret ())
     (kret (- 1)))"

text \<open>From \<open>ip = 0\<close> on: the stack, the arguments and the switch to the new image.\<close>

definition exec_commit :: "uchar list \<Rightarrow> uint \<Rightarrow> uint \<Rightarrow> uint \<Rightarrow> uint \<Rightarrow> ('a fsys_scheme, int) kern" where
  "exec_commit path pgdir sz entry sp =
     kbind (kget (\<lambda>s. p_pgdir (myproc s))) (\<lambda>oldpgdir.
     kthen (kmod (\<lambda>s. upd_proc (curproc s) (\<lambda>x. x\<lparr>p_name := safe_copy (last_elem path) 16, p_pgdir := pgdir, p_sz := sz,
       p_tf := (p_tf x)\<lparr>tf_eip := entry, tf_esp := sp\<rparr>\<rparr>) s))
     (kthen (kbind (kget curproc) switchuvm)
     (kthen (freevm oldpgdir)
     (kret 0))))"

definition exec_stack :: "uchar list \<Rightarrow> uchar list list \<Rightarrow> uint \<Rightarrow> uint \<Rightarrow> uint \<Rightarrow> ('a fsys_scheme, int) kern" where
  "exec_stack path argv entry pgdir sz =
     (let sz = PGROUNDUP sz in
      kbind (allocuvm pgdir sz (sz + 2 * PGSIZE)) (\<lambda>sz.
      if sz = 0 then exec_bad pgdir None else
      kthen (clearpteu pgdir (sz - 2 * PGSIZE))
      (kbind (push_args pgdir argv 0 sz []) (\<lambda>r.
      case r of None \<Rightarrow> exec_bad pgdir None | Some (argc, sp, ust) \<Rightarrow>
      let ustack = [0xFFFFFFFF, of_nat argc, sp - (of_nat argc + 1) * 4] @ ust @ [0];
          sp = sp - (3 + of_nat argc + 1) * 4 in
      kbind (copyout pgdir sp (words_bytes ustack)) (\<lambda>r.
      if r < 0 then exec_bad pgdir None else exec_commit path pgdir sz entry sp)))))"

definition exec :: "(nat \<Rightarrow> 'a con_scheme devsw) \<Rightarrow> uint \<Rightarrow> uchar list \<Rightarrow> uchar list list \<Rightarrow> ('a con_scheme, int) kern" where
  "exec dv data path argv =
     kthen begin_op
     (kbind (namei dv path) (\<lambda>r.
     case r of None \<Rightarrow> kthen end_op (kthen (cprintf (''exec: fail'' @ [CHR 0x0A]) []) (kret (- 1))) | Some ip \<Rightarrow>
     kthen (ilock ip)
     (kbind (readi dv ip 0 (of_nat ELFHDR)) (\<lambda>(r, bs).
     let elf = dec_elfhdr bs in
     if r \<noteq> int ELFHDR then exec_bad 0 (Some ip)
     else if elf_magic elf \<noteq> ELF_MAGIC then exec_bad 0 (Some ip)
     else
       kbind (setupkvm data) (\<lambda>pgdir.
       if pgdir = 0 then exec_bad 0 (Some ip) else
       kbind (load_segments (unat (elf_phnum elf)) dv ip pgdir (elf_phoff elf) 0) (\<lambda>r.
       case r of None \<Rightarrow> exec_bad pgdir (Some ip) | Some sz \<Rightarrow>
       kthen (iunlockput ip)
       (kthen end_op
       (exec_stack path argv (elf_entry elf) pgdir sz))))))))"

end
