(* ===== verification/Trap.thy ===== *)
theory Trap
  imports Exec
begin

text \<open>
  Processes and traps: \<open>userinit\<close>, \<open>fork\<close>, \<open>exit\<close> and \<open>forkret\<close> of \<open>proc.c\<close> with the files and the memory they
  touch, the system calls of \<open>sysproc.c\<close>, the table and the dispatcher of \<open>syscall.c\<close> and \<open>trap\<close>.  A call that leaves the CPU
  through \<open>swtch\<close> does not return in the usual way: \<open>Gone\<close> is a process that has exited, \<open>Later k\<close> one that
  continues with \<open>k\<close> when the scheduler runs it again.  What the hardware delivers with a trap is a record of its own.
\<close>

section \<open>Definitions\<close>

record kst = con +
  forkret_first :: bool

record hw =
  hw_cpuid :: nat
  hw_idle :: bool
  hw_cr2 :: uint
  hw_kbd :: "uchar list"
  hw_rx :: "uchar list"
  hw_trace :: "nat \<Rightarrow> uint list"

subsection \<open>Switching away\<close>

datatype ('s, 'a) ctl = Ret 'a | Gone | Later "'s \<Rightarrow> stop + ('s, 'a) ctl \<times> 's"

primrec cbind :: "('s, 'a) ctl \<Rightarrow> ('a \<Rightarrow> ('s, ('s, 'b) ctl) kern) \<Rightarrow> ('s, ('s, 'b) ctl) kern" where
  "cbind (Ret a) f = f a"
| "cbind Gone f = kret Gone"
| "cbind (Later k) f = kret (Later (\<lambda>s. case map_sum id (map_prod (\<lambda>c. cbind c f) id) (k s) of
     Inl e \<Rightarrow> Inl e | Inr (m, t) \<Rightarrow> m t))"

definition ret :: "('s, 'a) kern \<Rightarrow> ('s, ('s, 'a) ctl) kern" where
  "ret m = kbind m (\<lambda>a. kret (Ret a))"

subsection \<open>proc.c\<close>

definition set_ofile_of :: "nat \<Rightarrow> nat \<Rightarrow> nat option \<Rightarrow> 'a ktab_scheme \<Rightarrow> 'a ktab_scheme" where
  "set_ofile_of p fd f = upd_proc p (\<lambda>x. x\<lparr>p_ofile := (p_ofile x)[fd := f]\<rparr>)"

text \<open>\<open>initcode\<close> is the image the linker includes, \<open>data\<close> the linker symbol.\<close>

definition userinit :: "(nat \<Rightarrow> 'a fsys_scheme devsw) \<Rightarrow> uint \<Rightarrow> uchar list \<Rightarrow> ('a fsys_scheme, unit) kern" where
  "userinit dv data initcode =
     kbind allocproc (\<lambda>r.
     case r of None \<Rightarrow> kundef ''p->pgdir'' | Some p \<Rightarrow>
     kthen (kmod (\<lambda>s. s\<lparr>initproc := Some p\<rparr>))
     (kbind (setupkvm data) (\<lambda>pgdir.
     kthen (kmod (upd_proc p (\<lambda>x. x\<lparr>p_pgdir := pgdir\<rparr>)))
     (if pgdir = 0 then kpanic ''userinit: out of memory?'' else
     kthen (inituvm pgdir initcode)
     (kthen (kmod (\<lambda>s. upd_proc p (\<lambda>x. x\<lparr>p_sz := PGSIZE,
        p_tf := \<lparr>tf_edi = 0, tf_esi = 0, tf_ebp = 0, tf_oesp = 0, tf_ebx = 0, tf_edx = 0, tf_ecx = 0, tf_eax = 0, tf_gs = 0, tf_fs = 0,
          tf_es = 0x23, tf_ds = 0x23, tf_trapno = 0, tf_err = 0, tf_eip = 0, tf_cs = 0x1B, tf_eflags = 0x200, tf_esp = PGSIZE, tf_ss = 0x23\<rparr>,
        p_name := safe_copy (chars ''initcode'') 16\<rparr>) s))
     (kbind (namei dv [slash]) (\<lambda>cwd.
     kthen (kmod (\<lambda>s. upd_proc p (\<lambda>x. x\<lparr>p_cwd := cwd, ticksAtStart := sint (ticks s), ticksScheduled := 0\<rparr>) s))
     (kthen lock_ptable
     (kthen (kmod (upd_proc p (\<lambda>x. x\<lparr>p_state := RUNNABLE\<rparr>)))
     unlock_ptable)))))))))"

definition fork :: "uint \<Rightarrow> ('a fsys_scheme, int) kern" where
  "fork data =
     kbind allocproc (\<lambda>r.
     case r of None \<Rightarrow> kret (- 1) | Some np \<Rightarrow>
     kbind (kget myproc) (\<lambda>cur.
     kbind (copyuvm data (p_pgdir cur) (p_sz cur)) (\<lambda>d.
     kthen (kmod (upd_proc np (\<lambda>x. x\<lparr>p_pgdir := d\<rparr>)))
     (if d = 0 then
        kthen (kbind (kget (\<lambda>s. p_kstack (ptable s np))) kfree)
        (kthen (kmod (upd_proc np (\<lambda>x. x\<lparr>p_kstack := 0, p_state := UNUSED\<rparr>)))
        (kret (- 1)))
      else
        kthen (fork_copy np)
        (kthen (kfor [0..<NOFILE] (\<lambda>i.
           kbind (kget (\<lambda>s. p_ofile (myproc s) ! i)) (\<lambda>r.
           case r of None \<Rightarrow> kret () | Some f \<Rightarrow> kbind (filedup f) (\<lambda>f. kmod (set_ofile_of np i (Some f))))))
        (kbind (kbind (kget (\<lambda>s. p_cwd (myproc s))) (\<lambda>c. kbind (inode_of c) idup)) (\<lambda>ip.
        kthen (kmod (\<lambda>s. upd_proc np (\<lambda>x. x\<lparr>p_cwd := Some ip, p_name := safe_copy (p_name (myproc s)) 16\<rparr>) s))
        (kbind (kget (\<lambda>s. p_pid (ptable s np))) (\<lambda>pid.
        kthen (fork_publish np)
        (kret pid))))))))))"

text \<open>\<open>exit\<close> ends in \<open>sched\<close> and does not come back.\<close>

definition exit :: "('a fsys_scheme, unit) kern" where
  "exit =
     kbind (kget (\<lambda>s. initproc s = Some (curproc s))) (\<lambda>isinit.
     if isinit then kpanic ''init exiting'' else
     kthen (kfor [0..<NOFILE] (\<lambda>fd.
       kbind (kget (\<lambda>s. p_ofile (myproc s) ! fd)) (\<lambda>r.
       case r of None \<Rightarrow> kret () | Some f \<Rightarrow> kthen (fileclose f) (kmod (set_ofile fd None)))))
     (kthen begin_op
     (kthen (kbind (kget (\<lambda>s. p_cwd (myproc s))) (\<lambda>c. kbind (inode_of c) iput))
     (kthen end_op
     (kthen (kmod (\<lambda>s. upd_proc (curproc s) (\<lambda>x. x\<lparr>p_cwd := None\<rparr>) s))
     exit_locked)))))"

definition exit_ctl :: "('a fsys_scheme, ('a fsys_scheme, 'b) ctl) kern" where
  "exit_ctl = kthen exit (kret Gone)"

text \<open>\<open>yield\<close>: the part behind \<open>sched\<close> runs when the process is scheduled again.\<close>

definition yield_ctl :: "('a ktab_scheme, ('a ktab_scheme, unit) ctl) kern" where
  "yield_ctl = kthen yield (kret (Later (ret unlock_ptable)))"

definition forkret :: "('a kst_scheme, unit) kern" where
  "forkret =
     kthen unlock_ptable
     (kbind (kget forkret_first) (\<lambda>first.
     if first then
       kthen (kmod (\<lambda>s. s\<lparr>forkret_first := False\<rparr>))
       (kthen (iinit ROOTDEV)
       (initlog ROOTDEV))
     else kret ()))"

subsection \<open>sysproc.c\<close>

definition sys_fork :: "uint \<Rightarrow> ('a fsys_scheme, int) kern" where
  "sys_fork data = fork data"

definition sys_exit :: "('a fsys_scheme, ('a fsys_scheme, int) ctl) kern" where
  "sys_exit = exit_ctl"

definition sys_wait :: "('a ktab_scheme, int) kern" where
  "sys_wait = wait"

definition sys_kill :: "('a fsys_scheme, int) kern" where
  "sys_kill = kbind (argint 0) (\<lambda>r. case r of None \<Rightarrow> kret (- 1) | Some pid \<Rightarrow> kill (sint pid))"

definition sys_getpid :: "('a ktab_scheme, int) kern" where
  "sys_getpid = kget (\<lambda>s. p_pid (myproc s))"

definition sys_sbrk :: "('a fsys_scheme, int) kern" where
  "sys_sbrk =
     kbind (argint 0) (\<lambda>r.
     case r of None \<Rightarrow> kret (- 1) | Some n \<Rightarrow>
     kbind (kget (\<lambda>s. p_sz (myproc s))) (\<lambda>addr.
     kbind (growproc (sint n)) (\<lambda>g.
     kret (if g < 0 then - 1 else sint addr))))"

text \<open>The loop of \<open>sys_sleep\<close>, entered with \<open>ticks0\<close> and again whenever the process is woken; the comparison is
  between unsigned numbers.\<close>

definition sleep_loop :: "uint \<Rightarrow> uint \<Rightarrow> ('a ktab_scheme, int) kern" where
  "sleep_loop ticks0 n =
     kbind (kget (\<lambda>s. (ticks s - ticks0 < n, p_killed (myproc s)))) (\<lambda>(more, kd).
     if more then if kd then kret (- 1) else ksleep ''ticks'' else kret 0)"

definition sys_sleep :: "('a fsys_scheme, int) kern" where
  "sys_sleep =
     kbind (argint 0) (\<lambda>r.
     case r of None \<Rightarrow> kret (- 1) | Some n \<Rightarrow>
     kbind (kget ticks) (\<lambda>ticks0. sleep_loop ticks0 n))"

definition sys_uptime :: "('a ktab_scheme, int) kern" where
  "sys_uptime = kget (\<lambda>s. sint (ticks s))"

definition sys_yield :: "('a ktab_scheme, ('a ktab_scheme, int) ctl) kern" where
  "sys_yield = kbind yield_ctl (\<lambda>c. cbind c (\<lambda>_. kret (Ret 0)))"

text \<open>\<open>shutdown\<close> writes to a port of the emulator; if it does not stop the machine, the call returns.\<close>

definition sys_shutdown :: "('s, int) kern" where
  "sys_shutdown = kret 0"

text \<open>\<open>struct procInfo\<close> in user memory: three words and the name with its NUL; the rest of the name is kept.\<close>

definition state_num :: "procstate \<Rightarrow> uint" where
  "state_num st = (case st of UNUSED \<Rightarrow> 0 | EMBRYO \<Rightarrow> 1 | SLEEPING \<Rightarrow> 2 | RUNNABLE \<Rightarrow> 3 | RUNNING \<Rightarrow> 4 | ZOMBIE \<Rightarrow> 5)"

definition put_info :: "uint \<Rightarrow> procInfo \<Rightarrow> ('a ktab_scheme, unit) kern" where
  "put_info a x =
     kthen (set_ubytes (a + 12) (pi_name x @ [0]))
     (kthen (set_uword (a + 4) (of_int (pi_pid x)))
     (kthen (set_uword a (state_num (pi_state x)))
     (set_uword (a + 8) (of_int (pi_cpuPercent x)))))"

definition sys_ps :: "('a fsys_scheme, int) kern" where
  "sys_ps =
     kbind (argint 0) (\<lambda>r.
     case r of None \<Rightarrow> kret (- 1) | Some numberOfProcs \<Rightarrow>
     kbind (argptr 1 4) (\<lambda>r.
     case r of None \<Rightarrow> kret (- 1) | Some a \<Rightarrow>
     kbind (proc_ps (sint numberOfProcs)) (\<lambda>(n, infos).
     kthen (kfor (zip [0..<length infos] infos) (\<lambda>(i, x). put_info (a + 28 * of_nat i) x))
     (kret n))))"

text \<open>\<open>sys_nice\<close> has a parameter that nobody passes: \<open>pid\<close> and \<open>priority\<close> are what the memory holds that the word
  in its place points to; \<open>beyond\<close> as for \<open>proc_nice\<close>.\<close>

definition sys_nice :: "int \<Rightarrow> int \<Rightarrow> int \<Rightarrow> ('a ktab_scheme, int) kern" where
  "sys_nice beyond pid priority = kthen (proc_nice beyond pid priority) (kret 0)"

subsection \<open>syscall.c\<close>

definition syscalls :: "(nat \<Rightarrow> 'a con_scheme devsw) \<Rightarrow> uint \<Rightarrow> int \<times> int \<times> int \<Rightarrow> nat \<Rightarrow>
    ('a con_scheme, ('a con_scheme, int) ctl) kern option" where
  "syscalls dv data nice_args num =
     (if num = 1 then Some (ret (sys_fork data))
      else if num = 2 then Some sys_exit
      else if num = 3 then Some (ret sys_wait)
      else if num = 4 then Some (ret sys_pipe)
      else if num = 5 then Some (ret (sys_read dv))
      else if num = 6 then Some (ret sys_kill)
      else if num = 7 then Some (ret (sys_exec (exec dv data)))
      else if num = 8 then Some (ret sys_fstat)
      else if num = 9 then Some (ret (sys_chdir dv))
      else if num = 10 then Some (ret sys_dup)
      else if num = 11 then Some (ret sys_getpid)
      else if num = 12 then Some (ret sys_sbrk)
      else if num = 13 then Some (ret sys_sleep)
      else if num = 14 then Some (ret sys_uptime)
      else if num = 15 then Some (ret (sys_open dv))
      else if num = 16 then Some (ret (sys_write dv))
      else if num = 17 then Some (ret (sys_mknod dv))
      else if num = 18 then Some (ret (sys_unlink dv))
      else if num = 19 then Some (ret (sys_link dv))
      else if num = 20 then Some (ret (sys_mkdir dv))
      else if num = 21 then Some (ret sys_close)
      else if num = 22 then Some sys_yield
      else if num = 23 then Some (ret sys_shutdown)
      else if num = 24 then Some (ret sys_ps)
      else if num = 25 then Some (ret sys_flock)
      else if num = 26 then Some (ret sys_funlock)
      else if num = 27 then Some (ret (case nice_args of (b, p, q) \<Rightarrow> sys_nice b p q))
      else None)"

definition set_eax :: "int \<Rightarrow> 'a ktab_scheme \<Rightarrow> 'a ktab_scheme" where
  "set_eax v s = upd_proc (curproc s) (\<lambda>x. x\<lparr>p_tf := (p_tf x)\<lparr>tf_eax := of_int v\<rparr>\<rparr>) s"

definition syscall :: "(nat \<Rightarrow> 'a con_scheme devsw) \<Rightarrow> uint \<Rightarrow> int \<times> int \<times> int \<Rightarrow> ('a con_scheme, ('a con_scheme, unit) ctl) kern" where
  "syscall dv data nice_args =
     kbind (kget myproc) (\<lambda>x.
     let num = sint (tf_eax (p_tf x)) in
     case (if num > 0 \<and> num < 28 then syscalls dv data nice_args (nat num) else None) of
       Some handler \<Rightarrow> kbind handler (\<lambda>c. cbind c (\<lambda>v. ret (kmod (set_eax v))))
     | None \<Rightarrow>
         kthen (cprintf (''%d %s: unknown sys call %d'' @ [CHR 0x0A]) [AInt (of_int (p_pid x)), AStr (Some (p_name x)), AInt (of_int num)])
         (ret (kmod (set_eax (- 1)))))"

subsection \<open>trap.c\<close>

definition T_SYSCALL :: uint where "T_SYSCALL = 64"

definition T_IRQ0 :: uint where "T_IRQ0 = 32"

definition IRQ_TIMER :: uint where "IRQ_TIMER = 0"

definition IRQ_KBD :: uint where "IRQ_KBD = 1"

definition IRQ_COM1 :: uint where "IRQ_COM1 = 4"

definition IRQ_IDE :: uint where "IRQ_IDE = 14"

definition IRQ_SPURIOUS :: uint where "IRQ_SPURIOUS = 31"

lemmas trap_numbers = T_SYSCALL_def T_IRQ0_def IRQ_TIMER_def IRQ_KBD_def IRQ_COM1_def IRQ_IDE_def IRQ_SPURIOUS_def

text \<open>\<open>if(killed) exit();\<close> for a process that is killed, otherwise go on with \<open>m\<close>.\<close>

definition exit_if_killed :: "('a fsys_scheme \<Rightarrow> bool) \<Rightarrow> ('a fsys_scheme, ('a fsys_scheme, 'b) ctl) kern \<Rightarrow>
    ('a fsys_scheme, ('a fsys_scheme, 'b) ctl) kern" where
  "exit_if_killed cond m = kbind (kget cond) (\<lambda>b. if b then exit_ctl else m)"

definition trap_syscall :: "(nat \<Rightarrow> 'a con_scheme devsw) \<Rightarrow> uint \<Rightarrow> int \<times> int \<times> int \<Rightarrow> trapframe \<Rightarrow>
    ('a con_scheme, ('a con_scheme, unit) ctl) kern" where
  "trap_syscall dv data nice_args tf =
     exit_if_killed (\<lambda>s. p_killed (myproc s))
     (kthen (kmod (\<lambda>s. upd_proc (curproc s) (\<lambda>x. x\<lparr>p_tf := tf\<rparr>) s))
     (kbind (syscall dv data nice_args) (\<lambda>c. cbind c (\<lambda>_.
     exit_if_killed (\<lambda>s. p_killed (myproc s)) (kret (Ret ()))))))"

text \<open>The \<open>switch\<close>; \<open>ideintr\<close> of the memory disk does nothing, and neither does \<open>lapiceoi\<close> here.\<close>

definition trap_dispatch :: "hw \<Rightarrow> trapframe \<Rightarrow> ('a con_scheme, unit) kern" where
  "trap_dispatch h tf =
     (let no = tf_trapno tf in
      if no = T_IRQ0 + IRQ_TIMER then
        if hw_cpuid h = 0 then kthen (kmod (\<lambda>s. s\<lparr>ticks := ticks s + 1\<rparr>)) (wakeup OnTicks) else kret ()
      else if no = T_IRQ0 + IRQ_IDE \<or> no = T_IRQ0 + IRQ_IDE + 1 then kret ()
      else if no = T_IRQ0 + IRQ_KBD then kbdintr (hw_trace h) (hw_kbd h)
      else if no = T_IRQ0 + IRQ_COM1 then uartintr (hw_trace h) (hw_rx h)
      else if no = T_IRQ0 + 7 \<or> no = T_IRQ0 + IRQ_SPURIOUS then
        cprintf (''cpu%d: spurious interrupt at %x:%x'' @ [CHR 0x0A]) [AInt (of_nat (hw_cpuid h)), AInt (ucast (tf_cs tf)), AInt (tf_eip tf)]
      else if hw_idle h \<or> and (tf_cs tf) 3 = 0 then
        kthen (cprintf (''unexpected trap %d from cpu %d eip %x (cr2=0x%x)'' @ [CHR 0x0A])
          [AInt no, AInt (of_nat (hw_cpuid h)), AInt (tf_eip tf), AInt (hw_cr2 h)])
        (kpanic ''trap'')
      else
        kbind (kget myproc) (\<lambda>x.
        kthen (cprintf (''pid %d %s: trap %d err %d on cpu %d eip 0x%x addr 0x%x--kill proc'' @ [CHR 0x0A])
          [AInt (of_int (p_pid x)), AStr (Some (p_name x)), AInt no, AInt (tf_err tf), AInt (of_nat (hw_cpuid h)),
           AInt (tf_eip tf), AInt (hw_cr2 h)])
        (kmod (\<lambda>s. upd_proc (curproc s) (\<lambda>x. x\<lparr>p_killed := True\<rparr>) s))))"

definition trap :: "(nat \<Rightarrow> 'a con_scheme devsw) \<Rightarrow> uint \<Rightarrow> int \<times> int \<times> int \<Rightarrow> hw \<Rightarrow> trapframe \<Rightarrow>
    ('a con_scheme, ('a con_scheme, unit) ctl) kern" where
  "trap dv data nice_args h tf =
     (if tf_trapno tf = T_SYSCALL then trap_syscall dv data nice_args tf
      else
        let dead = (\<lambda>s. \<not> hw_idle h \<and> p_killed (myproc s) \<and> and (tf_cs tf) 3 = 3) in
        kthen (trap_dispatch h tf)
        (exit_if_killed dead
        (kbind (kget (\<lambda>s. \<not> hw_idle h \<and> p_state (myproc s) = RUNNING \<and> tf_trapno tf = T_IRQ0 + IRQ_TIMER)) (\<lambda>y.
        kbind (if y then yield_ctl else kret (Ret ())) (\<lambda>c. cbind c (\<lambda>_.
        exit_if_killed dead (kret (Ret ()))))))))"

section \<open>Lemmas\<close>

text \<open>\<open>ends P c s\<close>: however the process is scheduled from \<open>s\<close> on, if it returns it does so in a state satisfying \<open>P\<close>.\<close>

inductive ends :: "('s \<Rightarrow> bool) \<Rightarrow> ('s, 'a) ctl \<Rightarrow> 's \<Rightarrow> bool" for P where
  ends_ret: "P s \<Longrightarrow> ends P (Ret a) s"
| ends_gone: "ends P Gone s"
| ends_later: "(\<And>s c t. k s = Inr (c, t) \<Longrightarrow> ends P c t) \<Longrightarrow> ends P (Later k) u"

inductive_simps ends_simps [simp]: "ends P (Ret a) s" "ends P Gone s" "ends P (Later k) s"

lemma cbind_Later_Inr:
  "(case map_sum id (map_prod (\<lambda>c. cbind c f) id) r of Inl e \<Rightarrow> Inl e | Inr (m, t) \<Rightarrow> m t) = Inr (d, u)
     \<longleftrightarrow> (\<exists>c t. r = Inr (c, t) \<and> cbind c f t = Inr (d, u))"
  by (cases r) auto

lemma ends_cbind:
  assumes f: "\<And>a s d u. f a s = Inr (d, u) \<Longrightarrow> ends P d u"
  shows "cbind c f s = Inr (d, u) \<Longrightarrow> ends P d u"
proof (induction c arbitrary: s d u)
  case (Ret a)
  then show ?case using f by simp
next
  case Gone
  then show ?case by (auto simp: kmonad_simps)
next
  case (Later k)
  then have d: "d = Later (\<lambda>s. case map_sum id (map_prod (\<lambda>c. cbind c f) id) (k s) of Inl e \<Rightarrow> Inl e | Inr (m, t) \<Rightarrow> m t)" "u = s"
    by (simp_all add: kmonad_simps)
  show ?case unfolding d(1) ends_simps
  proof (intro allI impI)
    fix s' c' t'
    assume "(case map_sum id (map_prod (\<lambda>c. cbind c f) id) (k s') of Inl e \<Rightarrow> Inl e | Inr (m, t) \<Rightarrow> m t) = Inr (c', t')"
    then obtain c t where c: "k s' = Inr (c, t)" "cbind c f t = Inr (c', t')" unfolding cbind_Later_Inr by blast
    have "Inr (c, t) \<in> range k" using c(1) by (metis rangeI)
    then show "ends P c' t'" using Later.IH [of "Inr (c, t)" "(c, t)" c] c(2) by simp
  qed
qed

lemma ends_exit: "exit_ctl s = Inr (c, t) \<Longrightarrow> ends P c t"
  by (auto simp: exit_ctl_def kthen_eq_Inr kmonad_simps)

lemma ends_exit_if:
  assumes "exit_if_killed cond m s = Inr (c, t)" "\<And>s c t. \<not> cond s \<Longrightarrow> m s = Inr (c, t) \<Longrightarrow> ends P c t"
  shows "ends P c t"
  using assms by (auto simp: exit_if_killed_def kbind_eq_Inr kget_def ends_exit split: if_splits)

section \<open>Properties\<close>



end
