(* ===== verification/Grep.thy ===== *)
theory Grep
  imports Prelude
begin

text \<open>
  The user program \<open>grep\<close> (\<open>grep.c\<close>): the backtracking matcher for \<open>^ . * $\<close> and the loop that cuts the input into
  lines.  A C string is the list of its bytes before the NUL.  A call of \<open>read\<close> returns at most as many bytes as it is
  asked for and may return fewer: the sizes the calls offer are an argument of the loop.
\<close>

section \<open>Definitions\<close>

subsection \<open>The matcher\<close>

fun matchhere :: "uchar list \<Rightarrow> uchar list \<Rightarrow> bool" and matchstar :: "uchar \<Rightarrow> uchar list \<Rightarrow> uchar list \<Rightarrow> bool" where
  "matchhere [] str = True"
| "matchhere [c] str =
     (if c = 36 then str = []
      else case str of [] \<Rightarrow> False | t # ts \<Rightarrow> (c = 46 \<or> c = t) \<and> matchhere [] ts)"
| "matchhere (c # d # re) str =
     (if d = 42 then matchstar c re str
      else case str of [] \<Rightarrow> False | t # ts \<Rightarrow> (c = 46 \<or> c = t) \<and> matchhere (d # re) ts)"
| "matchstar c re [] = matchhere re []"
| "matchstar c re (t # ts) = (matchhere re (t # ts) \<or> (t = c \<or> c = 46) \<and> matchstar c re ts)"

text \<open>The \<open>do\<close> loop of \<open>match\<close>.\<close>

fun match_loop :: "uchar list \<Rightarrow> uchar list \<Rightarrow> bool" where
  "match_loop re [] = matchhere re []"
| "match_loop re (t # ts) = (matchhere re (t # ts) \<or> match_loop re ts)"

definition match :: "uchar list \<Rightarrow> uchar list \<Rightarrow> bool" where
  "match re str = (case re of c # re' \<Rightarrow> if c = 94 then matchhere re' str else match_loop re str | [] \<Rightarrow> match_loop re str)"

subsection \<open>The line loop\<close>

definition BUF :: nat where "BUF = 1024"

text \<open>The inner loop: what is written for the complete lines in the buffer, and the bytes from \<open>p\<close> on.  \<open>strchr\<close> does not
  look behind a NUL byte.\<close>

function grep_lines :: "uchar list \<Rightarrow> uchar list \<Rightarrow> uchar list \<times> uchar list" where
  "grep_lines pattern p =
     (let l = takeWhile (\<lambda>c. c \<noteq> 10 \<and> c \<noteq> 0) p in
      case drop (length l) p of
        [] \<Rightarrow> ([], p)
      | q # rest \<Rightarrow>
          if q \<noteq> 10 then ([], p)
          else let (out, p') = grep_lines pattern rest in (if match pattern l then l @ q # out else out, p'))"
  by pat_completeness auto
termination
proof (relation "measure (length \<circ> snd)")
  fix p rest :: "uchar list" and l q
  assume "drop (length l) p = q # rest"
  then have "length (drop (length l) p) = Suc (length rest)" by simp
  then show "((pattern, rest), pattern, p) \<in> measure (length \<circ> snd)" for pattern :: "uchar list" by simp
qed simp

declare grep_lines.simps [simp del]

text \<open>One round of the outer loop on the \<open>m\<close> bytes in the buffer: if no line was complete, \<open>m\<close> is set to 0.\<close>

definition grep_round :: "uchar list \<Rightarrow> uchar list \<Rightarrow> uchar list \<times> uchar list" where
  "grep_round pattern data = (let (out, p) = grep_lines pattern data in (out, if length p = length data then [] else p))"

fun grep :: "uchar list \<Rightarrow> uchar list \<Rightarrow> nat list \<Rightarrow> uchar list \<Rightarrow> uchar list" where
  "grep pattern held [] input = []"
| "grep pattern held (n # ns) input =
     (let chunk = take (min n (BUF - length held - 1)) input in
      if chunk = [] then []
      else let (out, held') = grep_round pattern (held @ chunk)
        in out @ grep pattern held' ns (drop (length chunk) input))"

section \<open>The reference semantics of a pattern\<close>

datatype item = One uchar | Rep uchar | Eol

fun items :: "uchar list \<Rightarrow> item list" where
  "items [] = []"
| "items [c] = (if c = 36 then [Eol] else [One c])"
| "items (c # d # re) = (if d = 42 then Rep c # items re else One c # items (d # re))"

definition sat :: "uchar \<Rightarrow> uchar \<Rightarrow> bool" where
  "sat c t \<longleftrightarrow> c = 46 \<or> c = t"

text \<open>\<open>denotes is u v\<close>: the items match the text \<open>u\<close> when \<open>v\<close> follows it.\<close>

inductive denotes :: "item list \<Rightarrow> uchar list \<Rightarrow> uchar list \<Rightarrow> bool" where
  denotes_nil: "denotes [] [] v"
| denotes_one: "sat c t \<Longrightarrow> denotes is u v \<Longrightarrow> denotes (One c # is) (t # u) v"
| denotes_rep: "list_all (sat c) w \<Longrightarrow> denotes is u v \<Longrightarrow> denotes (Rep c # is) (w @ u) v"
| denotes_eol: "denotes [Eol] [] []"

inductive_simps denotes_simps [simp]: "denotes [] u v" "denotes (One c # is) u v" "denotes [Eol] u v"

inductive_cases denotes_repE: "denotes (Rep c # is) u v"

section \<open>Lemmas\<close>

lemma rep_unfold:
  "(\<exists>u v. x = u @ v \<and> denotes (Rep c # is) u v) \<longleftrightarrow>
     (\<exists>u v. x = u @ v \<and> denotes is u v) \<or>
     (\<exists>t ts. x = t # ts \<and> sat c t \<and> (\<exists>u v. ts = u @ v \<and> denotes (Rep c # is) u v))" (is "?L x \<longleftrightarrow> ?A x \<or> ?B x")
proof
  assume "?L x"
  then obtain w u v where x: "x = w @ u @ v" "list_all (sat c) w" "denotes is u v" by (auto elim: denotes_repE)
  show "?A x \<or> ?B x"
  proof (cases w)
    case Nil
    then show ?thesis using x by auto
  next
    case (Cons t w')
    then have "denotes (Rep c # is) (w' @ u) v" using x by (auto intro: denotes_rep)
    then show ?thesis using x Cons by auto
  qed
next
  assume "?A x \<or> ?B x"
  then show "?L x"
  proof
    assume "?A x"
    then show "?L x" using denotes_rep [of c "[]"] by fastforce
  next
    assume "?B x"
    then obtain t w u v where x: "x = ((t # w) @ u) @ v" "list_all (sat c) (t # w)" "denotes is u v" by (auto elim: denotes_repE)
    from x(1) denotes_rep [OF x(2,3)] show "?L x" by blast
  qed
qed

lemma one_unfold:
  "(\<exists>u v. x = u @ v \<and> denotes (One c # is) u v) \<longleftrightarrow>
     (\<exists>t ts. x = t # ts \<and> sat c t \<and> (\<exists>u v. ts = u @ v \<and> denotes is u v))" (is "?L \<longleftrightarrow> ?R")
proof
  assume ?L
  then obtain t u v where "x = t # (u @ v)" "sat c t" "denotes is u v" by auto
  then show ?R by blast
next
  assume ?R
  then obtain t u v where "x = (t # u) @ v" "sat c t" "denotes is u v" by auto
  with denotes_one [of c t "is" u v] show ?L by blast
qed

lemma matcher_correct:
  "matchhere re x \<longleftrightarrow> (\<exists>u v. x = u @ v \<and> denotes (items re) u v)"
  and "matchstar c re x \<longleftrightarrow> (\<exists>u v. x = u @ v \<and> denotes (Rep c # items re) u v)"
proof (induction re x and c re x rule: matchhere_matchstar.induct)
  case (1 str)
  then show ?case by simp
next
  case (2 c str)
  show ?case
  proof (cases "c = 36")
    case True
    then show ?thesis by simp
  next
    case False
    then have i: "items [c] = [One c]" by simp
    show ?thesis unfolding i one_unfold using False by (cases str) (auto simp: sat_def)
  qed
next
  case (3 c d re str)
  show ?case
  proof (cases "d = 42")
    case True
    then show ?thesis using 3 by simp
  next
    case False
    then have i: "items (c # d # re) = One c # items (d # re)" by simp
    show ?thesis unfolding i one_unfold using False 3 by (cases str) (auto simp: sat_def)
  qed
next
  case (4 c re)
  then show ?case by (subst rep_unfold) simp
next
  case (5 c re t ts)
  then show ?case by (subst rep_unfold) (auto simp: sat_def)
qed

lemma match_loop_correct: "match_loop re x \<longleftrightarrow> (\<exists>p y. x = p @ y \<and> matchhere re y)"
proof (induction x)
  case Nil
  then show ?case by simp
next
  case (Cons t ts)
  then show ?case by (auto simp: Cons_eq_append_conv)
qed

lemma match_here_in: "match_loop re x \<longleftrightarrow> (\<exists>p u v. x = p @ u @ v \<and> denotes (items re) u v)"
  unfolding match_loop_correct matcher_correct(1) by blast

text \<open>The lines of a text and the ones that match.\<close>

definition good_line :: "uchar list \<Rightarrow> bool" where
  "good_line l \<longleftrightarrow> 10 \<notin> set l \<and> 0 \<notin> set l \<and> length l + 1 < BUF"

definition unlines :: "uchar list list \<Rightarrow> uchar list" where
  "unlines ls = concat (map (\<lambda>l. l @ [10]) ls)"

lemma unlines_simps [simp]: "unlines [] = []" "unlines (l # ls) = l @ 10 # unlines ls"
  by (simp_all add: unlines_def)

lemma grep_lines_partial:
  assumes "10 \<notin> set p" "0 \<notin> set p"
  shows "grep_lines pattern p = ([], p)"
proof -
  have l: "takeWhile (\<lambda>c. c \<noteq> 10 \<and> c \<noteq> 0) p = p" using assms by (auto simp: takeWhile_eq_all_conv)
  show ?thesis unfolding grep_lines.simps [of pattern p] Let_def l by simp
qed

lemma grep_lines_line:
  assumes "10 \<notin> set l" "0 \<notin> set l"
  shows "grep_lines pattern (l @ 10 # rest) =
    (let (out, p) = grep_lines pattern rest in (if match pattern l then l @ 10 # out else out, p))"
proof -
  have l: "takeWhile (\<lambda>c. c \<noteq> 10 \<and> c \<noteq> 0) (l @ 10 # rest) = l" using assms by (auto simp: takeWhile_append)
  show ?thesis unfolding grep_lines.simps [of pattern "l @ 10 # rest"] Let_def l by simp
qed

lemma grep_lines_unlines:
  assumes "list_all good_line ls" "10 \<notin> set p" "0 \<notin> set p"
  shows "grep_lines pattern (unlines ls @ p) = (unlines (filter (match pattern) ls), p)"
  using assms(1)
proof (induction ls)
  case Nil
  then show ?case using grep_lines_partial [OF assms(2,3)] by simp
next
  case (Cons l ls)
  then show ?case by (simp add: grep_lines_line good_line_def)
qed

text \<open>A buffer filled from a text of good lines holds complete lines and the start of the next one.\<close>

lemma unlines_take:
  assumes "list_all good_line ls" "n \<le> length (unlines ls)"
  shows "\<exists>xs p ys. ls = xs @ ys \<and> take n (unlines ls) = unlines xs @ p \<and> unlines ys = p @ drop n (unlines ls) \<and>
    10 \<notin> set p \<and> 0 \<notin> set p \<and> (xs = [] \<longrightarrow> n < BUF - 1 \<or> ls = [])"
  using assms
proof (induction ls arbitrary: n)
  case Nil
  then show ?case by simp
next
  case (Cons l ls)
  show ?case
  proof (cases "n \<le> length l")
    case True
    then show ?thesis using Cons.prems
      by (intro exI [of _ "[]"] exI [of _ "take n l"] exI [of _ "l # ls"]) (auto simp: good_line_def dest: in_set_takeD)
  next
    case False
    then obtain k where k: "n = Suc (length l) + k" by (metis not_less_eq_eq le_Suc_ex not_le Suc_leI)
    from Cons.IH [of k] Cons.prems k obtain xs p ys where
      "ls = xs @ ys" "take k (unlines ls) = unlines xs @ p" "unlines ys = p @ drop k (unlines ls)" "10 \<notin> set p" "0 \<notin> set p"
      by auto
    then show ?thesis using k
      by (intro exI [of _ "l # xs"] exI [of _ p] exI [of _ ys]) simp
  qed
qed

lemma grep_round_step:
  assumes "list_all good_line ls" "ls \<noteq> []" "held @ input = unlines ls" "BUF - 1 \<le> n" "10 \<notin> set held" "length held < BUF - 1"
  defines "chunk \<equiv> take (min n (BUF - length held - 1)) input"
  shows "\<exists>xs p ys. ls = xs @ ys \<and> xs \<noteq> [] \<and> chunk \<noteq> [] \<and> 10 \<notin> set p \<and> 0 \<notin> set p \<and>
    grep_round pattern (held @ chunk) = (unlines (filter (match pattern) xs), p) \<and> p @ drop (length chunk) input = unlines ys"
proof -
  have "min n (BUF - length held - 1) = BUF - length held - 1" using assms(4) by linarith
  then have c: "chunk = take (BUF - length held - 1) input" by (simp only: chunk_def)
  define N where "N = min (BUF - 1) (length (unlines ls))"
  have len: "length held + length input = length (unlines ls)" using arg_cong [OF assms(3), of length] by simp
  have d: "held @ chunk = take N (unlines ls)" "drop (length chunk) input = drop N (unlines ls)"
    unfolding N_def c assms(3) [symmetric] using assms(6) by (auto simp: min_def)
  have "N \<le> length (unlines ls)" by (simp add: N_def)
  from unlines_take [OF assms(1) this] obtain xs p ys where
    u: "ls = xs @ ys" "take N (unlines ls) = unlines xs @ p" "unlines ys = p @ drop N (unlines ls)" "10 \<notin> set p" "0 \<notin> set p"
      "xs = [] \<longrightarrow> N < BUF - 1 \<or> ls = []" by blast
  have xs: "xs \<noteq> []"
  proof
    assume "xs = []"
    with u(1,6) assms(2) have "N < BUF - 1" "ys = ls" by simp_all
    then have "N = length (unlines ls)" by (auto simp: N_def)
    with u(3) \<open>ys = ls\<close> have "10 \<notin> set (unlines ls)" using u(4) by simp
    then show False using assms(2) by (cases ls) auto
  qed
  have "list_all good_line xs" using assms(1) u(1) by simp
  from grep_lines_unlines [OF this u(4,5)] have g: "grep_lines pattern (held @ chunk) = (unlines (filter (match pattern) xs), p)"
    by (simp add: d(1) u(2))
  have "unlines xs \<noteq> []" using xs by (cases xs) auto
  then have lp: "length p \<noteq> length (held @ chunk)" by (simp add: d(1) u(2))
  have "chunk \<noteq> []"
  proof
    assume "chunk = []"
    then have "held = unlines xs @ p" using d(1) u(2) by simp
    then show False using assms(5) xs by (cases xs) auto
  qed
  moreover have "grep_round pattern (held @ chunk) = (unlines (filter (match pattern) xs), p)"
    using g lp by (simp add: grep_round_def)
  moreover have "p @ drop (length chunk) input = unlines ys" using u(3) d(2) by simp
  ultimately show ?thesis using u(1,4,5) xs by blast
qed

lemma grep_lines_held:
  assumes "list_all good_line ls" "held @ input = unlines ls" "\<forall>n \<in> set ns. BUF - 1 \<le> n" "length ls < length ns"
    "10 \<notin> set held" "length held < BUF - 1"
  shows "grep pattern held ns input = unlines (filter (match pattern) ls)"
  using assms
proof (induction ns arbitrary: ls held input)
  case Nil
  then show ?case by simp
next
  case (Cons n ns)
  show ?case
  proof (cases "ls = []")
    case True
    then show ?thesis using Cons.prems(2) by simp
  next
    case False
    from Cons.prems(3) have "BUF - 1 \<le> n" by simp
    from grep_round_step [OF Cons.prems(1) False Cons.prems(2) this Cons.prems(5,6)] obtain xs p ys where
      s: "ls = xs @ ys" "xs \<noteq> []" "take (min n (BUF - length held - 1)) input \<noteq> []" "10 \<notin> set p"
        "grep_round pattern (held @ take (min n (BUF - length held - 1)) input) = (unlines (filter (match pattern) xs), p)"
        "p @ drop (length (take (min n (BUF - length held - 1)) input)) input = unlines ys" by metis
    have "length p < BUF - 1"
    proof (cases ys)
      case Nil
      then show ?thesis using s(6) by (simp add: BUF_def)
    next
      case (Cons y zs)
      then have y: "good_line y" using Cons.prems(1) s(1) by simp
      have "length p \<le> length y"
      proof (rule ccontr)
        assume "\<not> length p \<le> length y"
        then have "p ! length y = (y @ 10 # unlines zs) ! length y"
          using arg_cong [OF s(6), of "\<lambda>l. l ! length y"] Cons by (simp add: nth_append)
        then show False using s(4) \<open>\<not> length p \<le> length y\<close> nth_mem [of "length y" p] by simp
      qed
      then show ?thesis using y unfolding good_line_def by linarith
    qed
    moreover have "length ys < length ns" using Cons.prems(4) s(1,2) by (cases xs) auto
    ultimately have "grep pattern p ns (drop (length (take (min n (BUF - length held - 1)) input)) input) = unlines (filter (match pattern) ys)"
      using Cons.IH [OF _ s(6)] Cons.prems(1,3) s(1,4) by simp
    then show ?thesis using s(3,5) by (simp add: s(1) unlines_def Let_def del: take_eq_Nil)
  qed
qed

section \<open>Properties\<close>

definition line_matches :: "uchar list \<Rightarrow> uchar list \<Rightarrow> bool" where
  "line_matches re l \<longleftrightarrow> (case re of
     c # re' \<Rightarrow> if c = 94 then \<exists>u v. l = u @ v \<and> denotes (items re') u v else \<exists>p u v. l = p @ u @ v \<and> denotes (items re) u v
   | [] \<Rightarrow> \<exists>p u v. l = p @ u @ v \<and> denotes (items re) u v)"

lemma match_correct: "match re l \<longleftrightarrow> line_matches re l"
  by (simp add: match_def line_matches_def match_here_in matcher_correct(1) split: list.split)

text \<open>C38. On a file whose lines fit into the buffer, \<open>grep\<close> prints exactly the lines the pattern denotes, in order: the
  backtracking matcher agrees with the reference semantics of \<open>^ . * $\<close> on every pattern, and cutting the file into
  buffer loads of 1023 bytes neither loses nor splits a line.\<close>

theorem grep_prints_matches:
  assumes "list_all good_line ls" "\<forall>n \<in> set ns. BUF - 1 \<le> n" "length ls < length ns"
  shows "grep pattern [] ns (unlines ls) = unlines (filter (line_matches pattern) ls)"
proof -
  have "match pattern = line_matches pattern" by (simp add: fun_eq_iff match_correct)
  with grep_lines_held [OF assms(1) _ assms(2,3), of "[]" "unlines ls" pattern] show ?thesis by (simp add: BUF_def)
qed

theorem grep_prints_matches_witness:
  "grep [94, 97, 42, 98] [] [1023, 1023, 1023] [97, 97, 98, 10, 99, 98, 10] = [97, 97, 98, 10]"
proof -
  let ?ls = "[[97, 97, 98], [99, 98]] :: uchar list list"
  have "list_all good_line ?ls" "unlines ?ls = [97, 97, 98, 10, 99, 98, 10]" by (simp_all add: good_line_def BUF_def)
  moreover have "filter (line_matches [94, 97, 42, 98]) ?ls = [[97, 97, 98]]"
    by (simp add: match_correct [symmetric] match_def)
  ultimately show ?thesis using grep_prints_matches [of ?ls "[1023, 1023, 1023]" "[94, 97, 42, 98]"] by (simp add: BUF_def)
qed

text \<open>C39. A short read loses input: when a call of \<open>read\<close> returns the first part of a line without its newline, which a pipe or
  the console may do, \<open>grep\<close> sets \<open>m\<close> to 0 and forgets these bytes, so the rest of the line is matched and printed as if it
  were the whole line.\<close>

theorem grep_short_read_drops:
  assumes "u \<noteq> []" "10 \<notin> set u" "0 \<notin> set u" "length u < BUF"
  shows "grep pattern [] (length u # ns) (u @ v) = grep pattern [] ns v"
  using assms grep_lines_partial [OF assms(2,3), of pattern] by (simp add: grep_round_def Let_def)

theorem grep_short_read_drops_witness:
  "grep [97] [] [1, 9] [97, 98, 10] = [] \<and> grep [97] [] [9] [97, 98, 10] = [97, 98, 10]"
proof -
  have "grep [97] [] [9] [97, 98, 10] = [97, 98, 10]" "grep [97] [] [9] [98, 10] = []"
    using grep_lines_line [of "[97, 98]" "[97]" "[]"] grep_lines_line [of "[98]" "[97]" "[]"] grep_lines_partial [of "[]" "[97]"]
    by (simp_all add: BUF_def grep_round_def match_def)
  then show ?thesis using grep_short_read_drops [of "[97]" "[97]" "[9]" "[98, 10]"] by (simp add: BUF_def)
qed

end
