(* ===== verification/Fsdata.thy ===== *)
theory Fsdata
  imports Fs
begin

text \<open>
  The contents of files.  Over the contracts of the block cache and the log, this theory shows what the
  block allocator and \<open>bmap\<close> do to the disk as a process sees it (\<open>bview\<close>), and with that what \<open>readi\<close> and
  \<open>writei\<close> do to the bytes of a file: \<open>file_byte s x i\<close> is byte \<open>i\<close> of the file of inode \<open>x\<close>, found through
  the direct and the indirect block addresses.  \<open>in_tx s W k\<close> says that a transaction has room in the log for
  the blocks of \<open>W\<close> and \<open>k\<close> more, \<open>laid_out s x nb\<close> that the file has \<open>nb\<close> blocks that are allocated and
  distinct, \<open>disk_ok s\<close> that the areas of the disk do not overlap and the free map covers the front ones.
\<close>

unbundle bit_operations_syntax


section \<open>Blocks through the cache and the log\<close>

lemma fs_frame:
  fixes s t :: "'a fs_scheme"
  assumes "fslog.more t = fslog.more s"
  shows "icache t = icache s" "fs_sb t = fs_sb s"
  using assms by (cases s, cases t, simp)+

text \<open>Reading a block: what the code does between \<open>bread\<close> and \<open>brelse\<close> sees the block's contents,
  and nothing changes.\<close>

definition same_blocks :: "'a bio_scheme \<Rightarrow> 'a bio_scheme \<Rightarrow> bool" where
  "same_blocks s t \<longleftrightarrow> bio_frame s t \<and> bview t = bview s \<and> bpinned t = bpinned s \<and> bheld t = bheld s \<and>
     memdisk t = memdisk s \<and> disk_writes t = disk_writes s \<and> (\<forall>c cn. buf_at s c cn \<longrightarrow> buf_at t c cn)"

lemma same_blocks_refl: "bcache_inv s \<Longrightarrow> same_blocks s s"
  by (simp add: same_blocks_def bio_frame_def)

lemma same_blocks_trans: "same_blocks s t \<Longrightarrow> same_blocks t u \<Longrightarrow> same_blocks s u"
  by (auto simp: same_blocks_def intro: bio_frame_trans)

lemma same_blocksD:
  fixes s t :: "'a fs_scheme"
  assumes "same_blocks s t"
  shows "bcache_inv t" "bview t = bview s" "icache t = icache s" "fs_sb t = fs_sb s" "may_read t bn = may_read s bn"
    "disksize t = disksize s"
proof -
  have f: "bio_frame s t" and e: "bview t = bview s" "bpinned t = bpinned s" "bheld t = bheld s"
    using assms by (auto simp: same_blocks_def)
  note g = frameD [OF f] log_frame [OF frameD(2) [OF f]]
  show "bcache_inv t" "bview t = bview s" "disksize t = disksize s" using g e by simp_all
  show "icache t = icache s" "fs_sb t = fs_sb s" by (rule fs_frame; use g in simp)+
  show "may_read t bn = may_read s bn" using g e by (simp add: may_read_def)
qed

lemma read_step:
  assumes "bcache_inv s" and "may_read s bn"
  obtains b u t where "bread 1 bn s = Inr (b, u)" "b_data (bcache u b) = bview s bn" "bio_frame s u"
    "brelse b u = Inr ((), t)" "same_blocks s t"
proof -
  obtain b u where u: "bread 1 bn s = Inr (b, u)" "bio_frame s u" "buf_at u b bn" "b_data (bcache u b) = bview s bn"
    "bview u = bview s" "bpinned u = bpinned s" "bn \<notin> bheld s" "bheld u = insert bn (bheld s)"
    "memdisk u = memdisk s" "disk_writes u = disk_writes s" "\<And>c cn. buf_at s c cn \<Longrightarrow> c \<noteq> b \<and> buf_at u c cn"
    using bio.rd_law [OF assms] by auto
  have "bn \<in> bpinned u \<or> bview u bn = memdisk u bn"
    using bio.clean [OF assms(1) u(7)] u(5,6,9) by auto
  then obtain t where t: "brelse b u = Inr ((), t)" "bio_frame u t" "bview t = bview u" "bpinned t = bpinned u"
    "bheld t = bheld u - {bn}" "memdisk t = memdisk u" "disk_writes t = disk_writes u"
    "\<And>c cn. c \<noteq> b \<Longrightarrow> buf_at u c cn \<Longrightarrow> buf_at t c cn"
    using bio.rel_law [OF frameD(1) [OF u(2)] u(3)] by auto
  have "same_blocks s t"
    using u t bio_frame_trans [OF u(2) t(2)] by (auto simp: same_blocks_def)
  then show thesis using u t by (intro that)
qed

section \<open>The contents of a file\<close>

text \<open>The block that holds block \<open>bn\<close> of the file, without allocation, and the bytes of the file.\<close>

definition file_block :: "'a fs_scheme \<Rightarrow> inode \<Rightarrow> nat \<Rightarrow> nat" where
  "file_block s x bn = (if bn < NDIRECT then i_addrs x ! bn
     else unat (get32 (bview s (i_addrs x ! NDIRECT)) (4 * (bn - NDIRECT))))"

definition file_byte :: "'a fs_scheme \<Rightarrow> inode \<Rightarrow> nat \<Rightarrow> uchar" where
  "file_byte s x i = bview s (file_block s x (i div BSIZE)) ! (i mod BSIZE)"

definition contents :: "'a fs_scheme \<Rightarrow> inode \<Rightarrow> uchar list" where
  "contents s x = map (file_byte s x) [0..<unat (i_size x)]"

text \<open>Block \<open>bn\<close> of the file is allocated and can be read without waiting for another process.\<close>

definition mapped :: "'a fs_scheme \<Rightarrow> inode \<Rightarrow> nat \<Rightarrow> bool" where
  "mapped s x bn \<longleftrightarrow> bn < MAXFILE \<and> file_block s x bn \<noteq> 0 \<and> may_read s (file_block s x bn) \<and>
     (NDIRECT \<le> bn \<longrightarrow> i_addrs x ! NDIRECT \<noteq> 0 \<and> may_read s (i_addrs x ! NDIRECT))"

lemma same_file:
  fixes s t :: "'a fs_scheme"
  assumes "same_blocks s t"
  shows "file_block t = file_block s" "file_byte t = file_byte s" "mapped t = mapped s" "contents t = contents s"
  using same_blocksD [OF assms]
  by (simp_all add: fun_eq_iff file_block_def file_byte_def mapped_def contents_def)

lemma bmap_mapped:
  fixes s :: "'a fs_scheme"
  assumes inv: "bcache_inv s" and dev: "i_dev (icache s ip) = 1" and m: "mapped s (icache s ip) bn"
  obtains t where "bmap ip bn s = Inr (file_block s (icache s ip) bn, t)" "same_blocks s t"
proof (cases "bn < NDIRECT")
  case True
  then show thesis using m inv
    by (intro that [of s]) (auto simp: bmap_def kmonad_simps mapped_def file_block_def same_blocks_refl)
next
  case False
  let ?x = "icache s ip"
  have i: "i_addrs ?x ! NDIRECT \<noteq> 0" "may_read s (i_addrs ?x ! NDIRECT)" "bn - NDIRECT < NINDIRECT"
    "file_block s ?x bn \<noteq> 0" using False m by (auto simp: mapped_def MAXFILE_def)
  obtain b u t where t: "bread 1 (i_addrs ?x ! NDIRECT) s = Inr (b, u)"
    "b_data (bcache u b) = bview s (i_addrs ?x ! NDIRECT)"
    "brelse b u = Inr ((), t)" "same_blocks s t" by (rule read_step [OF inv i(2)])
  have "bmap ip bn s = Inr (file_block s ?x bn, t)"
    using False i dev t(1-3) by (simp add: bmap_def kmonad_simps file_block_def)
  then show thesis using t(4) by (rule that)
qed

section \<open>Reading\<close>

lemma block_arith: "r < BSIZE \<Longrightarrow> (r + q * BSIZE) div BSIZE = q \<and> (r + q * BSIZE) mod BSIZE = r"
  by (simp add: BSIZE_def)

lemma get_bytes_file:
  assumes "length d = BSIZE" and "off mod BSIZE + m \<le> BSIZE"
    and "\<And>i. i div BSIZE = off div BSIZE \<Longrightarrow> f i = d ! (i mod BSIZE)"
  shows "get_bytes d (off mod BSIZE) m = map f [off..<off + m]"
proof (rule nth_equalityI)
  show l: "length (get_bytes d (off mod BSIZE) m) = length (map f [off..<off + m])"
    using assms by (simp add: get_bytes_def)
  fix i assume "i < length (get_bytes d (off mod BSIZE) m)"
  then have i: "i < m" unfolding l by simp
  then have lt: "off mod BSIZE + i < BSIZE" using assms(2) by linarith
  have e: "off + i = (off mod BSIZE + i) + off div BSIZE * BSIZE" by simp
  have d: "(off + i) div BSIZE = off div BSIZE" "(off + i) mod BSIZE = off mod BSIZE + i"
    using block_arith [OF lt, of "off div BSIZE"] unfolding e [symmetric] by blast+
  then show "get_bytes d (off mod BSIZE) m ! i = map f [off..<off + m] ! i"
    using i assms(1) lt assms(3) [OF d(1)] by (simp add: get_bytes_def)
qed

lemma readi_loop_correct:
  fixes s :: "'a fs_scheme"
  assumes "bcache_inv s" and "i_dev (icache s ip) = 1" and "tot \<le> n"
    and "\<And>bn. off div BSIZE \<le> bn \<Longrightarrow> bn * BSIZE < off + (n - tot) \<Longrightarrow> mapped s (icache s ip) bn"
  shows "\<exists>t. readi_loop ip n tot off s = Inr (map (file_byte s (icache s ip)) [off..<off + (n - tot)], t) \<and>
    same_blocks s t"
  using assms
proof (induction ip n tot off arbitrary: s rule: readi_loop.induct)
  case (1 ip n tot off)
  show ?case
  proof (cases "tot < n")
    case False
    then show ?thesis using 1 by (subst readi_loop.simps) (auto simp: kmonad_simps intro: same_blocks_refl)
  next
    case True
    define m where "m = min (n - tot) (BSIZE - off mod BSIZE)"
    let ?x = "icache s ip"
    let ?a = "file_block s ?x (off div BSIZE)"
    have "off div BSIZE * BSIZE \<le> off" by simp
    then have "off div BSIZE * BSIZE < off + (n - tot)" using True by linarith
    then have mp: "mapped s ?x (off div BSIZE)" using 1(5) by blast
    obtain u where u: "bmap ip (off div BSIZE) s = Inr (?a, u)" "same_blocks s u"
      by (rule bmap_mapped [OF 1(2,3) mp])
    have "may_read u ?a" using mp same_blocksD(5) [OF u(2)] by (simp add: mapped_def)
    then obtain b v w where w: "bread 1 ?a u = Inr (b, v)" "b_data (bcache v b) = bview u ?a"
      "brelse b v = Inr ((), w)" "same_blocks u w" by (rule read_step [OF same_blocksD(1) [OF u(2)]])
    have sw: "same_blocks s w" by (rule same_blocks_trans [OF u(2) w(4)])
    note e = same_blocksD [OF sw] and f = same_file [OF sw]
    have m: "m \<le> n - tot" "off mod BSIZE + m \<le> BSIZE" "0 < m" "tot + m \<le> n"
      using True by (auto simp: m_def BSIZE_def)
    have "\<exists>t. readi_loop ip n (tot + m) (off + m) w =
        Inr (map (file_byte w (icache w ip)) [off + m..<off + m + (n - (tot + m))], t) \<and> same_blocks w t"
    proof (rule 1(1) [OF True, folded m_def, OF refl])
      fix bn assume "(off + m) div BSIZE \<le> bn" "bn * BSIZE < off + m + (n - (tot + m))"
      then show "mapped w (icache w ip) bn"
        unfolding e f using m div_le_mono [of off "off + m" BSIZE] by (intro 1(5)) auto
    qed (use e m 1(3) in auto)
    then obtain t where t: "readi_loop ip n (tot + m) (off + m) w =
        Inr (map (file_byte s ?x) [off + m..<off + (n - tot)], t)" "same_blocks w t"
      using m by (auto simp: e f)
    have len: "length (bview s ?a) = BSIZE"
      using mp bview_length [OF 1(2)] by (simp add: mapped_def may_read_def)
    have bs: "get_bytes (bview s ?a) (off mod BSIZE) m = map (file_byte s ?x) [off..<off + m]"
      by (rule get_bytes_file [OF len m(2)]) (simp add: file_byte_def)
    have "readi_loop ip n tot off s = Inr (map (file_byte s ?x) [off..<off + m] @
        map (file_byte s ?x) [off + m..<off + (n - tot)], t)"
      unfolding readi_loop.simps [of ip n tot off] Let_def m_def [symmetric]
      using True u w 1(3) t(1) bs same_blocksD(2) [OF u(2)] by (simp add: kmonad_simps)
    moreover have "[off..<off + (n - tot)] = [off..<off + m] @ [off + m..<off + (n - tot)]"
      using m upt_add_eq_append [of off "off + m" "n - tot - m"] by simp
    ultimately show ?thesis using same_blocks_trans [OF sw t(2)] by auto
  qed
qed

lemma take_drop_contents: "off + m \<le> unat (i_size x) \<Longrightarrow>
    map (file_byte s x) [off..<off + m] = take m (drop off (contents s x))"
  by (simp add: contents_def take_map drop_map)

lemma readi_result:
  fixes s :: "'a fs_scheme"
  assumes "bcache_inv s" and "i_dev (icache s ip) = 1" and "i_type (icache s ip) \<noteq> T_DEV"
    and "\<And>bn. bn * BSIZE < unat (i_size (icache s ip)) \<Longrightarrow> mapped s (icache s ip) bn"
    and off: "off \<le> i_size (icache s ip)" and n: "off \<le> off + n"
  defines "bs \<equiv> take (unat n) (drop (unat off) (contents s (icache s ip)))"
  shows "\<exists>t. readi dv ip off n s = Inr ((int (length bs), bs), t) \<and> same_blocks s t"
proof -
  let ?x = "icache s ip" and ?sz = "unat (i_size (icache s ip))"
  define m where "m = (if off + n > i_size ?x then i_size ?x - off else n)"
  have sz: "?sz \<le> MAXFILE * BSIZE"
  proof (cases "?sz = 0")
    case False
    then have "(?sz - 1) div BSIZE * BSIZE \<le> ?sz - 1" by simp
    then have "(?sz - 1) div BSIZE * BSIZE < ?sz" using False by linarith
    from assms(4) [OF this] have "(?sz - 1) div BSIZE < MAXFILE" by (simp add: mapped_def)
    then have "?sz - 1 < MAXFILE * BSIZE" by (simp add: div_less_iff_less_mult BSIZE_def)
    then show ?thesis by linarith
  qed simp
  have uo: "unat off \<le> ?sz" using off by (simp add: word_le_nat_alt)
  have add: "unat (off + n) = unat off + unat n"
    using n by (metis unat_plus_simple)
  have um: "unat m = min (unat n) (?sz - unat off)"
    using uo by (auto simp: m_def word_less_nat_alt add unat_sub [OF off])
  have mb: "unat off + unat m \<le> ?sz" using um uo by simp
  have sm: "sint m = int (unat m)"
    using mb sz sint_small [of "unat m"] by (simp add: param_defs)
  have "\<exists>t. readi_loop ip (unat m) 0 (unat off) s =
      Inr (map (file_byte s ?x) [unat off..<unat off + (unat m - 0)], t) \<and> same_blocks s t"
  proof (rule readi_loop_correct [OF assms(1,2)])
    fix bn assume "bn * BSIZE < unat off + (unat m - 0)"
    then show "mapped s ?x bn" using mb by (intro assms(4)) simp
  qed simp
  then obtain t where t: "readi_loop ip (unat m) 0 (unat off) s =
      Inr (take (unat m) (drop (unat off) (contents s ?x)), t)" "same_blocks s t"
    using take_drop_contents [OF mb, of s] by auto
  have bs: "bs = take (unat m) (drop (unat off) (contents s ?x))" "length bs = unat m"
    unfolding bs_def um using uo by (auto simp: contents_def min_def)
  have nb: "\<not> (off > i_size ?x \<or> off + n < off)" using off n by (auto simp: not_less)
  have "readi dv ip off n s = Inr ((sint m, bs), t)"
    unfolding readi_def Let_def using assms(3) nb t(1) by (simp add: kmonad_simps m_def [symmetric] bs(1))
  then show ?thesis using t(2) sm bs(2) by simp
qed

section \<open>Storing blocks in a transaction\<close>

text \<open>Calls of \<open>log_write\<close> on the blocks of \<open>W\<close> only, after which the blocks read as \<open>V\<close>; the inode
  cache and the superblock are untouched, and the buffers that were locked still are, and no others.\<close>

definition stored :: "'a fslog_scheme \<Rightarrow> nat set \<Rightarrow> (nat \<Rightarrow> uchar list) \<Rightarrow> 'a fslog_scheme \<Rightarrow> bool" where
  "stored s W V t \<longleftrightarrow> log_inv t \<and> log_same s t \<and> bheld t = bheld s \<and> bview t = V \<and>
     bpinned t \<subseteq> bpinned s \<union> W \<and> (\<forall>c cn. buf_at s c cn \<longrightarrow> buf_at t c cn)"

text \<open>Inside a transaction with at most one locked buffer, and room in the log for the blocks of \<open>W\<close>
  and \<open>k\<close> others.\<close>

definition in_tx :: "'a fslog_scheme \<Rightarrow> nat set \<Rightarrow> nat \<Rightarrow> bool" where
  "in_tx s W k \<longleftrightarrow> log_inv s \<and> finite W \<and> (\<exists>h. bheld s \<subseteq> {h}) \<and> 1 \<le> log_outstanding s \<and>
     int (card (bpinned s \<union> W) + k + 1) < log_size s"

lemma log_same_home: "log_same s t \<Longrightarrow> home t = home s"
  by (simp add: log_same_def home_def fun_eq_iff)

lemma stored_trans: "stored s A V t \<Longrightarrow> stored t B W u \<Longrightarrow> stored s (A \<union> B) W u"
  by (auto simp: stored_def intro: log_same_trans)

lemma stored_mono: "stored s A V t \<Longrightarrow> A \<subseteq> B \<Longrightarrow> stored s B V t"
  by (auto simp: stored_def)

lemma stored_refl: "log_inv s \<Longrightarrow> stored s {} (bview s) s"
  by (simp add: stored_def log_same_def)

lemma stored_in_tx:
  assumes "stored s A V t" and "in_tx s W k" and "A \<subseteq> W"
  shows "in_tx t W k"
proof -
  have "card (bpinned t \<union> W) \<le> card (bpinned s \<union> W)"
    using assms by (intro card_mono) (auto simp: stored_def in_tx_def)
  then show ?thesis using assms by (auto simp: stored_def in_tx_def log_same_def)
qed

lemma in_tx_mono: "in_tx s W k \<Longrightarrow> j \<le> k \<Longrightarrow> in_tx s W j"
  by (auto simp: in_tx_def)

lemma in_tx_insert:
  assumes "in_tx s W (Suc k)"
  shows "in_tx s (insert b W) k"
proof -
  have "finite (bpinned s \<union> W)" using assms by (simp add: in_tx_def)
  then have "card (bpinned s \<union> insert b W) \<le> Suc (card (bpinned s \<union> W))" by (simp add: card_insert_if)
  then show ?thesis using assms by (auto simp: in_tx_def)
qed

lemma storedD:
  fixes s t :: "'a fs_scheme"
  assumes "stored s W V t"
  shows "bview t = V" "icache t = icache s" "fs_sb t = fs_sb s" "home t = home s" "disksize t = disksize s"
    "bcache_inv t"
proof -
  have l: "log_same s t" "fslog.more t = fslog.more s" "log_inv t" using assms by (auto simp: stored_def log_same_def)
  show "icache t = icache s" "fs_sb t = fs_sb s" by (rule fs_frame [OF l(2)])+
  show "bview t = V" "home t = home s" "disksize t = disksize s" "bcache_inv t"
    using assms l log_same_home [OF l(1)] by (simp_all add: stored_def log_same_def log_inv_def)
qed

lemma same_stored:
  fixes s t :: "'a fs_scheme"
  assumes "log_inv s" and "same_blocks s t"
  shows "stored s {} (bview s) t"
proof -
  have f: "bio_frame s t" and e: "bview t = bview s" "bpinned t = bpinned s" "bheld t = bheld s"
    "memdisk t = memdisk s" "\<forall>c cn. buf_at s c cn \<longrightarrow> buf_at t c cn" using assms(2) by (auto simp: same_blocks_def)
  note g = frameD [OF f] log_frame [OF frameD(2) [OF f]]
  have "log_inv t" using assms(1) g e by (simp add: log_inv_def)
  then show ?thesis using e g frame_log_same [OF f] by (simp add: stored_def)
qed

lemma may_read_tx:
  assumes "log_inv s" and "lh_n s + 2 \<le> log_size s" and "bheld s \<subseteq> {h}" and "bn < disksize s" and "bn \<notin> bheld s"
  shows "may_read s bn"
proof -
  obtain n where n: "lh_n s = int n" "card (bpinned s) = n" "n < NBUF" "int n < log_size s" by (rule log_invD [OF assms(1)])
  have sz: "log_size s \<le> int NBUF" using assms(1) by (simp add: log_inv_def)
  have fin: "finite (bheld s)" using assms(3) finite_subset by blast
  have c: "card (insert bn (bpinned s \<union> bheld s)) \<le> Suc (n + card (bheld s))"
    using card_Un_le [of "bpinned s" "bheld s"] n(2) card_insert_le_m1 [of "Suc (n + card (bheld s))"]
    by (simp add: card_insert_if fin)
  have "card (bheld s) \<le> 1" using card_mono [OF _ assms(3)] by simp
  with assms(2) have "Suc (n + card (bheld s)) \<le> NBUF" using n sz by auto
  then show ?thesis using c assms(4,5) by (auto simp: may_read_def)
qed

lemma in_tx_room:
  assumes "in_tx s W k"
  shows "lh_n s + 1 < log_size s"
proof -
  obtain n where n: "lh_n s = int n" "card (bpinned s) = n" by (rule log_invD [of s]) (use assms in \<open>auto simp: in_tx_def\<close>)
  have "card (bpinned s) \<le> card (bpinned s \<union> W)" using assms by (intro card_mono) (auto simp: in_tx_def)
  then show ?thesis using assms n by (simp add: in_tx_def)
qed

lemma in_tx_may_read:
  assumes "in_tx s W k" and "bn < disksize s" and "bn \<notin> bheld s"
  shows "may_read s bn"
  using assms in_tx_room [OF assms(1)] may_read_tx [of s _ bn] by (auto simp: in_tx_def)

text \<open>Between \<open>bread\<close> and \<open>brelse\<close>: the block is changed in the buffer and put into the log.\<close>

lemma write_held:
  fixes s :: "'a fslog_scheme"
  assumes li: "log_inv s" and at: "buf_at s b bn" and hm: "home s bn" and out: "1 \<le> log_outstanding s"
    and n: "lh_n s + 1 < log_size s" and f: "length (f (bview s bn)) = BSIZE"
  obtains u v t where "buf_store b f s = Inr ((), u)" "log_write b u = Inr ((), v)" "brelse b v = Inr ((), t)"
    "log_inv t" "log_same s t" "bheld t = bheld s - {bn}" "bview t = (bview s)(bn := f (bview s bn))"
    "bpinned t = insert bn (bpinned s)" "\<And>c cn. c \<noteq> b \<Longrightarrow> buf_at s c cn \<Longrightarrow> buf_at t c cn"
proof -
  have inv: "bcache_inv s" using li by (simp add: log_inv_def)
  obtain u where u: "buf_store b f s = Inr ((), u)" "bio_frame s u" "\<And>c cn. buf_at u c cn = buf_at s c cn"
    "bview u = (bview s)(bn := f (bview s bn))" "bpinned u = bpinned s" "bheld u = bheld s"
    "memdisk u = memdisk s" by (rule buf_store_spec [OF inv at, of f]) (use f in auto)
  note gu = frameD [OF u(2)] log_frame [OF frameD(2) [OF u(2)]]
  have lu: "log_inv u" using li gu u by (simp add: log_inv_def)
  have pu: "home u bn" "lh_n u < log_size u - 1" "1 \<le> log_outstanding u" "buf_at u b bn"
    using gu hm n out at u(3) by (simp_all add: home_def)
  obtain v where v: "log_write b u = Inr ((), v)" "log_inv v" "log_same u v" "bview v = bview u"
    "bpinned v = insert bn (bpinned u)" "bheld v = bheld u" "buf_at v = buf_at u" "memdisk v = memdisk u"
    by (rule log_write_spec [OF lu pu(4,1-3)])
  have iv: "bcache_inv v" using v(2) by (simp add: log_inv_def)
  from brelse_law [OF iv, of b bn] obtain w where w: "brelse b v = Inr ((), w)" "bio_frame v w" "bview w = bview v"
    "bpinned w = bpinned v" "bheld w = bheld v - {bn}" "memdisk w = memdisk v"
    "\<And>c cn. c \<noteq> b \<Longrightarrow> buf_at v c cn \<Longrightarrow> buf_at w c cn" using v pu(4) by auto
  note gw = frameD [OF w(2)] log_frame [OF frameD(2) [OF w(2)]]
  have lw: "log_inv w" using v(2) gw w by (simp add: log_inv_def)
  have same: "log_same s w"
    using log_same_trans [OF frame_log_same [OF u(2)] log_same_trans [OF v(3) frame_log_same [OF w(2)]]] .
  show thesis using u v w lw same by (intro that [of u v w]) auto
qed

lemma write_step:
  fixes s :: "'a fslog_scheme"
  assumes tx: "in_tx s W k" and bn: "bn < disksize s" "bn \<notin> bheld s" and hm: "home s bn" and f: "length (f (bview s bn)) = BSIZE"
  obtains b u v w t where "bread 1 bn s = Inr (b, u)" "b_data (bcache u b) = bview s bn"
    "buf_store b f u = Inr ((), v)" "log_write b v = Inr ((), w)" "brelse b w = Inr ((), t)"
    "stored s {bn} ((bview s)(bn := f (bview s bn))) t"
proof -
  have li: "log_inv s" and o: "1 \<le> log_outstanding s" "lh_n s + 1 < log_size s"
    using tx in_tx_room [OF tx] by (auto simp: in_tx_def)
  have inv: "bcache_inv s" using li by (simp add: log_inv_def)
  obtain b u where u: "bread 1 bn s = Inr (b, u)" "bio_frame s u" "buf_at u b bn" "b_data (bcache u b) = bview s bn"
    "bview u = bview s" "bpinned u = bpinned s" "bheld u = insert bn (bheld s)" "memdisk u = memdisk s"
    "\<And>c cn. buf_at s c cn \<Longrightarrow> c \<noteq> b \<and> buf_at u c cn"
    using bread_law [OF inv in_tx_may_read [OF tx bn]] by auto
  note gu = frameD [OF u(2)] log_frame [OF frameD(2) [OF u(2)]]
  have lu: "log_inv u" using li gu u by (simp add: log_inv_def)
  have pu: "home u bn" "1 \<le> log_outstanding u" "lh_n u + 1 < log_size u"
    using gu hm o by (simp_all add: home_def)
  have fu: "length (f (bview u bn)) = BSIZE" using f u(5) by simp
  obtain v w t where t: "buf_store b f u = Inr ((), v)" "log_write b v = Inr ((), w)" "brelse b w = Inr ((), t)"
    "log_inv t" "log_same u t" "bheld t = bheld u - {bn}" "bview t = (bview u)(bn := f (bview u bn))"
    "bpinned t = insert bn (bpinned u)" "\<And>c cn. c \<noteq> b \<Longrightarrow> buf_at u c cn \<Longrightarrow> buf_at t c cn" by (rule write_held [where f = f, OF lu u(3) pu fu]) blast
  have "stored s {bn} ((bview s)(bn := f (bview s bn))) t"
    using t u gu bn(2) log_same_trans [OF frame_log_same [OF u(2)] t(5)] by (simp add: stored_def)
  then show thesis using u t by (intro that)
qed

section \<open>The block allocator\<close>

text \<open>The bit of block \<open>bn\<close> in the free map.\<close>

definition used :: "'a fs_scheme \<Rightarrow> nat \<Rightarrow> bool" where
  "used s bn \<longleftrightarrow> bit (bview s (BBLOCK bn (fs_sb s)) ! (bn mod BPB div 8)) (bn mod BPB mod 8)"

text \<open>The disk as \<open>mkfs\<close> lays it out: boot block and superblock, log, inodes, free map, data.\<close>

definition data_start :: "superblock \<Rightarrow> nat" where
  "data_start sb = sb_bmapstart sb + sb_size sb div BPB + 1"

definition disk_ok :: "'a fs_scheme \<Rightarrow> bool" where
  "disk_ok s \<longleftrightarrow> (let sb = fs_sb s in
     int (log_start s) + log_size s \<le> int (sb_inodestart sb) \<and>
     sb_inodestart sb + sb_ninodes sb div IPB + 1 \<le> sb_bmapstart sb \<and>
     data_start sb \<le> sb_size sb \<and> sb_size sb \<le> disksize s \<and> (\<forall>bn < data_start sb. used s bn))"

lemma free_bit_spec:
  "free_bit d b sz bi = find (\<lambda>j. \<not> bit (d ! (j div 8)) (j mod 8)) [bi..<min BPB (sz - b)]"
proof (induction d b sz bi rule: free_bit.induct)
  case (1 d b sz bi)
  show ?case
  proof (cases "bi < BPB \<and> b + bi < sz")
    case True
    then have "[bi..<min BPB (sz - b)] = bi # [Suc bi..<min BPB (sz - b)]" by (intro upt_conv_Cons) auto
    then show ?thesis using 1 True by (simp add: free_bit.simps [of d b sz bi])
  next
    case False
    then have "[bi..<min BPB (sz - b)] = []" by auto
    then show ?thesis using False by (subst free_bit.simps) auto
  qed
qed

lemma find_upt_Some:
  "find P [a..<b] = Some i \<longleftrightarrow> a \<le> i \<and> i < b \<and> P i \<and> (\<forall>j. a \<le> j \<and> j < i \<longrightarrow> \<not> P j)"
proof (induction "b - a" arbitrary: a)
  case 0
  then show ?case by auto
next
  case (Suc k)
  then have "[a..<b] = a # [Suc a..<b]" by (intro upt_conv_Cons) simp
  moreover have "find P [Suc a..<b] = Some i \<longleftrightarrow>
      Suc a \<le> i \<and> i < b \<and> P i \<and> (\<forall>j. Suc a \<le> j \<and> j < i \<longrightarrow> \<not> P j)" using Suc by simp
  moreover have "(a \<le> i \<and> P i \<and> (\<forall>j. a \<le> j \<and> j < i \<longrightarrow> \<not> P j)) \<longleftrightarrow>
      (if P a then i = a else Suc a \<le> i \<and> P i \<and> (\<forall>j. Suc a \<le> j \<and> j < i \<longrightarrow> \<not> P j))"
    by (metis Suc_leD le_antisym le_refl not_less not_less_eq_eq)
  ultimately show ?case using Suc(2) by auto
qed

lemma BPB_pos: "0 < BPB" by (simp add: BPB_def BSIZE_def)

lemma bitmap_block:
  assumes "BPB dvd b" and "bi < BPB"
  shows "BBLOCK (b + bi) sb = BBLOCK b sb" "(b + bi) mod BPB = bi"
  using assms BPB_pos by (auto simp: BBLOCK_def elim!: dvdE)

lemma length_mark_used [simp]: "length (mark_used bi d) = length d"
  by (simp add: mark_used_def)

lemma length_mark_free [simp]: "length (mark_free bi d) = length d"
  by (simp add: mark_free_def)

lemma bit_index_less: "bi < BPB \<Longrightarrow> bi div 8 < BSIZE"
  by (simp add: BPB_def less_mult_imp_div_less)

lemma bit_index_eq: "bi div 8 = bj div 8 \<Longrightarrow> bi mod 8 = bj mod 8 \<Longrightarrow> bi = (bj :: nat)"
  by (metis mult_div_mod_eq)

lemma bit_mark_used:
  assumes "bi < BPB" "bj < BPB" "length d = BSIZE"
  shows "bit (mark_used bi d ! (bj div 8)) (bj mod 8) \<longleftrightarrow> bj = bi \<or> bit (d ! (bj div 8)) (bj mod 8)"
proof (cases "bj div 8 = bi div 8")
  case True
  then have "(bj mod 8 = bi mod 8) = (bj = bi)" using bit_index_eq by blast
  then show ?thesis using assms True bit_index_less [of bi]
    by (auto simp: mark_used_def bit_set_bit_iff)
qed (auto simp: mark_used_def)

lemma bit_mark_free:
  assumes "bi < BPB" "bj < BPB" "length d = BSIZE"
  shows "bit (mark_free bi d ! (bj div 8)) (bj mod 8) \<longleftrightarrow> bj \<noteq> bi \<and> bit (d ! (bj div 8)) (bj mod 8)"
proof (cases "bj div 8 = bi div 8")
  case True
  then have "(bj mod 8 = bi mod 8) = (bj = bi)" using bit_index_eq by blast
  then show ?thesis using assms True bit_index_less [of bi]
    by (auto simp: mark_free_def bit_unset_bit_iff)
qed (auto simp: mark_free_def)

text \<open>A data block is none of the blocks in front of the data area.\<close>

lemma disk_okD:
  assumes "disk_ok s"
  shows "int (log_start s) + log_size s \<le> int (sb_inodestart (fs_sb s))"
    "bn < sb_size (fs_sb s) \<Longrightarrow> sb_bmapstart (fs_sb s) \<le> BBLOCK bn (fs_sb s) \<and> BBLOCK bn (fs_sb s) < data_start (fs_sb s)"
    "sb_inodestart (fs_sb s) \<le> sb_bmapstart (fs_sb s)" "sb_size (fs_sb s) \<le> disksize s"
    "bn < data_start (fs_sb s) \<Longrightarrow> used s bn" "data_start (fs_sb s) \<le> sb_size (fs_sb s)"
    "i < sb_ninodes (fs_sb s) \<Longrightarrow> sb_inodestart (fs_sb s) \<le> IBLOCK i (fs_sb s) \<and> IBLOCK i (fs_sb s) < sb_bmapstart (fs_sb s)"
    "sb_bmapstart (fs_sb s) < data_start (fs_sb s)"
proof -
  show "bn < sb_size (fs_sb s) \<Longrightarrow> sb_bmapstart (fs_sb s) \<le> BBLOCK bn (fs_sb s) \<and> BBLOCK bn (fs_sb s) < data_start (fs_sb s)"
    using div_le_mono [of bn "sb_size (fs_sb s)" BPB] by (simp add: BBLOCK_def data_start_def)
  show "i < sb_ninodes (fs_sb s) \<Longrightarrow> sb_inodestart (fs_sb s) \<le> IBLOCK i (fs_sb s) \<and> IBLOCK i (fs_sb s) < sb_bmapstart (fs_sb s)"
    using assms div_le_mono [of i "sb_ninodes (fs_sb s)" IPB] by (simp add: IBLOCK_def disk_ok_def Let_def)
qed (use assms in \<open>auto simp: disk_ok_def Let_def data_start_def\<close>)

lemma disk_ok_home:
  assumes "disk_ok s" and "sb_inodestart (fs_sb s) \<le> bn"
  shows "home s bn"
  using disk_okD(1) [OF assms(1)] assms(2) by (simp add: home_def)

text \<open>An allocated block of the data area.  Only such a block is locked while a block is allocated.\<close>

definition is_data :: "'a fs_scheme \<Rightarrow> nat \<Rightarrow> bool" where
  "is_data s bn \<longleftrightarrow> data_start (fs_sb s) \<le> bn \<and> bn < sb_size (fs_sb s) \<and> used s bn"

text \<open>Blocks after block \<open>a\<close> has been taken: its bit is set and it is zeroed.\<close>

definition alloc_view :: "'a fs_scheme \<Rightarrow> nat \<Rightarrow> nat \<Rightarrow> uchar list" where
  "alloc_view s a = (bview s)(BBLOCK a (fs_sb s) := mark_used (a mod BPB) (bview s (BBLOCK a (fs_sb s))),
     a := replicate BSIZE 0)"

lemma balloc_take:
  fixes s :: "'a fs_scheme"
  assumes tx: "in_tx s W k" and W: "BBLOCK a (fs_sb s) \<in> W" and ok: "disk_ok s" and a: "a < sb_size (fs_sb s)" "data_start (fs_sb s) \<le> a"
    and h: "\<And>h. h \<in> bheld s \<Longrightarrow> data_start (fs_sb s) \<le> h \<and> h \<noteq> a"
  obtains b u v w x y where "bread 1 (BBLOCK a (fs_sb s)) s = Inr (b, u)"
    "b_data (bcache u b) = bview s (BBLOCK a (fs_sb s))"
    "buf_store b (mark_used (a mod BPB)) u = Inr ((), v)" "log_write b v = Inr ((), w)" "brelse b w = Inr ((), x)"
    "bzero 1 a x = Inr ((), y)" "stored s {BBLOCK a (fs_sb s), a} (alloc_view s a) y"
proof -
  let ?bb = "BBLOCK a (fs_sb s)"
  note d = disk_okD(2) [OF ok a(1)] disk_okD(3,4,6) [OF ok]
  have inv: "bcache_inv s" using tx by (simp add: in_tx_def log_inv_def)
  have bb: "?bb < disksize s" "home s ?bb" "a < disksize s" "home s a" "?bb \<noteq> a"
    "?bb \<notin> bheld s" "a \<notin> bheld s"
    using d a h [of ?bb] h [of a] disk_ok_home [OF ok] by auto
  have l: "length (mark_used (a mod BPB) (bview s ?bb)) = BSIZE" using bview_length [OF inv bb(1)] by simp
  obtain b u v w x where x: "bread 1 ?bb s = Inr (b, u)" "b_data (bcache u b) = bview s ?bb"
    "buf_store b (mark_used (a mod BPB)) u = Inr ((), v)" "log_write b v = Inr ((), w)" "brelse b w = Inr ((), x)"
    "stored s {?bb} ((bview s)(?bb := mark_used (a mod BPB) (bview s ?bb))) x"
    by (rule write_step [OF tx bb(1,6,2), where f = "mark_used (a mod BPB)"]) (use l in auto)
  have tx': "in_tx x W k" by (rule stored_in_tx [OF x(6) tx]) (use W in simp)
  note e = storedD [OF x(6)]
  obtain b2 u2 v2 w2 y where y: "bread 1 a x = Inr (b2, u2)"
    "buf_store b2 (\<lambda>_. replicate BSIZE 0) u2 = Inr ((), v2)" "log_write b2 v2 = Inr ((), w2)" "brelse b2 w2 = Inr ((), y)"
    "stored x {a} ((bview x)(a := replicate BSIZE 0)) y"
    by (rule write_step [OF tx', where f = "\<lambda>_. replicate BSIZE 0" and bn = a]) (use bb e x(6) in \<open>auto simp: stored_def\<close>)
  have "bzero 1 a x = Inr ((), y)" using y by (simp add: bzero_def kmonad_simps)
  moreover have "stored s {BBLOCK a (fs_sb s), a} (alloc_view s a) y"
    using stored_trans [OF x(6) y(5)] bb(5) by (simp add: alloc_view_def e insert_commute)
  ultimately show thesis using x by (intro that)
qed

lemma balloc_loop_spec:
  fixes s :: "'a fs_scheme"
  assumes "in_tx s W k" and "BBLOCK a (fs_sb s) \<in> W" and "disk_ok s" and "BPB dvd b" and "\<And>j. b \<le> j \<Longrightarrow> j < a \<Longrightarrow> used s j"
    and "b \<le> a" "a < sb_size (fs_sb s)" "\<not> used s a"
    and "\<And>h. h \<in> bheld s \<Longrightarrow> is_data s h"
  shows "\<exists>t. balloc_loop 1 (fs_sb s) b s = Inr (a, t) \<and> stored s {BBLOCK a (fs_sb s), a} (alloc_view s a) t"
  using assms
proof (induction "a - b" arbitrary: b s rule: less_induct)
  case less
  note tx = less(2) and W = less(3) and ok = less(4) and dv = less(5) and us = less(6) and ba = less(7)
    and sz = less(8) and na = less(9) and hd = less(10)
  let ?sb = "fs_sb s"
  have b: "b < sb_size ?sb" using ba sz by simp
  have inv: "bcache_inv s" using tx by (simp add: in_tx_def log_inv_def)
  have u: "used s (b + j) = bit (bview s (BBLOCK b ?sb) ! (j div 8)) (j mod 8)" if "j < BPB" for j
    using bitmap_block [OF dv that] by (simp add: used_def)
  show ?case
  proof (cases "a < b + BPB")
    case True
    define bi where "bi = a - b"
    have bi: "bi < BPB" "a = b + bi" using True ba by (auto simp: bi_def)
    have "free_bit (bview s (BBLOCK b ?sb)) b (sb_size ?sb) 0 = Some bi"
      unfolding free_bit_spec find_upt_Some
    proof (intro conjI allI impI)
      show "bi < min BPB (sb_size ?sb - b)" using bi sz by simp
      show "\<not> bit (bview s (BBLOCK b ?sb) ! (bi div 8)) (bi mod 8)" using na u [OF bi(1)] bi(2) by simp
      fix j assume "0 \<le> j \<and> j < bi"
      then show "\<not> \<not> bit (bview s (BBLOCK b ?sb) ! (j div 8)) (j mod 8)"
        using us [of "b + j"] u [of j] bi by simp
    qed simp
    note fb = this
    have ds: "data_start ?sb \<le> a" using disk_okD(5) [OF ok, of a] na by force
    note e = bitmap_block [OF dv bi(1), folded bi(2)]
    have hd': "data_start ?sb \<le> h \<and> h \<noteq> a" if "h \<in> bheld s" for h using hd [OF that] na by (auto simp: is_data_def)
    obtain c u v w x y where y: "bread 1 (BBLOCK a ?sb) s = Inr (c, u)" "b_data (bcache u c) = bview s (BBLOCK a ?sb)"
      "buf_store c (mark_used (a mod BPB)) u = Inr ((), v)" "log_write c v = Inr ((), w)" "brelse c w = Inr ((), x)"
      "bzero 1 a x = Inr ((), y)" "stored s {BBLOCK a (fs_sb s), a} (alloc_view s a) y"
      by (rule balloc_take [OF tx W ok sz ds hd'])
    have "balloc_loop 1 ?sb b s = Inr (a, y)"
      using b y(1-6) fb e bi(2) by (subst balloc_loop.simps) (simp add: kmonad_simps)
    then show ?thesis using y(7) by blast
  next
    case False
    have "free_bit (bview s (BBLOCK b ?sb)) b (sb_size ?sb) 0 = None"
      unfolding free_bit_spec find_None_iff
    proof (clarsimp)
      fix j assume "j < BPB"
      then show "bit (bview s (BBLOCK b ?sb) ! (j div 8)) (j mod 8)" using us [of "b + j"] u [of j] False by simp
    qed
    note fb = this
    have "may_read s (BBLOCK b ?sb)"
      using disk_okD(2) [OF ok b] disk_okD(4,6) [OF ok] hd [of "BBLOCK b ?sb"]
      by (intro in_tx_may_read [OF tx]) (auto simp: is_data_def)
    then obtain c u t where t: "bread 1 (BBLOCK b ?sb) s = Inr (c, u)" "b_data (bcache u c) = bview s (BBLOCK b ?sb)"
      "brelse c u = Inr ((), t)" "same_blocks s t" by (rule read_step [OF inv])
    have st: "stored s {} (bview s) t" by (rule same_stored [OF _ t(4)]) (use tx in \<open>simp add: in_tx_def\<close>)
    note e = storedD [OF st]
    have f: "used t = used s" "alloc_view t = alloc_view s" by (simp_all add: fun_eq_iff used_def alloc_view_def e)
    have g: "log_start t = log_start s" "log_size t = log_size s" using st by (simp_all add: stored_def log_same_def)
    have "\<exists>r. balloc_loop 1 (fs_sb t) (b + BPB) t = Inr (a, r) \<and> stored t {BBLOCK a (fs_sb t), a} (alloc_view t a) r"
    proof (rule less(1))
      show "a - (b + BPB) < a - b" using False BPB_pos by linarith
      show "in_tx t W k" by (rule stored_in_tx [OF st tx]) simp
      show "disk_ok t" using ok by (simp add: disk_ok_def e f g)
      show "is_data t h" if "h \<in> bheld t" for h
        using hd [of h] that st by (simp add: is_data_def e f stored_def)
    qed (use us sz na False dv W in \<open>auto simp: e f\<close>)
    then obtain r where r: "balloc_loop 1 ?sb (b + BPB) t = Inr (a, r)" "stored t {BBLOCK a ?sb, a} (alloc_view s a) r"
      by (auto simp: e f)
    have "balloc_loop 1 ?sb b s = Inr (a, r)"
      using b t(1-3) fb r(1) by (subst balloc_loop.simps) (simp add: kmonad_simps)
    then show ?thesis using stored_trans [OF st r(2), unfolded Un_empty_left] by blast
  qed
qed

text \<open>\<open>balloc\<close> takes the first free block.\<close>

lemma balloc_spec:
  fixes s :: "'a fs_scheme"
  assumes "in_tx s W k" and "BBLOCK a (fs_sb s) \<in> W" and "disk_ok s" and "\<And>j. j < a \<Longrightarrow> used s j"
    and "a < sb_size (fs_sb s)" "\<not> used s a"
    and "\<And>h. h \<in> bheld s \<Longrightarrow> is_data s h"
  obtains t where "balloc 1 s = Inr (a, t)" "stored s {BBLOCK a (fs_sb s), a} (alloc_view s a) t"
  using balloc_loop_spec [OF assms(1-3) _ _ _ assms(5-7), of 0] assms(4) by (auto simp: balloc_def kmonad_simps)

text \<open>The free blocks, and what becomes of the free map when a block is taken.\<close>

definition free_blocks :: "'a fs_scheme \<Rightarrow> nat set" where
  "free_blocks s = {bn. bn < sb_size (fs_sb s) \<and> \<not> used s bn}"

definition bitmap_blocks :: "superblock \<Rightarrow> nat set" where
  "bitmap_blocks sb = (\<lambda>bn. BBLOCK bn sb) ` {..<sb_size sb}"

lemma finite_free_blocks [simp]: "finite (free_blocks s)"
  by (simp add: free_blocks_def)

lemma finite_bitmap_blocks [simp]: "finite (bitmap_blocks sb)"
  by (simp add: bitmap_blocks_def)

lemma BBLOCK_in [simp]: "bn < sb_size sb \<Longrightarrow> BBLOCK bn sb \<in> bitmap_blocks sb"
  by (simp add: bitmap_blocks_def)

lemma bitmap_not_data:
  "disk_ok s \<Longrightarrow> bn \<in> bitmap_blocks (fs_sb s) \<Longrightarrow> sb_bmapstart (fs_sb s) \<le> bn \<and> bn < data_start (fs_sb s)"
  using disk_okD(2) by (auto simp: bitmap_blocks_def)

text \<open>Stores into the data area do not touch the free map.\<close>

lemma used_same:
  fixes s t :: "'a fs_scheme"
  assumes "fs_sb t = fs_sb s" and "bview t (BBLOCK j (fs_sb s)) = bview s (BBLOCK j (fs_sb s))"
  shows "used t j = used s j"
  using assms by (simp add: used_def)

lemma used_alloc:
  fixes s t :: "'a fs_scheme"
  assumes inv: "bcache_inv s" and ok: "disk_ok s" and a: "a < sb_size (fs_sb s)" "data_start (fs_sb s) \<le> a"
    and V: "bview t = alloc_view s a" "fs_sb t = fs_sb s" and j: "j < sb_size (fs_sb s)"
  shows "used t j \<longleftrightarrow> j = a \<or> used s j"
proof -
  let ?sb = "fs_sb s"
  have b: "BBLOCK j ?sb \<noteq> a" "BBLOCK a ?sb \<noteq> a" "BBLOCK a ?sb < disksize s"
    using disk_okD(2) [OF ok j] disk_okD(2) [OF ok a(1)] a disk_okD(4) [OF ok] by auto
  have len: "length (bview s (BBLOCK a ?sb)) = BSIZE" by (rule bview_length [OF inv b(3)])
  show ?thesis
  proof (cases "BBLOCK j ?sb = BBLOCK a ?sb")
    case True
    then have d: "j div BPB = a div BPB" by (simp add: BBLOCK_def)
    then have e: "(j mod BPB = a mod BPB) = (j = a)" by (metis mult_div_mod_eq)
    have l: "j mod BPB < BPB" "a mod BPB < BPB" using BPB_pos by simp_all
    show ?thesis
      using bit_mark_used [OF l(2,1) len] b True by (simp add: used_def V alloc_view_def e)
  next
    case False
    then have "j \<noteq> a" by auto
    then show ?thesis using False b by (simp add: used_def V alloc_view_def)
  qed
qed

lemma disk_ok_stored:
  fixes s t :: "'a fs_scheme"
  assumes ok: "disk_ok s" and st: "stored s W V t" and us: "\<And>j. j < sb_size (fs_sb s) \<Longrightarrow> used s j \<Longrightarrow> used t j"
  shows "disk_ok t"
proof -
  have "log_start t = log_start s" "log_size t = log_size s" using st by (auto simp: stored_def log_same_def)
  moreover have "used t j" if "j < data_start (fs_sb s)" for j
    using us [of j] that disk_okD(5) [OF ok that] disk_okD(6) [OF ok] by simp
  ultimately show ?thesis using ok storedD [OF st] by (simp add: disk_ok_def Let_def)
qed

text \<open>\<open>balloc\<close>, when a block is free: the first one, zeroed and marked.\<close>

lemma balloc_takes:
  fixes s :: "'a fs_scheme"
  assumes tx: "in_tx s W k" and W: "bitmap_blocks (fs_sb s) \<subseteq> W" and ok: "disk_ok s" and ne: "free_blocks s \<noteq> {}"
    and hd: "\<And>h. h \<in> bheld s \<Longrightarrow> is_data s h"
  obtains a t where "balloc 1 s = Inr (a, t)" "a = Min (free_blocks s)" "a \<in> free_blocks s" "data_start (fs_sb s) \<le> a"
    "stored s (insert a W) (alloc_view s a) t" "disk_ok t" "free_blocks t = free_blocks s - {a}"
    "\<And>j. is_data t j \<longleftrightarrow> j = a \<or> is_data s j"
proof -
  define a where "a = Min (free_blocks s)"
  have a: "a \<in> free_blocks s" unfolding a_def by (rule Min_in [OF _ ne]) simp
  then have sz: "a < sb_size (fs_sb s)" "\<not> used s a" by (auto simp: free_blocks_def)
  have us: "used s j" if "j < a" for j
  proof (rule ccontr)
    assume "\<not> used s j"
    then have "j \<in> free_blocks s" using that sz by (simp add: free_blocks_def)
    from Min_le [OF _ this] show False using that by (simp add: a_def)
  qed
  have ds: "data_start (fs_sb s) \<le> a" using disk_okD(5) [OF ok, of a] sz(2) by force
  have inv: "bcache_inv s" using tx by (simp add: in_tx_def log_inv_def)
  have bW: "BBLOCK a (fs_sb s) \<in> W" using W BBLOCK_in [OF sz(1)] by blast
  obtain t where t: "balloc 1 s = Inr (a, t)" "stored s {BBLOCK a (fs_sb s), a} (alloc_view s a) t"
    by (rule balloc_spec [OF tx bW ok us sz hd])
  have st: "stored s (insert a W) (alloc_view s a) t" using bW by (intro stored_mono [OF t(2)]) auto
  note e = storedD [OF st]
  have u: "used t j \<longleftrightarrow> j = a \<or> used s j" if "j < sb_size (fs_sb s)" for j
    by (rule used_alloc [OF inv ok sz(1) ds e(1,3) that])
  show thesis
  proof (rule that [OF t(1) a_def a ds st])
    show "disk_ok t" by (rule disk_ok_stored [OF ok st]) (simp add: u)
    show "free_blocks t = free_blocks s - {a}" using u by (auto simp: free_blocks_def e)
    show "is_data t j \<longleftrightarrow> j = a \<or> is_data s j" for j using u [of j] sz(1) ds by (auto simp: is_data_def e)
  qed
qed

text \<open>Changes of the cached inode are invisible to the block layer.\<close>

lemma upd_inode_views:
  fixes s :: "'a fs_scheme"
  shows "bview (upd_inode ip f s) = bview s" "bpinned (upd_inode ip f s) = bpinned s"
    "bheld (upd_inode ip f s) = bheld s" "buf_at (upd_inode ip f s) = buf_at s"
    "bcache_inv (upd_inode ip f s) = bcache_inv s" "log_inv (upd_inode ip f s) = log_inv s"
    "in_tx (upd_inode ip f s) = in_tx s" "used (upd_inode ip f s) = used s" "disk_ok (upd_inode ip f s) = disk_ok s"
    "free_blocks (upd_inode ip f s) = free_blocks s" "is_data (upd_inode ip f s) = is_data s"
    "fs_sb (upd_inode ip f s) = fs_sb s" "disksize (upd_inode ip f s) = disksize s"
    "icache (upd_inode ip f s) = (icache s)(ip := f (icache s ip))" "may_read (upd_inode ip f s) = may_read s"
    "home (upd_inode ip f s) = home s"
proof -
  show v: "bview (upd_inode ip f s) = bview s" "bpinned (upd_inode ip f s) = bpinned s"
    "bheld (upd_inode ip f s) = bheld s" "buf_at (upd_inode ip f s) = buf_at s"
    "bcache_inv (upd_inode ip f s) = bcache_inv s"
    by (rule views_cong; simp add: upd_inode_def)+
  show l: "log_inv (upd_inode ip f s) = log_inv s"
    unfolding log_inv_def v by (simp add: upd_inode_def)
  show "in_tx (upd_inode ip f s) = in_tx s"
    unfolding in_tx_def l v fun_eq_iff by (simp add: upd_inode_def)
  show u: "used (upd_inode ip f s) = used s"
    unfolding used_def v fun_eq_iff by (simp add: upd_inode_def)
  show "disk_ok (upd_inode ip f s) = disk_ok s" "free_blocks (upd_inode ip f s) = free_blocks s"
    "is_data (upd_inode ip f s) = is_data s"
    unfolding disk_ok_def free_blocks_def is_data_def u fun_eq_iff by (simp_all add: upd_inode_def)
  show "may_read (upd_inode ip f s) = may_read s"
    unfolding may_read_def v fun_eq_iff by (simp add: upd_inode_def)
qed (simp_all add: upd_inode_def home_def fun_eq_iff)

lemma stored_upd_inode:
  fixes s t :: "'a fs_scheme"
  assumes "stored s W V t"
  shows "stored (upd_inode ip f s) W V (upd_inode ip f t)"
proof -
  have s: "log_same s t" "fslog.more t = fslog.more s" using assms by (auto simp: stored_def log_same_def)
  have "fslog.more (upd_inode ip f t) = fslog.more (upd_inode ip f s)"
    using s(2) by (cases s, cases t) (simp add: upd_inode_def fslog.defs fs.defs)
  then have "log_same (upd_inode ip f s) (upd_inode ip f t)"
    using s(1) by (simp add: log_same_def) (simp add: upd_inode_def)
  then show ?thesis using assms unfolding stored_def upd_inode_views by blast
qed

lemma stored_alloc_in_tx:
  assumes "stored s (insert a W) V t" and "in_tx s W (Suc k)"
  shows "in_tx t (insert a W) k"
  by (rule stored_in_tx [OF assms(1) in_tx_insert [OF assms(2)] subset_refl])

text \<open>A new entry in an indirect block: the block is locked while \<open>balloc\<close> runs.\<close>

lemma indirect_slot:
  fixes s :: "'a fs_scheme"
  assumes tx: "in_tx s W (Suc k)" and W: "bitmap_blocks (fs_sb s) \<subseteq> W" and ok: "disk_ok s" and h: "bheld s = {}"
    and ind: "is_data s ind" and j: "j < NINDIRECT" and ne: "free_blocks s \<noteq> {}"
  obtains a bp u v w x t where "bread 1 ind s = Inr (bp, u)" "b_data (bcache u bp) = bview s ind"
    "balloc 1 u = Inr (a, v)" "buf_store bp (\<lambda>d. put32 d (4 * j) (of_nat a)) v = Inr ((), w)"
    "log_write bp w = Inr ((), x)" "brelse bp x = Inr ((), t)" "a \<in> free_blocks s" "data_start (fs_sb s) \<le> a"
    "stored s ({a, ind} \<union> W) ((alloc_view s a)(ind := put32 (bview s ind) (4 * j) (of_nat a))) t" "disk_ok t"
    "free_blocks t = free_blocks s - {a}" "\<And>i. is_data t i \<longleftrightarrow> i = a \<or> is_data s i"
proof -
  have li: "log_inv s" and inv: "bcache_inv s" using tx by (auto simp: in_tx_def log_inv_def)
  have ib: "ind < disksize s" "data_start (fs_sb s) \<le> ind" using ind disk_okD(4) [OF ok] by (auto simp: is_data_def)
  obtain bp u where u: "bread 1 ind s = Inr (bp, u)" "bio_frame s u" "buf_at u bp ind" "b_data (bcache u bp) = bview s ind"
    "bview u = bview s" "bpinned u = bpinned s" "bheld u = {ind}" "memdisk u = memdisk s"
    "\<And>c cn. buf_at s c cn \<Longrightarrow> c \<noteq> bp \<and> buf_at u c cn"
    using bread_law [OF inv in_tx_may_read [OF tx ib(1)]] h by auto
  note gu = frameD [OF u(2)] log_frame [OF frameD(2) [OF u(2)]] fs_frame [OF log_frame(8) [OF frameD(2) [OF u(2)]]]
  have lu: "log_inv u" using li gu u by (simp add: log_inv_def)
  have txu: "in_tx u W (Suc k)" using tx lu gu u by (auto simp: in_tx_def)
  have eu: "used u = used s" "free_blocks u = free_blocks s" "is_data u = is_data s" "alloc_view u = alloc_view s"
    using gu u by (simp_all add: fun_eq_iff used_def free_blocks_def is_data_def alloc_view_def)
  have oku: "disk_ok u" using ok gu eu by (simp add: disk_ok_def)
  obtain a v where v: "balloc 1 u = Inr (a, v)" "a \<in> free_blocks u" "data_start (fs_sb u) \<le> a"
    "stored u (insert a W) (alloc_view u a) v" "disk_ok v" "free_blocks v = free_blocks u - {a}"
    "\<And>i. is_data v i \<longleftrightarrow> i = a \<or> is_data u i"
    by (rule balloc_takes [OF txu _ oku]) (use W gu eu ne u ind in auto)
  note sv = storedD [OF v(4)]
  have txv: "in_tx v (insert a W) k" by (rule stored_alloc_in_tx [OF v(4) txu])
  have av: "buf_at v bp ind" "bheld v = {ind}" "log_inv v" "log_same u v" "bpinned v \<subseteq> bpinned u \<union> insert a W"
    "\<And>c cn. buf_at u c cn \<Longrightarrow> buf_at v c cn" using v(4) u by (auto simp: stored_def)
  have hm: "home v ind" "1 \<le> log_outstanding v"
    using disk_ok_home [OF v(5), of ind] ib disk_okD(3,8) [OF v(5)] sv gu txv by (auto simp: in_tx_def)
  have na: "ind \<noteq> a" "ind \<notin> bitmap_blocks (fs_sb s)"
    using v(2) ind ib bitmap_not_data [OF ok, of ind] by (auto simp: eu free_blocks_def is_data_def)
  have aB: "BBLOCK a (fs_sb s) \<in> bitmap_blocks (fs_sb s)" using v(2) gu by (simp add: eu free_blocks_def)
  then have vi: "bview v ind = bview s ind" using na by (auto simp: sv eu alloc_view_def)
  have len: "length (bview v ind) = BSIZE" using bview_length [OF inv ib(1)] vi by simp
  obtain w x t where t: "buf_store bp (\<lambda>d. put32 d (4 * j) (of_nat a)) v = Inr ((), w)" "log_write bp w = Inr ((), x)"
    "brelse bp x = Inr ((), t)" "log_inv t" "log_same v t" "bheld t = bheld v - {ind}"
    "bview t = (bview v)(ind := put32 (bview v ind) (4 * j) (of_nat a))" "bpinned t = insert ind (bpinned v)"
    "\<And>c cn. c \<noteq> bp \<Longrightarrow> buf_at v c cn \<Longrightarrow> buf_at t c cn"
    by (rule write_held [where f = "\<lambda>d. put32 d (4 * j) (of_nat a)", OF av(3,1) hm in_tx_room [OF txv]]) (use len in \<open>simp, blast\<close>)
  have st: "stored s ({a, ind} \<union> W) ((alloc_view s a)(ind := put32 (bview s ind) (4 * j) (of_nat a))) t"
    unfolding stored_def
  proof (intro conjI allI impI)
    show "log_same s t" by (rule log_same_trans [OF frame_log_same [OF u(2)] log_same_trans [OF av(4) t(5)]])
    show "bview t = (alloc_view s a)(ind := put32 (bview s ind) (4 * j) (of_nat a))" using t(7) vi sv(1) eu by simp
    show "buf_at t c cn" if "buf_at s c cn" for c cn using u(9) [OF that] t(9) av(6) by blast
  qed (use t av h u in auto)
  note e = storedD [OF st]
  have ut: "used t i = used v i" if "i < sb_size (fs_sb s)" for i
  proof (rule used_same)
    have "BBLOCK i (fs_sb v) \<noteq> ind" using na(2) BBLOCK_in [OF that] sv gu by auto
    then show "bview t (BBLOCK i (fs_sb v)) = bview v (BBLOCK i (fs_sb v))" using t(7) by simp
  qed (use e sv gu in simp)
  show thesis
  proof (rule that [OF u(1,4) v(1) t(1-3) _ _ st])
    have sb: "fs_sb t = fs_sb s" "fs_sb v = fs_sb s" "fs_sb u = fs_sb s" using e sv gu by simp_all
    show "a \<in> free_blocks s" "data_start (fs_sb s) \<le> a" using v(2,3) eu sb by simp_all
    show "disk_ok t"
      by (rule disk_ok_stored [OF ok st]) (use ut v(7) eu sb in \<open>auto simp: is_data_def\<close>, use v(6) eu sb in \<open>auto simp: free_blocks_def\<close>)
    show "free_blocks t = free_blocks s - {a}" using v(6) ut eu sb by (auto simp: free_blocks_def)
    show "is_data t i \<longleftrightarrow> i = a \<or> is_data s i" for i
      using v(7) [of i] ut [of i] eu sb unfolding is_data_def by auto
  qed
qed

section \<open>The blocks of a file\<close>

text \<open>The first \<open>nb\<close> blocks of the file and, when there are more than the direct ones, the indirect
  block are distinct allocated data blocks; all later entries are empty.\<close>

definition laid_out :: "'a fs_scheme \<Rightarrow> inode \<Rightarrow> nat \<Rightarrow> bool" where
  "laid_out s x nb \<longleftrightarrow> length (i_addrs x) = NDIRECT + 1 \<and> i_dev x = 1 \<and> nb \<le> MAXFILE \<and>
     (\<forall>bn < nb. is_data s (file_block s x bn)) \<and> inj_on (file_block s x) {..<nb} \<and>
     (\<forall>bn. nb \<le> bn \<and> bn < NDIRECT \<longrightarrow> i_addrs x ! bn = 0) \<and>
     (if nb \<le> NDIRECT then i_addrs x ! NDIRECT = 0
      else is_data s (i_addrs x ! NDIRECT) \<and> (\<forall>bn < nb. file_block s x bn \<noteq> i_addrs x ! NDIRECT) \<and>
        (\<forall>bn. nb \<le> bn \<and> bn < MAXFILE \<longrightarrow> file_block s x bn = 0))"

lemma laid_outD:
  assumes "laid_out s x nb"
  shows "length (i_addrs x) = NDIRECT + 1" "i_dev x = 1" "nb \<le> MAXFILE"
    "bn < nb \<Longrightarrow> is_data s (file_block s x bn)" "inj_on (file_block s x) {..<nb}"
    "nb \<le> bn \<Longrightarrow> bn < NDIRECT \<Longrightarrow> i_addrs x ! bn = 0" "nb \<le> NDIRECT \<Longrightarrow> i_addrs x ! NDIRECT = 0"
    "NDIRECT < nb \<Longrightarrow> is_data s (i_addrs x ! NDIRECT)"
    "NDIRECT < nb \<Longrightarrow> bn < nb \<Longrightarrow> file_block s x bn \<noteq> i_addrs x ! NDIRECT"
    "NDIRECT < nb \<Longrightarrow> nb \<le> bn \<Longrightarrow> bn < MAXFILE \<Longrightarrow> file_block s x bn = 0"
  using assms by (auto simp: laid_out_def split: if_splits)

text \<open>The blocks of the file, and the blocks a change of the file must leave alone.\<close>

definition own_blocks :: "'a fs_scheme \<Rightarrow> inode \<Rightarrow> nat \<Rightarrow> nat set" where
  "own_blocks s x nb = file_block s x ` {..<nb} \<union> (if NDIRECT < nb then {i_addrs x ! NDIRECT} else {})"

lemma file_block_direct: "bn < NDIRECT \<Longrightarrow> file_block s x bn = i_addrs x ! bn"
  by (simp add: file_block_def)

lemma file_block_indirect:
  "file_block s x (NDIRECT + j) = unat (get32 (bview s (i_addrs x ! NDIRECT)) (4 * j))"
  by (simp add: file_block_def)

text \<open>The effect of \<open>bmap(ip, nb)\<close> on a file of \<open>nb\<close> blocks: one more block, all zero.\<close>

definition grown :: "'a fs_scheme \<Rightarrow> nat \<Rightarrow> nat \<Rightarrow> nat \<Rightarrow> 'a fs_scheme \<Rightarrow> bool" where
  "grown s ip nb a t \<longleftrightarrow> (let x = icache s ip; y = icache t ip in
     y = x\<lparr>i_addrs := i_addrs y\<rparr> \<and> icache t = (icache s)(ip := y) \<and> laid_out t y (Suc nb) \<and> disk_ok t \<and>
     file_block t y nb = a \<and> a \<in> free_blocks s \<and> bview t a = replicate BSIZE 0 \<and>
     (\<forall>bn < nb. file_block t y bn = file_block s x bn) \<and>
     (\<forall>bn. bn \<notin> free_blocks s \<union> bitmap_blocks (fs_sb s) \<union> (if NDIRECT \<le> nb then {i_addrs y ! NDIRECT} else {}) \<longrightarrow> bview t bn = bview s bn) \<and>
     free_blocks t \<subseteq> free_blocks s \<and>
     card (free_blocks t) + (if nb = NDIRECT then 2 else 1) = card (free_blocks s) \<and>
     (\<forall>bn. is_data s bn \<longrightarrow> is_data t bn) \<and> own_blocks t y (Suc nb) \<subseteq> own_blocks s x nb \<union> free_blocks s)"

lemma inj_on_Suc:
  assumes "inj_on f {..<n}" and "\<And>i. i < n \<Longrightarrow> f i \<noteq> a" and "\<And>i. i \<le> n \<Longrightarrow> g i = (if i = n then a else f i)"
  shows "inj_on g {..<Suc n :: nat}"
proof (rule inj_onI)
  fix i j assume "i \<in> {..<Suc n}" "j \<in> {..<Suc n}" "g i = g j"
  then show "i = j" using assms(2) [of i] assms(2) [of j] inj_onD [OF assms(1), of i j]
    by (auto simp: assms(3) less_Suc_eq_le split: if_splits)
qed

lemma data_ne_0: "disk_ok s \<Longrightarrow> is_data s bn \<Longrightarrow> bn \<noteq> 0"
  by (auto simp: is_data_def data_start_def)

lemma alloc_view_other:
  "bn \<noteq> a \<Longrightarrow> bn \<notin> bitmap_blocks (fs_sb s) \<Longrightarrow> a < sb_size (fs_sb s) \<Longrightarrow> alloc_view s a bn = bview s bn"
  by (auto simp: alloc_view_def)

lemma card_take: "finite F \<Longrightarrow> a \<in> F \<Longrightarrow> G = F - {a} \<Longrightarrow> card G + 1 = card F"
  using card_Suc_Diff1 [of F a] by simp

lemma is_data_not_bitmap: "disk_ok s \<Longrightarrow> is_data s bn \<Longrightarrow> bn \<notin> bitmap_blocks (fs_sb s)"
  using bitmap_not_data by (force simp: is_data_def)

lemma is_data_not_free: "is_data s bn \<Longrightarrow> bn \<notin> free_blocks s"
  by (simp add: is_data_def free_blocks_def)

lemma bmap_append_direct:
  fixes s :: "'a fs_scheme"
  assumes tx: "in_tx s W (Suc k)" and W: "bitmap_blocks (fs_sb s) \<subseteq> W" and ok: "disk_ok s" and h: "bheld s = {}"
    and lo: "laid_out s (icache s ip) nb" and nb: "nb < NDIRECT" and ne: "free_blocks s \<noteq> {}"
  obtains a t where "bmap ip nb s = Inr (a, t)" "grown s ip nb a t" "fs_sb t = fs_sb s" "bheld t = {}"
    "in_tx t (insert a W) k"
proof -
  let ?x = "icache s ip"
  obtain a u where u: "balloc 1 s = Inr (a, u)" "a \<in> free_blocks s" "data_start (fs_sb s) \<le> a"
    "stored s (insert a W) (alloc_view s a) u" "disk_ok u" "free_blocks u = free_blocks s - {a}"
    "\<And>j. is_data u j \<longleftrightarrow> j = a \<or> is_data s j"
    by (rule balloc_takes [OF tx W ok ne]) (use h in auto)
  note e = storedD [OF u(4)]
  let ?f = "\<lambda>x. x\<lparr>i_addrs := (i_addrs x)[nb := a]\<rparr>"
  let ?t = "upd_inode ip ?f u" and ?y = "?f ?x"
  have sz: "a < sb_size (fs_sb s)" using u(2) by (simp add: free_blocks_def)
  note l = laid_outD [OF lo]
  have z: "i_addrs ?x ! nb = 0" by (rule l(6)) (use nb in auto)
  have "bmap ip nb s = Inr (a, ?t)"
    using nb z l(2) u(1) by (simp add: bmap_def kmonad_simps)
  moreover have y: "icache ?t ip = ?y" by (simp add: upd_inode_views e)
  have fb: "file_block ?t ?y bn = (if bn = nb then a else file_block s ?x bn)" if "bn \<le> nb" for bn
    using that nb l(1) by (simp add: file_block_direct)
  have ny: "i_addrs ?y ! NDIRECT = 0" using l(1,7) nb by simp
  have "grown s ip nb a ?t"
    unfolding grown_def Let_def y
  proof (intro conjI allI impI)
    have na: "file_block s ?x bn \<noteq> a" if "bn < nb" for bn
      using l(4) [OF that] u(2) by (auto simp: is_data_def free_blocks_def)
    show "laid_out ?t ?y (Suc nb)"
      unfolding laid_out_def
    proof (intro conjI allI impI)
      show "inj_on (file_block ?t ?y) {..<Suc nb}"
        using l(5) na by (rule inj_on_Suc) (simp_all add: fb)
      show "is_data ?t (file_block ?t ?y bn)" if "bn < Suc nb" for bn
        using that l(4) by (auto simp: fb upd_inode_views u(7))
      show "i_addrs ?y ! bn = 0" if "Suc nb \<le> bn \<and> bn < NDIRECT" for bn
        using that l(1) l(6) [of bn] by simp
    qed (use l nb ny in \<open>auto simp: MAXFILE_def\<close>)
    show "card (free_blocks ?t) + (if nb = NDIRECT then 2 else 1) = card (free_blocks s)"
      using nb card_take [OF finite_free_blocks u(2,6)] by (simp add: upd_inode_views)
    show "own_blocks ?t ?y (Suc nb) \<subseteq> own_blocks s ?x nb \<union> free_blocks s"
      using nb u(2) by (auto simp: own_blocks_def fb less_Suc_eq)
    show "bview ?t a = replicate BSIZE 0" by (simp add: upd_inode_views e alloc_view_def)
    show "bview ?t bn = bview s bn" if "bn \<notin> free_blocks s \<union> bitmap_blocks (fs_sb s) \<union> (if NDIRECT \<le> nb then {i_addrs ?y ! NDIRECT} else {})" for bn
    proof -
      have "bn \<noteq> a" using that u(2) by auto
      then show ?thesis using that sz by (simp add: upd_inode_views e alloc_view_other)
    qed
  qed (use u fb in \<open>auto simp: upd_inode_views e\<close>)
  moreover have "in_tx ?t (insert a W) k"
    using stored_alloc_in_tx [OF u(4) tx] by (simp add: upd_inode_views)
  moreover have "bheld ?t = {}" using u(4) h by (simp add: upd_inode_views stored_def)
  ultimately show thesis by (intro that [of a ?t]) (auto simp: upd_inode_views e)
qed

text \<open>Growth through the indirect block, which is already there.\<close>

lemma grown_indirect:
  fixes s :: "'a fs_scheme"
  assumes tx: "in_tx s W (Suc k)" and W: "bitmap_blocks (fs_sb s) \<subseteq> W" and ok: "disk_ok s" and h: "bheld s = {}"
    and x: "x = icache s ip" "length (i_addrs x) = NDIRECT + 1" "i_dev x = 1" and nb: "NDIRECT \<le> nb" "nb < MAXFILE"
    and fb: "\<And>bn. bn < nb \<Longrightarrow> is_data s (file_block s x bn) \<and> file_block s x bn \<noteq> i_addrs x ! NDIRECT"
      "inj_on (file_block s x) {..<nb}" "\<And>bn. nb \<le> bn \<Longrightarrow> bn < MAXFILE \<Longrightarrow> file_block s x bn = 0"
    and ind: "is_data s (i_addrs x ! NDIRECT)" and ne: "free_blocks s \<noteq> {}"
  obtains a t where "bmap ip nb s = Inr (a, t)" "icache t = icache s" "laid_out t x (Suc nb)" "disk_ok t"
    "file_block t x nb = a" "a \<in> free_blocks s" "bview t a = replicate BSIZE 0"
    "\<And>bn. bn < nb \<Longrightarrow> file_block t x bn = file_block s x bn"
    "\<And>bn. bn \<noteq> a \<Longrightarrow> bn \<notin> bitmap_blocks (fs_sb s) \<Longrightarrow> bn \<noteq> i_addrs x ! NDIRECT \<Longrightarrow> bview t bn = bview s bn"
    "free_blocks t = free_blocks s - {a}" "\<And>bn. is_data t bn \<longleftrightarrow> bn = a \<or> is_data s bn" "fs_sb t = fs_sb s" "bheld t = {}"
    "stored s ({a, i_addrs x ! NDIRECT} \<union> W) (bview t) t"
proof -
  let ?ind = "i_addrs x ! NDIRECT"
  define j where "j = nb - NDIRECT"
  have j: "j < NINDIRECT" "nb = NDIRECT + j" using nb by (auto simp: j_def MAXFILE_def)
  have inv: "bcache_inv s" and ds: "disksize s < 4294967296" using tx by (auto simp: in_tx_def log_inv_def)
  obtain a bp u v w y t where t: "bread 1 ?ind s = Inr (bp, u)" "b_data (bcache u bp) = bview s ?ind"
    "balloc 1 u = Inr (a, v)" "buf_store bp (\<lambda>d. put32 d (4 * j) (of_nat a)) v = Inr ((), w)"
    "log_write bp w = Inr ((), y)" "brelse bp y = Inr ((), t)" "a \<in> free_blocks s" "data_start (fs_sb s) \<le> a"
    "stored s ({a, ?ind} \<union> W) ((alloc_view s a)(?ind := put32 (bview s ?ind) (4 * j) (of_nat a))) t" "disk_ok t"
    "free_blocks t = free_blocks s - {a}" "\<And>i. is_data t i \<longleftrightarrow> i = a \<or> is_data s i"
    by (rule indirect_slot [OF tx W ok h ind j(1) ne]) blast
  note e = storedD [OF t(9)]
  have z: "unat (get32 (bview s ?ind) (4 * j)) = 0" using fb(3) [of nb] nb unfolding j(2) file_block_indirect by simp
  have "bmap ip nb s = Inr (a, t)"
    using t(1-6) z data_ne_0 [OF ok ind] j x by (simp add: bmap_def kmonad_simps)
  moreover have a: "a \<noteq> ?ind" "a < sb_size (fs_sb s)" "a < 4294967296"
    using t(7) ind ds disk_okD(4) [OF ok] by (auto simp: free_blocks_def is_data_def)
  have li: "length (bview s ?ind) = BSIZE"
    using bview_length [OF inv, of ?ind] ind disk_okD(4) [OF ok] by (auto simp: is_data_def)
  have fbt: "file_block t x (NDIRECT + i) = (if i = j then a else file_block s x (NDIRECT + i))" if "i < NINDIRECT" for i
  proof (cases "i = j")
    case True
    then show ?thesis using j(1) li a(3) by (simp add: file_block_indirect e NINDIRECT_def BSIZE_def unat_of_nat)
  next
    case False
    then have "4 * j + 4 \<le> 4 * i \<or> 4 * i + 4 \<le> 4 * j" by linarith
    then show ?thesis using False by (simp add: file_block_indirect e)
  qed
  have fbn: "file_block t x bn = (if bn = nb then a else file_block s x bn)" if "bn < MAXFILE" for bn
    using that fbt [of "bn - NDIRECT"] nb j(2) by (cases "bn < NDIRECT") (auto simp: file_block_direct MAXFILE_def)
  have na: "file_block s x bn \<noteq> a" if "bn < nb" for bn
    using fb(1) [OF that] t(7) by (auto simp: is_data_def free_blocks_def)
  have "laid_out t x (Suc nb)"
    unfolding laid_out_def
  proof (intro conjI allI impI)
    show "inj_on (file_block t x) {..<Suc nb}"
      using fb(2) na by (rule inj_on_Suc) (assumption, rule fbn, use nb in simp)
    show "is_data t (file_block t x bn)" if "bn < Suc nb" for bn
      using that nb fb(1) t(12) by (auto simp: fbn less_Suc_eq)
    show "if Suc nb \<le> NDIRECT then ?ind = 0 else is_data t ?ind \<and> (\<forall>bn<Suc nb. file_block t x bn \<noteq> ?ind) \<and>
        (\<forall>bn. Suc nb \<le> bn \<and> bn < MAXFILE \<longrightarrow> file_block t x bn = 0)"
      using nb fb(1,3) ind t(12) a(1) by (auto simp: fbn less_Suc_eq)
  qed (use x nb in auto)
  moreover have "bview t bn = bview s bn" if "bn \<noteq> a" "bn \<notin> bitmap_blocks (fs_sb s)" "bn \<noteq> ?ind" for bn
    using that a(2) by (simp add: e alloc_view_other)
  moreover have "file_block t x nb = a" "\<And>bn. bn < nb \<Longrightarrow> file_block t x bn = file_block s x bn"
    using nb by (simp_all add: fbn)
  moreover have "bview t a = replicate BSIZE 0" using a(1) by (simp add: e alloc_view_def)
  moreover have "stored s ({a, ?ind} \<union> W) (bview t) t" "bheld t = {}"
    using t(9) h by (simp_all add: e(1)) (simp add: stored_def)
  ultimately show thesis using t(7,10-12) e(2,3) by (intro that [of a t]) auto
qed

lemma bmap_append_indirect:
  fixes s :: "'a fs_scheme"
  assumes tx: "in_tx s W (Suc k)" and W: "bitmap_blocks (fs_sb s) \<subseteq> W" "i_addrs (icache s ip) ! NDIRECT \<in> W" and ok: "disk_ok s" and h: "bheld s = {}"
    and lo: "laid_out s (icache s ip) nb" and nb: "NDIRECT < nb" "nb < MAXFILE" and ne: "free_blocks s \<noteq> {}"
  obtains a t where "bmap ip nb s = Inr (a, t)" "grown s ip nb a t" "fs_sb t = fs_sb s" "bheld t = {}"
    "in_tx t (insert a W) k" "icache t = icache s"
proof -
  let ?x = "icache s ip"
  note l = laid_outD [OF lo]
  obtain a t where t: "bmap ip nb s = Inr (a, t)" "icache t = icache s" "laid_out t ?x (Suc nb)" "disk_ok t"
    "file_block t ?x nb = a" "a \<in> free_blocks s" "bview t a = replicate BSIZE 0"
    "\<And>bn. bn < nb \<Longrightarrow> file_block t ?x bn = file_block s ?x bn"
    "\<And>bn. bn \<noteq> a \<Longrightarrow> bn \<notin> bitmap_blocks (fs_sb s) \<Longrightarrow> bn \<noteq> i_addrs ?x ! NDIRECT \<Longrightarrow> bview t bn = bview s bn"
    "free_blocks t = free_blocks s - {a}" "\<And>bn. is_data t bn \<longleftrightarrow> bn = a \<or> is_data s bn" "fs_sb t = fs_sb s" "bheld t = {}"
    "stored s ({a, i_addrs ?x ! NDIRECT} \<union> W) (bview t) t"
    by (rule grown_indirect [OF tx W(1) ok h refl l(1,2) less_imp_le [OF nb(1)] nb(2) _ l(5) _ _ ne])
      (use l(4) l(8-10) nb(1) in blast)+
  have "grown s ip nb a t"
    unfolding grown_def Let_def t(2)
  proof (intro conjI allI impI)
    show "card (free_blocks t) + (if nb = NDIRECT then 2 else 1) = card (free_blocks s)"
      using nb card_take [OF finite_free_blocks t(6,10)] by simp
    show "own_blocks t ?x (Suc nb) \<subseteq> own_blocks s ?x nb \<union> free_blocks s"
      using nb t(5,6,8) by (auto simp: own_blocks_def less_Suc_eq)
    show "bview t bn = bview s bn" if "bn \<notin> free_blocks s \<union> bitmap_blocks (fs_sb s) \<union> (if NDIRECT \<le> nb then {i_addrs ?x ! NDIRECT} else {})" for bn
      using that t(6) nb by (intro t(9)) auto
  qed (use t in auto)
  moreover have "in_tx t (insert a W) k"
    by (rule stored_in_tx [OF t(14) in_tx_insert [OF tx]]) (use W(2) in auto)
  ultimately show thesis using t by (intro that [of a t]) auto
qed

lemma get32_zero: "off + 3 < n \<Longrightarrow> get32 (replicate n 0) off = 0"
  by (simp add: get32_def)

lemma bmap_after_alloc:
  assumes "i_addrs (icache s ip) ! NDIRECT = 0" and "length (i_addrs (icache s ip)) = NDIRECT + 1"
    and "i_dev (icache s ip) = 1" and "NDIRECT \<le> bn" and "balloc 1 s = Inr (a, u)" and "a \<noteq> 0" and "icache u = icache s"
  shows "bmap ip bn s = bmap ip bn (upd_inode ip (\<lambda>x. x\<lparr>i_addrs := (i_addrs x)[NDIRECT := a]\<rparr>) u)"
  using assms by (simp add: bmap_def kmonad_simps upd_inode_views cong: if_cong)

lemma bmap_append_first_indirect:
  fixes s :: "'a fs_scheme"
  assumes tx: "in_tx s W (Suc (Suc k))" and W: "bitmap_blocks (fs_sb s) \<subseteq> W" and ok: "disk_ok s" and h: "bheld s = {}"
    and lo: "laid_out s (icache s ip) NDIRECT" and ne: "2 \<le> card (free_blocks s)"
  obtains a t where "bmap ip NDIRECT s = Inr (a, t)" "grown s ip NDIRECT a t" "fs_sb t = fs_sb s" "bheld t = {}"
    "in_tx t (insert a (insert (i_addrs (icache t ip) ! NDIRECT) W)) k"
proof -
  let ?x = "icache s ip"
  note l = laid_outD [OF lo]
  have "free_blocks s \<noteq> {}" using ne by auto
  then obtain i u where u: "balloc 1 s = Inr (i, u)" "i \<in> free_blocks s" "data_start (fs_sb s) \<le> i"
    "stored s (insert i W) (alloc_view s i) u" "disk_ok u" "free_blocks u = free_blocks s - {i}"
    "\<And>j. is_data u j \<longleftrightarrow> j = i \<or> is_data s j"
    by (rule balloc_takes [OF tx W ok]) (use h in auto)
  note e = storedD [OF u(4)]
  let ?f = "\<lambda>x. x\<lparr>i_addrs := (i_addrs x)[NDIRECT := i]\<rparr>"
  let ?u = "upd_inode ip ?f u" and ?y = "?f ?x"
  have y: "?y = icache ?u ip" "i_addrs ?y ! NDIRECT = i" using l(1) by (simp_all add: upd_inode_views e)
  have sz: "i < sb_size (fs_sb s)" "i \<noteq> 0" using u(2,3) by (auto simp: free_blocks_def data_start_def)
  have txu: "in_tx ?u (insert i W) (Suc k)"
    using stored_alloc_in_tx [OF u(4) tx] by (simp add: upd_inode_views)
  have c: "card (free_blocks u) + 1 = card (free_blocks s)" by (rule card_take [OF finite_free_blocks u(2,6)])
  have fb: "file_block ?u ?y bn = (if bn < NDIRECT then file_block s ?x bn else 0)" if "bn < MAXFILE" for bn
  proof (cases "bn < NDIRECT")
    case False
    define j where "j = bn - NDIRECT"
    have j: "bn = NDIRECT + j" "j < NINDIRECT" using that False by (auto simp: MAXFILE_def j_def)
    have "bview ?u i = replicate BSIZE 0" by (simp add: upd_inode_views e alloc_view_def)
    then show ?thesis using False j
      unfolding j(1) file_block_indirect y(2) by (simp add: get32_zero NINDIRECT_def BSIZE_def)
  qed (use l(1) in \<open>simp add: file_block_direct\<close>)
  have nd: "NDIRECT < MAXFILE" by (simp add: param_defs)
  have inj: "inj_on (file_block ?u ?y) {..<NDIRECT}" using l(5) nd by (simp add: inj_on_def fb)
  have dt: "is_data ?u (file_block ?u ?y bn) \<and> file_block ?u ?y bn \<noteq> i_addrs ?y ! NDIRECT" if "bn < NDIRECT" for bn
    using l(4) [OF that] that nd u(2,7) unfolding y(2) by (auto simp: fb upd_inode_views is_data_not_free)
  obtain a t where t: "bmap ip NDIRECT ?u = Inr (a, t)" "icache t = icache ?u" "laid_out t ?y (Suc NDIRECT)" "disk_ok t"
    "file_block t ?y NDIRECT = a" "a \<in> free_blocks ?u" "bview t a = replicate BSIZE 0"
    "\<And>bn. bn < NDIRECT \<Longrightarrow> file_block t ?y bn = file_block ?u ?y bn"
    "\<And>bn. bn \<noteq> a \<Longrightarrow> bn \<notin> bitmap_blocks (fs_sb ?u) \<Longrightarrow> bn \<noteq> i_addrs ?y ! NDIRECT \<Longrightarrow> bview t bn = bview ?u bn"
    "free_blocks t = free_blocks ?u - {a}" "\<And>bn. is_data t bn \<longleftrightarrow> bn = a \<or> is_data ?u bn" "fs_sb t = fs_sb ?u" "bheld t = {}"
    "stored ?u ({a, i_addrs ?y ! NDIRECT} \<union> insert i W) (bview t) t"
  proof (rule grown_indirect [OF txu _ _ _ y(1) _ _ le_refl nd dt inj])
    show "bitmap_blocks (fs_sb ?u) \<subseteq> insert i W" using W by (auto simp: upd_inode_views e)
    show "bheld ?u = {}" using u(4) h by (simp add: upd_inode_views stored_def)
    show "is_data ?u (i_addrs ?y ! NDIRECT)" unfolding y(2) by (simp add: upd_inode_views u(7))
    show "free_blocks ?u \<noteq> {}" using ne c by (auto simp: upd_inode_views)
  qed (use l(1,2) u(5) fb in \<open>auto simp: upd_inode_views\<close>)
  have b: "bmap ip NDIRECT s = Inr (a, t)"
    using bmap_after_alloc [OF l(7) [OF le_refl] l(1,2) le_refl u(1) sz(2) e(2)] t(1) by simp
  have ct: "icache t ip = ?y" using t(2) y(1) by simp
  have fu: "free_blocks ?u = free_blocks s - {i}" using u(6) by (simp add: upd_inode_views)
  have "grown s ip NDIRECT a t"
    unfolding grown_def Let_def ct
  proof (intro conjI allI impI)
    show "card (free_blocks t) + (if NDIRECT = NDIRECT then 2 else 1) = card (free_blocks s)"
      using c card_take [OF finite_free_blocks t(6,10)] by (simp add: upd_inode_views)
    show "own_blocks t ?y (Suc NDIRECT) \<subseteq> own_blocks s ?x NDIRECT \<union> free_blocks s"
      using t(5,6,8) u(2) nd y(2) fu by (auto simp: own_blocks_def less_Suc_eq fb)
    show "bview t bn = bview s bn"
      if "bn \<notin> free_blocks s \<union> bitmap_blocks (fs_sb s) \<union> (if NDIRECT \<le> NDIRECT then {i_addrs ?y ! NDIRECT} else {})" for bn
    proof -
      have n: "bn \<noteq> a" "bn \<noteq> i" "bn \<notin> bitmap_blocks (fs_sb s)" using that t(6) u(2) fu by auto
      then show ?thesis
        using t(9) [of bn] sz(1) unfolding y(2) by (simp add: upd_inode_views e alloc_view_other)
    qed
  qed (use t u y(2) fu fb nd in \<open>auto simp: upd_inode_views e\<close>)
  moreover have "in_tx t (insert a (insert i W)) k"
    by (rule stored_in_tx [OF t(14) in_tx_insert [OF txu]]) (use y(2) in auto)
  ultimately show thesis using b t(12,13) ct y(2) by (intro that [of a t]) (auto simp: upd_inode_views e)
qed

text \<open>A step on file \<open>ip\<close> that extends it from \<open>nb\<close> to \<open>nb'\<close> blocks: other inodes, the blocks of other
  files, the inode blocks and the log area keep their contents.\<close>

definition file_step :: "'a fs_scheme \<Rightarrow> nat \<Rightarrow> nat \<Rightarrow> 'a fs_scheme \<Rightarrow> nat \<Rightarrow> bool" where
  "file_step s ip nb t nb' \<longleftrightarrow> (let x = icache s ip; y = icache t ip in
     y = x\<lparr>i_addrs := i_addrs y\<rparr> \<and> icache t = (icache s)(ip := y) \<and> laid_out t y nb' \<and> disk_ok t \<and>
     fs_sb t = fs_sb s \<and> bheld t = {} \<and> free_blocks t \<subseteq> free_blocks s \<and>
     (\<forall>bn. is_data s bn \<longrightarrow> is_data t bn) \<and> own_blocks t y nb' \<subseteq> own_blocks s x nb \<union> free_blocks s \<and>
     (\<forall>bn. bn \<notin> own_blocks s x nb \<union> free_blocks s \<union> bitmap_blocks (fs_sb s) \<longrightarrow> bview t bn = bview s bn))"

lemma file_stepD:
  assumes "file_step s ip nb t nb'"
  shows "icache t ip = (icache s ip)\<lparr>i_addrs := i_addrs (icache t ip)\<rparr>" "icache t = (icache s)(ip := icache t ip)"
    "laid_out t (icache t ip) nb'" "disk_ok t" "fs_sb t = fs_sb s" "bheld t = {}" "free_blocks t \<subseteq> free_blocks s"
    "is_data s bn \<Longrightarrow> is_data t bn" "own_blocks t (icache t ip) nb' \<subseteq> own_blocks s (icache s ip) nb \<union> free_blocks s"
    "bn \<notin> own_blocks s (icache s ip) nb \<union> free_blocks s \<union> bitmap_blocks (fs_sb s) \<Longrightarrow> bview t bn = bview s bn"
proof -
  show "icache t ip = (icache s ip)\<lparr>i_addrs := i_addrs (icache t ip)\<rparr>" "icache t = (icache s)(ip := icache t ip)"
    "laid_out t (icache t ip) nb'" "disk_ok t" "fs_sb t = fs_sb s" "bheld t = {}" "free_blocks t \<subseteq> free_blocks s"
    "own_blocks t (icache t ip) nb' \<subseteq> own_blocks s (icache s ip) nb \<union> free_blocks s"
    using assms unfolding file_step_def Let_def by blast+
  show "is_data t bn" if "is_data s bn" using assms that unfolding file_step_def Let_def by blast
  show "bview t bn = bview s bn"
    if "bn \<notin> own_blocks s (icache s ip) nb \<union> free_blocks s \<union> bitmap_blocks (fs_sb s)"
    using assms that unfolding file_step_def Let_def by blast
qed

lemma file_step_trans:
  assumes "file_step s ip i t j" and "file_step t ip j u k"
  shows "file_step s ip i u k"
proof -
  note a = file_stepD [OF assms(1)] and b = file_stepD [OF assms(2)]
  have ic: "icache u = (icache s)(ip := icache u ip)"
    using b(2) a(2) by (metis fun_upd_upd)
  have x: "icache u ip = (icache s ip)\<lparr>i_addrs := i_addrs (icache u ip)\<rparr>"
    using b(1) a(1) by (metis inode.update_convs(12) inode.surjective)
  have v: "bview u bn = bview s bn"
    if "bn \<notin> own_blocks s (icache s ip) i \<union> free_blocks s \<union> bitmap_blocks (fs_sb s)" for bn
  proof -
    have "bn \<notin> own_blocks t (icache t ip) j \<union> free_blocks t \<union> bitmap_blocks (fs_sb t)"
      using that a(5,7,9) by auto
    then show ?thesis using that b(10) a(10) by metis
  qed
  show ?thesis
    unfolding file_step_def Let_def using ic x v a b by (intro conjI allI impI) auto
qed

lemma file_step_refl:
  "laid_out s (icache s ip) nb \<Longrightarrow> disk_ok s \<Longrightarrow> bheld s = {} \<Longrightarrow> file_step s ip nb s nb"
  by (simp add: file_step_def)

lemma grown_file_step:
  fixes s t :: "'a fs_scheme"
  assumes g: "grown s ip nb a t" and "fs_sb t = fs_sb s" "bheld t = {}" and lo: "laid_out s (icache s ip) nb"
  shows "file_step s ip nb t (Suc nb)"
proof -
  let ?x = "icache s ip" and ?y = "icache t ip"
  have g': "laid_out t ?y (Suc nb)" "own_blocks t ?y (Suc nb) \<subseteq> own_blocks s ?x nb \<union> free_blocks s"
    using g unfolding grown_def Let_def by blast+
  have g3: "bview t bn = bview s bn"
    if "bn \<notin> free_blocks s \<union> bitmap_blocks (fs_sb s) \<union> (if NDIRECT \<le> nb then {i_addrs ?y ! NDIRECT} else {})" for bn
    using g that unfolding grown_def Let_def by blast
  have g4: "?y = ?x\<lparr>i_addrs := i_addrs ?y\<rparr>" "icache t = (icache s)(ip := ?y)" "disk_ok t"
    "free_blocks t \<subseteq> free_blocks s" "\<forall>bn. is_data s bn \<longrightarrow> is_data t bn"
    using g unfolding grown_def Let_def by blast+
  have "i_addrs ?y ! NDIRECT \<in> own_blocks s ?x nb \<union> free_blocks s" if "NDIRECT \<le> nb"
    using that g'(2) by (auto simp: own_blocks_def)
  then have v: "bview t bn = bview s bn" if "bn \<notin> own_blocks s ?x nb \<union> free_blocks s \<union> bitmap_blocks (fs_sb s)" for bn
    using that by (intro g3) auto
  show ?thesis
    unfolding file_step_def Let_def using assms(2,3) v g' g4 by blast
qed

end
