(* ===== verification/Fsfile.thy ===== *)
theory Fsfile
  imports Fsdata
begin

text \<open>
  Reading and writing files.  \<open>bmap\<close> on a file of \<open>nb\<close> blocks finds a block or appends one; the loop of \<open>writei\<close>
  is a sequence of such steps (\<open>file_step\<close>), each of which leaves other inodes, the blocks of other files and the
  inode blocks alone.  \<open>pot\<close> accounts for the indirect block that the file may still need, \<open>nblk\<close> and
  \<open>nbend\<close> count the blocks a range of bytes touches.  The example disk at the end has five free blocks.
\<close>


section \<open>Writing\<close>

text \<open>The log has to hold the indirect block as long as the file has none.\<close>

definition pot :: "nat \<Rightarrow> nat" where
  "pot nb = (if nb \<le> NDIRECT then 1 else 0)"

definition log_set :: "'a fs_scheme \<Rightarrow> nat \<Rightarrow> nat \<Rightarrow> nat set \<Rightarrow> bool" where
  "log_set s ip nb W \<longleftrightarrow> bitmap_blocks (fs_sb s) \<subseteq> W \<and> (NDIRECT < nb \<longrightarrow> i_addrs (icache s ip) ! NDIRECT \<in> W)"

lemma laid_out_mapped:
  fixes s :: "'a fs_scheme"
  assumes tx: "in_tx s W k" and ok: "disk_ok s" and h: "bheld s = {}" and lo: "laid_out s x nb" and bn: "bn < nb"
  shows "mapped s x bn"
proof -
  note l = laid_outD [OF lo]
  have r: "may_read s c \<and> c \<noteq> 0" if "is_data s c" for c
    using that data_ne_0 [OF ok that] disk_okD(4) [OF ok] h by (auto intro!: in_tx_may_read [OF tx] simp: is_data_def)
  show ?thesis using r [OF l(4) [OF bn]] r [OF l(8)] l(3) bn by (auto simp: mapped_def)
qed

lemma file_byte_eq:
  assumes "file_block t y (i div BSIZE) = file_block s x (i div BSIZE)"
    and "bview t (file_block s x (i div BSIZE)) = bview s (file_block s x (i div BSIZE))"
  shows "file_byte t y i = file_byte s x i"
  using assms by (simp add: file_byte_def)

lemma div_BSIZE_less: "i div BSIZE < n \<longleftrightarrow> i < n * BSIZE"
  by (simp add: div_less_iff_less_mult BSIZE_def)

text \<open>What an append leaves in the file: the bytes it had and a block of zeros.\<close>

lemma grown_bytes:
  fixes s t :: "'a fs_scheme"
  assumes g: "grown s ip nb a t" and ok: "disk_ok s" and lo: "laid_out s (icache s ip) nb" and i: "i < Suc nb * BSIZE"
  shows "file_byte t (icache t ip) i = (if i < nb * BSIZE then file_byte s (icache s ip) i else 0)"
proof -
  let ?x = "icache s ip" and ?y = "icache t ip"
  have g': "laid_out t ?y (Suc nb)" "file_block t ?y nb = a" "bview t a = replicate BSIZE 0"
    "\<And>bn. bn < nb \<Longrightarrow> file_block t ?y bn = file_block s ?x bn"
    "\<And>bn. bn \<notin> free_blocks s \<union> bitmap_blocks (fs_sb s) \<union> (if NDIRECT \<le> nb then {i_addrs ?y ! NDIRECT} else {}) \<Longrightarrow>
      bview t bn = bview s bn"
    using g unfolding grown_def Let_def by blast+
  show ?thesis
  proof (cases "i < nb * BSIZE")
    case True
    let ?b = "i div BSIZE"
    have b: "?b < nb" using True by (simp add: div_BSIZE_less)
    have d: "is_data s (file_block s ?x ?b)" by (rule laid_outD(4) [OF lo b])
    have "NDIRECT \<le> nb \<Longrightarrow> file_block s ?x ?b \<noteq> i_addrs ?y ! NDIRECT"
      using laid_outD(9) [OF g'(1), of ?b] b g'(4) [OF b] by simp
    then have "bview t (file_block s ?x ?b) = bview s (file_block s ?x ?b)"
      using is_data_not_free [OF d] is_data_not_bitmap [OF ok d] by (intro g'(5)) auto
    then show ?thesis using True file_byte_eq [OF g'(4) [OF b]] by simp
  next
    case False
    then have "\<not> i div BSIZE < nb" "i div BSIZE < Suc nb" using i by (auto simp: div_BSIZE_less)
    then have "i div BSIZE = nb" by simp
    then show ?thesis using False g'(2,3) by (simp add: file_byte_def BSIZE_def)
  qed
qed

lemma bmap_step:
  fixes s :: "'a fs_scheme"
  assumes tx: "in_tx s W (Suc k + pot nb)" and W: "log_set s ip nb W" and ok: "disk_ok s" and h: "bheld s = {}"
    and lo: "laid_out s (icache s ip) nb" and bn: "bn \<le> nb" "bn < MAXFILE"
    and fr: "bn = nb \<Longrightarrow> 1 + pot nb \<le> card (free_blocks s)"
  defines "nb' \<equiv> max nb (Suc bn)"
  obtains a t W' where "bmap ip bn s = Inr (a, t)" "file_step s ip nb t nb'" "file_block t (icache t ip) bn = a"
    "\<forall>i < nb' * BSIZE. file_byte t (icache t ip) i = (if i < nb * BSIZE then file_byte s (icache s ip) i else 0)"
    "log_set t ip nb' W'" "in_tx t W' (k + pot nb')" "a \<in> W'"
    "card (free_blocks t) + pot nb + (nb' - nb) = card (free_blocks s) + pot nb'"
proof (cases "bn < nb")
  case True
  then have nb': "nb' = nb" by (simp add: nb'_def)
  have mp: "mapped s (icache s ip) bn" by (rule laid_out_mapped [OF tx ok h lo True])
  have inv: "bcache_inv s" and li: "log_inv s" using tx by (auto simp: in_tx_def log_inv_def)
  obtain t where t: "bmap ip bn s = Inr (file_block s (icache s ip) bn, t)" "same_blocks s t"
    by (rule bmap_mapped [OF inv laid_outD(2) [OF lo] mp])
  have st: "stored s {} (bview s) t" by (rule same_stored [OF li t(2)])
  note e = storedD [OF st] and f = same_file [OF t(2)]
  have u: "used t = used s" "free_blocks t = free_blocks s" "is_data t = is_data s"
    by (simp_all add: fun_eq_iff used_def free_blocks_def is_data_def e)
  have o: "own_blocks t = own_blocks s" "laid_out t = laid_out s" by (simp_all add: fun_eq_iff own_blocks_def laid_out_def f u)
  have okt: "disk_ok t" by (rule disk_ok_stored [OF ok st]) (simp add: u)
  have ht: "bheld t = {}" using st h by (simp add: stored_def)
  let ?a = "file_block s (icache s ip) bn"
  show thesis
  proof (rule that [OF t(1), of "insert ?a W"])
    show "file_step s ip nb t nb'"
      unfolding file_step_def Let_def nb' using e u o lo okt ht by simp
    show "in_tx t (insert ?a W) (k + pot nb')"
      unfolding nb' by (rule in_tx_insert) (rule stored_in_tx [OF st], use tx in simp_all)
  qed (use W f e u nb' in \<open>auto simp: log_set_def\<close>)
next
  case False
  then have nb: "bn = nb" "nb' = Suc nb" "nb < MAXFILE" using bn by (auto simp: nb'_def)
  have B: "bitmap_blocks (fs_sb s) \<subseteq> W" using W by (simp add: log_set_def)
  have c1: "free_blocks s \<noteq> {}" using fr nb by auto
  consider (direct) "nb < NDIRECT" | (first) "nb = NDIRECT" | (more) "NDIRECT < nb" by linarith
  then obtain a t W' where t: "bmap ip nb s = Inr (a, t)" "grown s ip nb a t" "fs_sb t = fs_sb s" "bheld t = {}"
    "in_tx t W' (k + pot (Suc nb))" "a \<in> W'" "W \<subseteq> W'" "NDIRECT \<le> nb \<Longrightarrow> i_addrs (icache t ip) ! NDIRECT \<in> W'"
  proof cases
    case direct
    then have p: "pot (Suc nb) = 1" "pot nb = 1" by (auto simp: pot_def)
    obtain a t where t: "bmap ip nb s = Inr (a, t)" "grown s ip nb a t" "fs_sb t = fs_sb s" "bheld t = {}"
      "in_tx t (insert a W) (k + pot nb)"
      by (rule bmap_append_direct [OF _ B ok h lo direct c1]) (use tx in simp)
    show ?thesis by (rule that [OF t(1-4), of "insert a W"]) (use t(5) p direct in auto)
  next
    case first
    then have p: "pot nb = 1" "pot (Suc nb) = 0" by (auto simp: pot_def)
    obtain a t where t: "bmap ip NDIRECT s = Inr (a, t)" "grown s ip NDIRECT a t" "fs_sb t = fs_sb s" "bheld t = {}"
      "in_tx t (insert a (insert (i_addrs (icache t ip) ! NDIRECT) W)) k"
      by (rule bmap_append_first_indirect [OF _ B ok h]) (use tx p lo first fr nb in auto)
    show ?thesis
      by (rule that [of a t "insert a (insert (i_addrs (icache t ip) ! NDIRECT) W)"]) (use t p first in auto)
  next
    case more
    then have p: "pot (Suc nb) = 0" "pot nb = 0" by (auto simp: pot_def)
    have iW: "i_addrs (icache s ip) ! NDIRECT \<in> W" using W more by (simp add: log_set_def)
    obtain a t where t: "bmap ip nb s = Inr (a, t)" "grown s ip nb a t" "fs_sb t = fs_sb s" "bheld t = {}"
      "in_tx t (insert a W) k" "icache t = icache s"
      by (rule bmap_append_indirect [OF _ B iW ok h lo more nb(3) c1]) (use tx p in auto)
    show ?thesis by (rule that [OF t(1-4), of "insert a W"]) (use t(5,6) p iW in auto)
  qed
  note g = t(2) [unfolded grown_def Let_def]
  show thesis
    unfolding nb(1)
  proof (rule that [OF _ _ _ _ _ _ t(6), unfolded nb(1,2), OF t(1)])
    show "file_step s ip nb t (Suc nb)" by (rule grown_file_step [OF t(2-4) lo])
    show "file_block t (icache t ip) nb = a" using g by blast
    show "\<forall>i < Suc nb * BSIZE. file_byte t (icache t ip) i = (if i < nb * BSIZE then file_byte s (icache s ip) i else 0)"
      using grown_bytes [OF t(2) ok lo] by blast
    show "log_set t ip (Suc nb) W'" using B t(3,7,8) by (auto simp: log_set_def)
    show "in_tx t W' (k + pot (Suc nb))" by (rule t(5))
    have "card (free_blocks t) + (if nb = NDIRECT then 2 else 1) = card (free_blocks s)" using g by blast
    then show "card (free_blocks t) + pot nb + (Suc nb - nb) = card (free_blocks s) + pot (Suc nb)"
      by (auto simp: pot_def split: if_splits)
  qed
qed

text \<open>The middle of the loop body of \<open>writei\<close>: bytes are stored into a block the file has.\<close>

lemma store_block:
  fixes s :: "'a fs_scheme"
  assumes tx: "in_tx s W k" and W: "log_set s ip nb W" and ok: "disk_ok s" and h: "bheld s = {}"
    and lo: "laid_out s (icache s ip) nb" and bn: "bn < nb" and a: "file_block s (icache s ip) bn = a" "a \<in> W"
    and r: "r + length bs \<le> BSIZE"
  obtains b u v w t where "bread 1 a s = Inr (b, u)" "buf_store b (\<lambda>d. put_bytes d r bs) u = Inr ((), v)"
    "log_write b v = Inr ((), w)" "brelse b w = Inr ((), t)" "icache t = icache s" "file_step s ip nb t nb"
    "free_blocks t = free_blocks s" "log_set t ip nb W" "in_tx t W k"
    "\<forall>i < nb * BSIZE. file_byte t (icache t ip) i =
      (if i div BSIZE = bn \<and> r \<le> i mod BSIZE \<and> i mod BSIZE < r + length bs then bs ! (i mod BSIZE - r)
       else file_byte s (icache s ip) i)"
proof -
  let ?x = "icache s ip"
  note l = laid_outD [OF lo]
  have d: "is_data s a" using l(4) [OF bn] a by simp
  have ad: "a < disksize s" "data_start (fs_sb s) \<le> a" using d disk_okD(4) [OF ok] by (auto simp: is_data_def)
  have hm: "home s a" by (rule disk_ok_home [OF ok]) (use ad disk_okD(3,8) [OF ok] in linarith)
  have inv: "bcache_inv s" using tx by (simp add: in_tx_def log_inv_def)
  have len: "length (bview s a) = BSIZE" by (rule bview_length [OF inv ad(1)])
  obtain b u v w t where t: "bread 1 a s = Inr (b, u)" "buf_store b (\<lambda>d. put_bytes d r bs) u = Inr ((), v)"
    "log_write b v = Inr ((), w)" "brelse b w = Inr ((), t)" "stored s {a} ((bview s)(a := put_bytes (bview s a) r bs)) t"
    by (rule write_step [where f = "\<lambda>d. put_bytes d r bs", OF tx ad(1) _ hm]) (use h len r in auto)
  note e = storedD [OF t(5)]
  have ub: "used t j = used s j" if "j < sb_size (fs_sb s)" for j
    by (rule used_same) (use is_data_not_bitmap [OF ok d] BBLOCK_in [OF that] e in auto)
  then have u: "free_blocks t = free_blocks s" "is_data t = is_data s"
    by (auto simp: fun_eq_iff free_blocks_def is_data_def e)
  have okt: "disk_ok t" by (rule disk_ok_stored [OF ok t(5)]) (simp add: ub)
  have ht: "bheld t = {}" using t(5) h by (simp add: stored_def)
  have ind: "NDIRECT < nb \<Longrightarrow> i_addrs ?x ! NDIRECT \<noteq> a" using l(9) [OF _ bn] a by auto
  have fb: "file_block t ?x i = file_block s ?x i" if "i < NDIRECT \<or> NDIRECT < nb" for i
    using that ind by (auto simp: file_block_def e)
  have fn: "file_block t ?x i = file_block s ?x i" if "i < nb" for i using fb [of i] that by linarith
  have lot: "laid_out t ?x nb"
    using lo fb fn unfolding laid_out_def u by (auto simp: inj_on_def split: if_splits)
  have own: "own_blocks t ?x nb = own_blocks s ?x nb" by (auto simp: own_blocks_def fn)
  have "file_step s ip nb t nb"
    unfolding file_step_def Let_def e(2) using lot okt ht u own e bn a by (auto simp: own_blocks_def)
  moreover have "file_byte t ?x i = (if i div BSIZE = bn \<and> r \<le> i mod BSIZE \<and> i mod BSIZE < r + length bs
      then bs ! (i mod BSIZE - r) else file_byte s ?x i)" if "i < nb * BSIZE" for i
  proof -
    have ib: "i div BSIZE < nb" using that by (simp add: div_BSIZE_less)
    have im: "i mod BSIZE < length (bview s a)" using len by (simp add: BSIZE_def)
    have "file_block s ?x (i div BSIZE) = a \<longleftrightarrow> i div BSIZE = bn"
      using inj_onD [OF l(5), of "i div BSIZE" bn] ib bn a(1) by auto
    then show ?thesis
      using nth_put_bytes [of r bs "bview s a" "i mod BSIZE"] r im len by (auto simp: file_byte_def fn [OF ib] e)
  qed
  moreover have "in_tx t W k" by (rule stored_in_tx [OF t(5) tx]) (use a in simp)
  ultimately show thesis using t W u e by (intro that [OF t(1-4)]) (auto simp: log_set_def)
qed

text \<open>The blocks a write of \<open>r\<close> bytes at \<open>off\<close> touches, and the blocks a file of \<open>nb\<close> blocks has after it.\<close>

definition nblk :: "nat \<Rightarrow> nat \<Rightarrow> nat" where
  "nblk off r = (if r = 0 then 0 else Suc ((off + r - 1) div BSIZE) - off div BSIZE)"

definition nbend :: "nat \<Rightarrow> nat \<Rightarrow> nat \<Rightarrow> nat" where
  "nbend off r nb = (if r = 0 then nb else max nb (Suc ((off + r - 1) div BSIZE)))"

lemma chunk:
  assumes r: "0 < r" and m: "m = min r (BSIZE - off mod BSIZE)"
  shows "0 < m" "m \<le> r" "off mod BSIZE + m \<le> BSIZE" "nblk off r = Suc (nblk (off + m) (r - m))"
    "nbend (off + m) (r - m) (max nb (Suc (off div BSIZE))) = nbend off r nb" "off + m \<le> Suc (off div BSIZE) * BSIZE"
    "i div BSIZE = off div BSIZE \<and> off mod BSIZE \<le> i mod BSIZE \<and> i mod BSIZE < off mod BSIZE + m \<longleftrightarrow> off \<le> i \<and> i < off + m"
    "off \<le> i \<Longrightarrow> i < off + m \<Longrightarrow> i mod BSIZE - off mod BSIZE = i - off"
proof -
  have B: "off mod BSIZE < BSIZE" by (simp add: BSIZE_def)
  show m1: "0 < m" "m \<le> r" "off mod BSIZE + m \<le> BSIZE" using r m B by auto
  have o: "off = off mod BSIZE + off div BSIZE * BSIZE" by simp
  show "off + m \<le> Suc (off div BSIZE) * BSIZE" unfolding mult_Suc using o m1(3) by linarith
  have in_blk: "(off + k) div BSIZE = off div BSIZE \<and> (off + k) mod BSIZE = off mod BSIZE + k" if "k < m" for k
  proof -
    have "off + k = (off mod BSIZE + k) + off div BSIZE * BSIZE" using o by linarith
    then show ?thesis using block_arith [of "off mod BSIZE + k" "off div BSIZE"] that m1(3) by simp
  qed
  have last: "(off + m - 1) div BSIZE = off div BSIZE" using in_blk [of "m - 1"] m1 by simp
  show "nblk off r = Suc (nblk (off + m) (r - m))"
    "nbend (off + m) (r - m) (max nb (Suc (off div BSIZE))) = nbend off r nb"
  proof -
    have "nblk off r = Suc (nblk (off + m) (r - m)) \<and>
      nbend (off + m) (r - m) (max nb (Suc (off div BSIZE))) = nbend off r nb"
    proof (cases "m = r")
      case True
      then show ?thesis using r last by (simp add: nblk_def nbend_def)
    next
      case False
      then have "m = BSIZE - off mod BSIZE" using m by (simp add: min_def split: if_splits)
      then have "off + m = Suc (off div BSIZE) * BSIZE" unfolding mult_Suc using o B by linarith
      then have d: "(off + m) div BSIZE = Suc (off div BSIZE)" by (simp add: BSIZE_def)
      have e: "off + m + (r - m) - 1 = off + r - 1" using m1 by simp
      have "(off + m) div BSIZE \<le> (off + r - 1) div BSIZE" using False m1(2) by (intro div_le_mono) linarith
      then show ?thesis using r False m1(2) d unfolding nblk_def nbend_def e by auto
    qed
    then show "nblk off r = Suc (nblk (off + m) (r - m))"
      "nbend (off + m) (r - m) (max nb (Suc (off div BSIZE))) = nbend off r nb" by blast+
  qed
  have *: "(i div BSIZE = off div BSIZE \<and> off mod BSIZE \<le> i mod BSIZE \<and> i mod BSIZE < off mod BSIZE + m \<longleftrightarrow> off \<le> i \<and> i < off + m) \<and>
      (off \<le> i \<and> i < off + m \<longrightarrow> i mod BSIZE - off mod BSIZE = i - off)"
  proof (cases "off \<le> i \<and> i < off + m")
    case True
    then show ?thesis using in_blk [of "i - off"] by auto
  next
    case False
    have "i = i mod BSIZE + i div BSIZE * BSIZE" by simp
    then have "\<not> (i div BSIZE = off div BSIZE \<and> off mod BSIZE \<le> i mod BSIZE \<and> i mod BSIZE < off mod BSIZE + m)"
      using False o by (metis add.commute add.left_commute add_le_cancel_right add_less_cancel_right)
    then show ?thesis using False by blast
  qed
  show "i div BSIZE = off div BSIZE \<and> off mod BSIZE \<le> i mod BSIZE \<and> i mod BSIZE < off mod BSIZE + m \<longleftrightarrow> off \<le> i \<and> i < off + m"
    using * by blast
  show "i mod BSIZE - off mod BSIZE = i - off" if "off \<le> i" "i < off + m" using * that by blast
qed

lemma nbend_ge: "nb \<le> nbend off r nb"
  by (simp add: nbend_def)

text \<open>One iteration of the loop of \<open>writei\<close>.\<close>

lemma write_chunk:
  fixes s :: "'a fs_scheme"
  assumes tx: "in_tx s W (Suc k + pot nb)" and W: "log_set s ip nb W" and ok: "disk_ok s" and h: "bheld s = {}"
    and lo: "laid_out s (icache s ip) nb" and bn: "off div BSIZE \<le> nb" "off div BSIZE < MAXFILE"
    and fr: "off div BSIZE = nb \<Longrightarrow> 1 + pot nb \<le> card (free_blocks s)" and r: "0 < r"
    and m: "m = min r (BSIZE - off mod BSIZE)" and lb: "length bs = m"
  defines "nb1 \<equiv> max nb (Suc (off div BSIZE))"
  obtains a u b v w y t W' where "bmap ip (off div BSIZE) s = Inr (a, u)" "bread 1 a u = Inr (b, v)"
    "buf_store b (\<lambda>d. put_bytes d (off mod BSIZE) bs) v = Inr ((), w)" "log_write b w = Inr ((), y)"
    "brelse b y = Inr ((), t)" "file_step s ip nb t nb1" "log_set t ip nb1 W'" "in_tx t W' (k + pot nb1)"
    "card (free_blocks t) + pot nb + (nb1 - nb) = card (free_blocks s) + pot nb1"
    "\<forall>i < nb1 * BSIZE. file_byte t (icache t ip) i = (if off \<le> i \<and> i < off + m then bs ! (i - off)
       else if i < nb * BSIZE then file_byte s (icache s ip) i else 0)"
proof -
  let ?bn = "off div BSIZE"
  note c = chunk [OF r m]
  obtain a u W1 where u: "bmap ip ?bn s = Inr (a, u)" "file_step s ip nb u nb1" "file_block u (icache u ip) ?bn = a"
    "\<forall>i < nb1 * BSIZE. file_byte u (icache u ip) i = (if i < nb * BSIZE then file_byte s (icache s ip) i else 0)"
    "log_set u ip nb1 W1" "in_tx u W1 (k + pot nb1)" "a \<in> W1"
    "card (free_blocks u) + pot nb + (nb1 - nb) = card (free_blocks s) + pot nb1"
    unfolding nb1_def by (rule bmap_step [OF tx W ok h lo bn fr]) blast
  note fu = file_stepD [OF u(2)]
  have bn1: "?bn < nb1" and lb1: "off mod BSIZE + length bs \<le> BSIZE" using c(3) lb by (auto simp: nb1_def)
  obtain b v w y t where t: "bread 1 a u = Inr (b, v)" "buf_store b (\<lambda>d. put_bytes d (off mod BSIZE) bs) v = Inr ((), w)"
    "log_write b w = Inr ((), y)" "brelse b y = Inr ((), t)" "icache t = icache u" "file_step u ip nb1 t nb1"
    "free_blocks t = free_blocks u" "log_set t ip nb1 W1" "in_tx t W1 (k + pot nb1)"
    "\<forall>i < nb1 * BSIZE. file_byte t (icache t ip) i =
      (if i div BSIZE = ?bn \<and> off mod BSIZE \<le> i mod BSIZE \<and> i mod BSIZE < off mod BSIZE + length bs
       then bs ! (i mod BSIZE - off mod BSIZE) else file_byte u (icache u ip) i)"
    by (rule store_block [OF u(6,5) fu(4,6,3) bn1 u(3,7) lb1])
  have "file_byte t (icache t ip) i = (if off \<le> i \<and> i < off + m then bs ! (i - off)
      else if i < nb * BSIZE then file_byte s (icache s ip) i else 0)" if "i < nb1 * BSIZE" for i
    using that t(10) u(4) c(7) [of i] c(8) [of i] by (auto simp: lb)
  then show thesis
    using that [OF u(1) t(1-4) file_step_trans [OF u(2) t(6)] t(8,9)] u(8) t(7) by auto
qed

lemma writei_loop_correct:
  fixes s :: "'a fs_scheme"
  assumes "in_tx s W (nblk off (n - tot) + k + pot nb)" and "log_set s ip nb W" and "disk_ok s" and "bheld s = {}"
    and "laid_out s (icache s ip) nb" and "tot \<le> n" "n \<le> length src" "off \<le> nb * BSIZE" "off + (n - tot) \<le> MAXFILE * BSIZE"
    and "nb < nbend off (n - tot) nb \<Longrightarrow> nbend off (n - tot) nb - nb + pot nb \<le> card (free_blocks s)"
  shows "\<exists>t W'. writei_loop ip src n tot off s = Inr (off + (n - tot), t) \<and>
    file_step s ip nb t (nbend off (n - tot) nb) \<and> in_tx t W' (k + pot (nbend off (n - tot) nb)) \<and>
    (\<forall>i < nbend off (n - tot) nb * BSIZE. file_byte t (icache t ip) i =
      (if off \<le> i \<and> i < off + (n - tot) then src ! (tot + (i - off))
       else if i < nb * BSIZE then file_byte s (icache s ip) i else 0))"
  using assms
proof (induction ip src n tot off arbitrary: s W nb rule: writei_loop.induct)
  case (1 ip src n tot off)
  note tx = 1(2) and W = 1(3) and ok = 1(4) and h = 1(5) and lo = 1(6) and tn = 1(7) and src = 1(8) and ob = 1(9)
    and om = 1(10) and fr = 1(11)
  show ?case
  proof (cases "tot < n")
    case False
    then have "writei_loop ip src n tot off s = Inr (off, s)" by (subst writei_loop.simps) (simp add: kmonad_simps)
    then show ?thesis using False tx file_step_refl [OF lo ok h] by (auto simp: nbend_def nblk_def intro!: exI [of _ W])
  next
    case True
    define m where "m = min (n - tot) (BSIZE - off mod BSIZE)"
    define bn where "bn = off div BSIZE"
    define nb1 where "nb1 = max nb (Suc bn)"
    let ?e = "nbend off (n - tot) nb"
    have r0: "0 < n - tot" using True by simp
    note c = chunk [OF r0 m_def]
    have e1: "nbend (off + m) (n - (tot + m)) nb1 = ?e" "n - tot - m = n - (tot + m)"
      using c(5) [of nb] by (simp_all add: nb1_def bn_def)
    have e2: "off + m + (n - (tot + m)) = off + (n - tot)" using c(2) by simp
    have bn: "bn \<le> nb" "bn < MAXFILE"
    proof -
      have "bn * BSIZE \<le> off" by (simp add: bn_def)
      then have "bn * BSIZE \<le> nb * BSIZE" using ob by linarith
      then show "bn \<le> nb" by (simp add: BSIZE_def)
      have "off < MAXFILE * BSIZE" using om r0 by linarith
      then show "bn < MAXFILE" by (simp add: bn_def div_BSIZE_less)
    qed
    have ge: "nb1 \<le> ?e" using nbend_ge [of nb1 "off + m" "n - (tot + m)"] e1 by simp
    have fr1: "1 + pot nb \<le> card (free_blocks s)" if "bn = nb"
      using fr that ge by (simp add: nb1_def)
    have tx1: "in_tx s W (Suc (nblk (off + m) (n - (tot + m)) + k) + pot nb)" using tx c(4) e1 by simp
    let ?bs = "get_bytes src tot m"
    have lb: "length ?bs = m" "\<And>j. j < m \<Longrightarrow> ?bs ! j = src ! (tot + j)" using c(2) src tn by (simp_all add: get_bytes_def)
    obtain a u b v w y t W1 where t: "bmap ip bn s = Inr (a, u)" "bread 1 a u = Inr (b, v)"
      "buf_store b (\<lambda>d. put_bytes d (off mod BSIZE) ?bs) v = Inr ((), w)" "log_write b w = Inr ((), y)"
      "brelse b y = Inr ((), t)" "file_step s ip nb t nb1" "log_set t ip nb1 W1"
      "in_tx t W1 (nblk (off + m) (n - (tot + m)) + k + pot nb1)"
      "card (free_blocks t) + pot nb + (nb1 - nb) = card (free_blocks s) + pot nb1"
      "\<forall>i < nb1 * BSIZE. file_byte t (icache t ip) i = (if off \<le> i \<and> i < off + m then ?bs ! (i - off)
         else if i < nb * BSIZE then file_byte s (icache s ip) i else 0)"
      unfolding nb1_def bn_def
      by (rule write_chunk [OF tx1 W ok h lo bn [unfolded bn_def] fr1 [unfolded bn_def] r0 m_def lb(1)]) blast
    note ft = file_stepD [OF t(6)]
    have "\<exists>q W'. writei_loop ip src n (tot + m) (off + m) t = Inr (off + m + (n - (tot + m)), q) \<and>
      file_step t ip nb1 q (nbend (off + m) (n - (tot + m)) nb1) \<and>
      in_tx q W' (k + pot (nbend (off + m) (n - (tot + m)) nb1)) \<and>
      (\<forall>i < nbend (off + m) (n - (tot + m)) nb1 * BSIZE. file_byte q (icache q ip) i =
        (if off + m \<le> i \<and> i < off + m + (n - (tot + m)) then src ! (tot + m + (i - (off + m)))
         else if i < nb1 * BSIZE then file_byte t (icache t ip) i else 0))"
    proof (rule 1(1) [OF True, folded m_def, OF refl t(8,7) ft(4,6,3)])
      show "off + m \<le> nb1 * BSIZE"
        using c(6) mult_le_mono1 [of "Suc bn" nb1 BSIZE] by (simp add: nb1_def bn_def)
      show "off + m + (n - (tot + m)) \<le> MAXFILE * BSIZE" using om c(2) by simp
      show "nbend (off + m) (n - (tot + m)) nb1 - nb1 + pot nb1 \<le> card (free_blocks t)"
        if "nb1 < nbend (off + m) (n - (tot + m)) nb1"
      proof -
        have "?e - nb + pot nb \<le> card (free_blocks s)" using that e1 fr by (simp add: nb1_def)
        then show ?thesis using t(9) ge unfolding e1 by (simp add: nb1_def)
      qed
    qed (use c(2) src tn in auto)
    then obtain q W' where q: "writei_loop ip src n (tot + m) (off + m) t = Inr (off + (n - tot), q)"
      "file_step t ip nb1 q ?e" "in_tx q W' (k + pot ?e)"
      "\<forall>i < ?e * BSIZE. file_byte q (icache q ip) i =
        (if off + m \<le> i \<and> i < off + (n - tot) then src ! (tot + m + (i - (off + m)))
         else if i < nb1 * BSIZE then file_byte t (icache t ip) i else 0)"
      unfolding e1(1) e2 by blast
    have dev: "i_dev (icache s ip) = 1" by (rule laid_outD(2) [OF lo])
    have run: "writei_loop ip src n tot off s = Inr (off + (n - tot), q)"
      unfolding writei_loop.simps [of ip src n tot off] Let_def m_def [symmetric] bn_def [symmetric]
      using True t(1-5) q(1) dev by (simp add: kmonad_simps)
    have fs: "file_step s ip nb q ?e"
      by (rule file_step_trans [OF t(6) q(2)])
    have bys: "file_byte q (icache q ip) i = (if off \<le> i \<and> i < off + (n - tot) then src ! (tot + (i - off))
       else if i < nb * BSIZE then file_byte s (icache s ip) i else 0)" if "i < ?e * BSIZE" for i
    proof -
      have nbs: "nb * BSIZE \<le> nb1 * BSIZE" "off + m \<le> nb1 * BSIZE"
        using c(6) mult_le_mono1 [of "Suc bn" nb1 BSIZE] by (simp_all add: nb1_def bn_def)
      have ft: "file_byte t (icache t ip) i = (if off \<le> i \<and> i < off + m then src ! (tot + (i - off))
          else if i < nb * BSIZE then file_byte s (icache s ip) i else 0)" if "i < nb1 * BSIZE"
        using t(10) that lb(2) [of "i - off"] by auto
      show ?thesis
      proof (cases "i < nb1 * BSIZE")
        case True
        then show ?thesis using q(4) that ft c(2) r0 by (cases "off + m \<le> i \<and> i < off + (n - tot)") auto
      next
        case False
        then have "\<not> i < nb * BSIZE" "off + m \<le> i" using nbs by linarith+
        then show ?thesis using False q(4) that by auto
      qed
    qed
    show ?thesis using run fs bys q(3) by blast
  qed
qed

lemma length_put32s [simp]: "length (fold (\<lambda>i d. put32 d (f i) (g i)) is d) = length d"
  by (induction "is" arbitrary: d) auto

lemma length_enc_dinode [simp]: "length (enc_dinode d inum x) = length d"
  by (simp add: enc_dinode_def Let_def)

lemma iupdate_spec:
  fixes s :: "'a fs_scheme"
  assumes tx: "in_tx s W k" and ok: "disk_ok s" and h: "bheld s = {}"
    and i: "i_dev (icache s ip) = 1" "i_inum (icache s ip) < sb_ninodes (fs_sb s)"
  defines "ib \<equiv> IBLOCK (i_inum (icache s ip)) (fs_sb s)"
  obtains t where "iupdate ip s = Inr ((), t)"
    "stored s {ib} ((bview s)(ib := enc_dinode (bview s ib) (i_inum (icache s ip)) (inode_dinode (icache s ip)))) t"
    "sb_inodestart (fs_sb s) \<le> ib" "ib < sb_bmapstart (fs_sb s)"
proof -
  have b: "sb_inodestart (fs_sb s) \<le> ib" "ib < sb_bmapstart (fs_sb s)" using disk_okD(7) [OF ok i(2)] by (simp_all add: ib_def)
  have d: "ib < disksize s" using b disk_okD(4,6,8) [OF ok] by linarith
  have inv: "bcache_inv s" using tx by (simp add: in_tx_def log_inv_def)
  obtain c u v w t where t: "bread 1 ib s = Inr (c, u)"
    "buf_store c (\<lambda>d. enc_dinode d (i_inum (icache s ip)) (inode_dinode (icache s ip))) u = Inr ((), v)"
    "log_write c v = Inr ((), w)" "brelse c w = Inr ((), t)"
    "stored s {ib} ((bview s)(ib := enc_dinode (bview s ib) (i_inum (icache s ip)) (inode_dinode (icache s ip)))) t"
    by (rule write_step [where f = "\<lambda>d. enc_dinode d (i_inum (icache s ip)) (inode_dinode (icache s ip))",
        OF tx d _ disk_ok_home [OF ok b(1)]]) (use h bview_length [OF inv d] in auto)
  have "iupdate ip s = Inr ((), t)" using t(1-4) i(1) by (simp add: iupdate_def kmonad_simps ib_def)
  then show thesis using t(5) b by (rule that)
qed

text \<open>A file the code may write to: \<open>nb\<close> blocks, enough for its size.\<close>

definition file_ok :: "'a fs_scheme \<Rightarrow> inode \<Rightarrow> nat \<Rightarrow> bool" where
  "file_ok s x nb \<longleftrightarrow> laid_out s x nb \<and> unat (i_size x) \<le> nb * BSIZE \<and> i_type x \<noteq> T_DEV \<and>
     i_inum x < sb_ninodes (fs_sb s)"

text \<open>Stores outside the data area and the free map leave the files alone.\<close>

lemma laid_out_cong:
  fixes s t :: "'a fs_scheme"
  assumes ok: "disk_ok s" and sb: "fs_sb t = fs_sb s"
    and v: "\<And>bn. bn \<in> own_blocks s x nb \<union> bitmap_blocks (fs_sb s) \<Longrightarrow> bview t bn = bview s bn"
    and lo: "laid_out s x nb"
  shows "laid_out t x nb" "own_blocks t x nb = own_blocks s x nb" "i < nb * BSIZE \<Longrightarrow> file_byte t x i = file_byte s x i"
proof -
  note l = laid_outD [OF lo]
  have us: "used t j = used s j" if "j < sb_size (fs_sb s)" for j
    by (rule used_same [OF sb]) (rule v, use that in simp)
  have dt: "is_data t j = is_data s j" for j using us [of j] sb by (auto simp: is_data_def)
  have fb: "file_block t x j = file_block s x j" if "j < NDIRECT \<or> NDIRECT < nb" for j
    using that v [of "i_addrs x ! NDIRECT"] by (auto simp: file_block_def own_blocks_def)
  have fn: "file_block t x j = file_block s x j" if "j < nb" for j using fb [of j] that by linarith
  show "laid_out t x nb" using lo fb fn unfolding laid_out_def dt by (auto simp: inj_on_def split: if_splits)
  show "own_blocks t x nb = own_blocks s x nb" by (auto simp: own_blocks_def fn)
  show "file_byte t x i = file_byte s x i" if "i < nb * BSIZE"
  proof (rule file_byte_eq)
    have b: "i div BSIZE < nb" using that by (simp add: div_BSIZE_less)
    then show "file_block t x (i div BSIZE) = file_block s x (i div BSIZE)" by (rule fn)
    show "bview t (file_block s x (i div BSIZE)) = bview s (file_block s x (i div BSIZE))"
      using b by (intro v) (auto simp: own_blocks_def)
  qed
qed

lemma own_blocks_data: "laid_out s x nb \<Longrightarrow> bn \<in> own_blocks s x nb \<Longrightarrow> is_data s bn"
  using laid_outD(4,8) [of s x nb] by (auto simp: own_blocks_def split: if_splits)

definition put_at :: "uchar list \<Rightarrow> nat \<Rightarrow> uchar list \<Rightarrow> uchar list" where
  "put_at d off bs = take off d @ bs @ drop (off + length bs) d"

lemma put_at_nth:
  assumes "off \<le> length d"
  shows "length (put_at d off bs) = max (length d) (off + length bs)"
    "i < max (length d) (off + length bs) \<Longrightarrow> put_at d off bs ! i =
      (if off \<le> i \<and> i < off + length bs then bs ! (i - off) else d ! i)"
  using assms by (auto simp: put_at_def nth_append)

lemma file_upd:
  fixes s :: "'a fs_scheme"
  shows "file_block s (x\<lparr>i_size := z\<rparr>) = file_block s x" "file_block (upd_inode ip f s) = file_block s"
    "file_byte s (x\<lparr>i_size := z\<rparr>) = file_byte s x" "file_byte (upd_inode ip f s) = file_byte s"
    "laid_out s (x\<lparr>i_size := z\<rparr>) = laid_out s x" "laid_out (upd_inode ip f s) = laid_out s"
    "own_blocks s (x\<lparr>i_size := z\<rparr>) = own_blocks s x" "own_blocks (upd_inode ip f s) = own_blocks s"
  by (simp_all add: fun_eq_iff file_block_def file_byte_def laid_out_def own_blocks_def upd_inode_views inj_on_def)

text \<open>The last step of \<open>writei\<close> on a file that has grown: the new size, in the cache and on the disk.\<close>

lemma set_size:
  fixes u :: "'a fs_scheme"
  assumes tx: "in_tx u W (Suc k)" and ok: "disk_ok u" and h: "bheld u = {}" and lo: "laid_out u (icache u ip) nb"
    and inum: "i_inum (icache u ip) < sb_ninodes (fs_sb u)"
  defines "ib \<equiv> IBLOCK (i_inum (icache u ip)) (fs_sb u)"
  obtains t where "iupdate ip (upd_inode ip (\<lambda>x. x\<lparr>i_size := z\<rparr>) u) = Inr ((), t)"
    "icache t = (icache u)(ip := (icache u ip)\<lparr>i_size := z\<rparr>)" "laid_out t (icache t ip) nb" "disk_ok t" "bheld t = {}"
    "in_tx t (insert ib W) k" "fs_sb t = fs_sb u" "free_blocks t = free_blocks u" "is_data t = is_data u"
    "\<forall>bn. bn \<noteq> ib \<longrightarrow> bview t bn = bview u bn"
    "\<forall>i < nb * BSIZE. file_byte t (icache t ip) i = file_byte u (icache u ip) i"
proof -
  let ?u = "upd_inode ip (\<lambda>x. x\<lparr>i_size := z\<rparr>) u" and ?y = "(icache u ip)\<lparr>i_size := z\<rparr>"
  have cu: "icache ?u ip = ?y" by (simp add: upd_inode_views)
  have i2: "i_dev (icache ?u ip) = 1" "i_inum (icache ?u ip) < sb_ninodes (fs_sb ?u)"
    using laid_outD(2) [OF lo] inum by (simp_all add: cu) (simp add: upd_inode_views)
  have txu: "in_tx ?u W (Suc k)" "disk_ok ?u" "bheld ?u = {}" using tx ok h by (simp_all add: upd_inode_views)
  obtain t where t: "iupdate ip ?u = Inr ((), t)" "stored ?u {ib} ((bview ?u)(ib := enc_dinode (bview ?u ib) (i_inum ?y) (inode_dinode ?y))) t"
    "sb_inodestart (fs_sb ?u) \<le> ib" "ib < sb_bmapstart (fs_sb ?u)"
    using iupdate_spec [OF txu i2] by (auto simp: cu upd_inode_views ib_def)
  note e = storedD [OF t(2)]
  have ct: "icache t ip = ?y" using e(2) cu by simp
  have vb: "bview t bn = bview ?u bn" if "bn \<noteq> ib" for bn using that by (simp add: e)
  have lu: "laid_out ?u ?y nb" using lo by (simp add: file_upd)
  have dn: "sb_bmapstart (fs_sb ?u) \<le> bn" if "bn \<in> own_blocks ?u ?y nb \<union> bitmap_blocks (fs_sb ?u)" for bn
    using that own_blocks_data [OF lu, of bn] bitmap_not_data [OF txu(2), of bn] disk_okD(8) [OF txu(2)]
    by (auto simp: is_data_def)
  have vs: "bview t bn = bview ?u bn" if "bn \<in> own_blocks ?u ?y nb \<union> bitmap_blocks (fs_sb ?u)" for bn
    using dn [OF that] t(4) by (intro vb) auto
  note lt = laid_out_cong [OF txu(2) e(3) vs lu]
  have us: "used t j = used ?u j" if "j < sb_size (fs_sb ?u)" for j
    by (rule used_same [OF e(3)]) (rule vs, use that in simp)
  have dt: "free_blocks t = free_blocks u" "is_data t = is_data u"
    using us by (auto simp: fun_eq_iff free_blocks_def is_data_def e(3) upd_inode_views)
  show thesis
  proof (rule that [OF t(1)])
    show "disk_ok t" by (rule disk_ok_stored [OF txu(2) t(2)]) (simp add: us)
    show "bheld t = {}" using t(2) txu(3) by (simp add: stored_def)
    show "in_tx t (insert ib W) k" by (rule stored_in_tx [OF t(2) in_tx_insert [OF txu(1)]]) auto
  qed (use lt vb dt e(2,3) in \<open>auto simp: ct upd_inode_views file_upd\<close>)
qed

text \<open>What \<open>writei\<close> needs: a transaction with room for the free map, the inode block, the data blocks of the
  range and possibly a new indirect block; and enough free blocks.\<close>

definition may_write :: "'a fs_scheme \<Rightarrow> nat \<Rightarrow> nat \<Rightarrow> nat \<Rightarrow> nat \<Rightarrow> bool" where
  "may_write s ip nb off n \<longleftrightarrow> disk_ok s \<and> bheld s = {} \<and> file_ok s (icache s ip) nb \<and>
     off \<le> unat (i_size (icache s ip)) \<and> off + n \<le> MAXFILE * BSIZE \<and>
     (nb < nbend off n nb \<longrightarrow> nbend off n nb - nb + pot nb \<le> card (free_blocks s)) \<and>
     (\<exists>W. log_set s ip nb W \<and> in_tx s W (nblk off n + 1 + pot nb))"

lemma contents_nth: "i < unat (i_size x) \<Longrightarrow> contents s x ! i = file_byte s x i"
  by (simp add: contents_def)

lemma length_contents [simp]: "length (contents s x) = unat (i_size x)"
  by (simp add: contents_def)

lemma writei_result:
  fixes s :: "'a fs_scheme"
  assumes mw: "may_write s ip nb (unat off) (length src)" and n: "n = of_nat (length src)"
  defines "nb' \<equiv> nbend (unat off) (length src) nb"
    and "ib \<equiv> IBLOCK (i_inum (icache s ip)) (fs_sb s)"
  obtains t W where "writei dv ip src off n s = Inr (int (length src), t)" "file_ok t (icache t ip) nb'" "disk_ok t"
    "bheld t = {}" "in_tx t W 0" "contents t (icache t ip) = put_at (contents s (icache s ip)) (unat off) src"
    "icache t = (icache s)(ip := icache t ip)" "fs_sb t = fs_sb s" "free_blocks t \<subseteq> free_blocks s"
    "\<forall>bn. bn \<notin> own_blocks s (icache s ip) nb \<union> free_blocks s \<union> bitmap_blocks (fs_sb s) \<union> {ib} \<longrightarrow> bview t bn = bview s bn"
    "\<forall>bn. is_data s bn \<longrightarrow> is_data t bn"
proof -
  let ?x = "icache s ip" and ?o = "unat off" and ?n = "length src"
  obtain W where ok: "disk_ok s" and h: "bheld s = {}" and fo: "file_ok s ?x nb" and osz: "?o \<le> unat (i_size ?x)"
    and mx: "?o + ?n \<le> MAXFILE * BSIZE" and fr: "nb < nb' \<Longrightarrow> nb' - nb + pot nb \<le> card (free_blocks s)"
    and W: "log_set s ip nb W" and tx: "in_tx s W (nblk ?o ?n + 1 + pot nb)"
    using mw by (auto simp: may_write_def nb'_def)
  have lo: "laid_out s ?x nb" and sz: "unat (i_size ?x) \<le> nb * BSIZE" and ty: "i_type ?x \<noteq> T_DEV"
    and inum: "i_inum ?x < sb_ninodes (fs_sb s)" using fo by (auto simp: file_ok_def)
  have max: "MAXFILE * BSIZE = 71680" by (simp add: param_defs)
  have un: "unat n = ?n" using mx max n by (simp add: unat_of_nat)
  have add: "unat (off + n) = ?o + ?n" using mx max un by (simp add: unat_word_ariths)
  have sn: "sint n = int ?n" using sint_small [of ?n] mx max n by simp
  define z where "z = (of_nat (?o + ?n) :: uint)"
  have uz: "unat z = ?o + ?n" using mx max unat_of_nat [of "?o + ?n", where 'a = 32] by (simp add: z_def)
  have z: "off + of_nat ?n = z" by (simp add: z_def)
  have g: "\<not> (off > i_size ?x \<or> off + n < off)" "\<not> off + n > of_nat (MAXFILE * BSIZE)"
    using osz add mx max by (auto simp: word_less_nat_alt unat_of_nat)
  obtain u W1 where u: "writei_loop ip src ?n 0 ?o s = Inr (?o + ?n, u)" "file_step s ip nb u nb'" "in_tx u W1 (1 + pot nb')"
    "\<forall>i < nb' * BSIZE. file_byte u (icache u ip) i = (if ?o \<le> i \<and> i < ?o + ?n then src ! (i - ?o)
       else if i < nb * BSIZE then file_byte s ?x i else 0)"
    using writei_loop_correct [of s W ?o ?n 0 1 nb ip src] tx W ok h lo osz sz mx fr by (auto simp: nb'_def)
  note f = file_stepD [OF u(2)]
  let ?y = "icache u ip"
  have yx: "i_size ?y = i_size ?x" "i_type ?y = i_type ?x" "i_inum ?y = i_inum ?x" "i_dev ?y = 1"
    using f(1) laid_outD(2) [OF f(3)] by (metis inode.update_convs(12) inode.select_convs inode.surjective)+
  have nbB: "nb * BSIZE \<le> nb' * BSIZE" "?n \<noteq> 0 \<Longrightarrow> ?o + ?n \<le> nb' * BSIZE"
  proof -
    show "nb * BSIZE \<le> nb' * BSIZE" using nbend_ge [of nb ?o ?n] by (simp add: nb'_def)
    assume "?n \<noteq> 0"
    then have "Suc ((?o + ?n - 1) div BSIZE) \<le> nb'" by (simp add: nb'_def nbend_def)
    then have "(?o + ?n - 1) div BSIZE < nb'" by simp
    then show "?o + ?n \<le> nb' * BSIZE" using \<open>?n \<noteq> 0\<close> by (simp add: div_BSIZE_less)
  qed
  have szn: "unat (i_size ?x) \<le> nb' * BSIZE" by (rule le_trans [OF sz nbB(1)])
  have bytes: "file_byte u ?y i = put_at (contents s ?x) ?o src ! i" if "i < max (unat (i_size ?x)) (?o + ?n)" for i
  proof -
    have "i < nb' * BSIZE" using that nbB(2) szn osz by (cases "?n = 0") (auto simp: max_def split: if_splits)
    then show ?thesis
      using u(4) that sz osz put_at_nth(2) [of ?o "contents s ?x" i src] by (auto simp: contents_nth max_def split: if_splits)
  qed
  have len: "length (put_at (contents s ?x) ?o src) = max (unat (i_size ?x)) (?o + ?n)"
    using put_at_nth(1) [of ?o "contents s ?x" src] osz by simp
  show thesis
  proof (cases "0 < ?n \<and> unat (i_size ?x) < ?o + ?n")
    case False
    then have sm: "max (unat (i_size ?x)) (?o + ?n) = unat (i_size ?x)" using osz by auto
    have c: "\<not> (n > 0 \<and> z > i_size ?y)"
      using False un yx unfolding word_less_nat_alt uz by auto
    have run: "writei dv ip src off n s = Inr (int ?n, u)"
      unfolding writei_def using ty g u(1) c un sn by (auto simp: kmonad_simps z)
    have ct: "contents u ?y = put_at (contents s ?x) ?o src"
      by (rule nth_equalityI) (use len sm bytes yx in \<open>auto simp: contents_nth\<close>)
    have "file_ok u ?y nb'" using f(3) yx ty inum szn by (auto simp: file_ok_def f(5))
    then show thesis
      using that [OF run _ f(4) f(6) in_tx_mono [OF u(3)] ct f(2,5,7)] f(8,10) by blast
  next
    case True
    have sm: "max (unat (i_size ?x)) (?o + ?n) = ?o + ?n" using True by simp
    have c: "n > 0 \<and> z > i_size ?y" using True un yx uz by (simp add: word_less_nat_alt word_gt_0_no unat_gt_0)
    have iy: "i_inum ?y < sb_ninodes (fs_sb u)" using inum yx f(5) by simp
    have txu: "in_tx u W1 (Suc (pot nb'))" using u(3) by simp
    obtain t where t: "iupdate ip (upd_inode ip (\<lambda>x. x\<lparr>i_size := z\<rparr>) u) = Inr ((), t)"
      "icache t = (icache u)(ip := ?y\<lparr>i_size := z\<rparr>)" "laid_out t (icache t ip) nb'" "disk_ok t" "bheld t = {}"
      "in_tx t (insert ib W1) (pot nb')" "fs_sb t = fs_sb u" "free_blocks t = free_blocks u" "is_data t = is_data u"
      "\<forall>bn. bn \<noteq> ib \<longrightarrow> bview t bn = bview u bn" "\<forall>i < nb' * BSIZE. file_byte t (icache t ip) i = file_byte u ?y i"
      using set_size [OF txu f(4,6,3) iy] unfolding yx(3) f(5) ib_def by blast
    have ct: "icache t ip = ?y\<lparr>i_size := z\<rparr>" using t(2) by simp
    have run: "writei dv ip src off n s = Inr (int ?n, t)"
      unfolding writei_def using ty g u(1) c un sn t(1) by (simp add: kmonad_simps z)
    have cts: "contents t (icache t ip) = put_at (contents s ?x) ?o src"
    proof (rule nth_equalityI)
      show "length (contents t (icache t ip)) = length (put_at (contents s ?x) ?o src)" using len sm uz by (simp add: ct)
      fix i assume i: "i < length (contents t (icache t ip))"
      then have "i < ?o + ?n" by (simp add: ct uz)
      moreover from this have "i < nb' * BSIZE" using nbB(2) True by simp
      ultimately show "contents t (icache t ip) ! i = put_at (contents s ?x) ?o src ! i"
        using bytes [of i] sm t(11) by (simp add: contents_nth ct uz)
    qed
    have "file_ok t (icache t ip) nb'"
      using t(3) uz nbB(2) True yx ty inum by (auto simp: file_ok_def ct t(7) f(5))
    moreover have "icache t = (icache s)(ip := icache t ip)" using t(2) by (metis f(2) fun_upd_upd ct)
    moreover have "bview t bn = bview s bn"
      if "bn \<notin> own_blocks s ?x nb \<union> free_blocks s \<union> bitmap_blocks (fs_sb s) \<union> {ib}" for bn
      using that t(10) f(10) [of bn] by simp
    moreover have "fs_sb t = fs_sb s" "free_blocks t \<subseteq> free_blocks s" "\<forall>bn. is_data s bn \<longrightarrow> is_data t bn"
      using t(7-9) f(5,7,8) by auto
    ultimately show thesis using that [OF run _ t(4,5) in_tx_mono [OF t(6)] cts] by blast
  qed
qed

section \<open>Files keep their contents\<close>

lemma file_readable:
  assumes tx: "in_tx s W k" and ok: "disk_ok s" "bheld s = {}" and fo: "file_ok s x nb"
  shows "bcache_inv s" "i_dev x = 1" "i_type x \<noteq> T_DEV" "bn * BSIZE < unat (i_size x) \<Longrightarrow> mapped s x bn"
proof -
  have lo: "laid_out s x nb" "unat (i_size x) \<le> nb * BSIZE" "i_type x \<noteq> T_DEV" using fo by (auto simp: file_ok_def)
  show "bcache_inv s" using tx by (simp add: in_tx_def log_inv_def)
  show "i_dev x = 1" "i_type x \<noteq> T_DEV" using lo laid_outD(2) by auto
  show "mapped s x bn" if "bn * BSIZE < unat (i_size x)"
  proof (rule laid_out_mapped [OF tx ok lo(1)])
    have "bn * BSIZE < nb * BSIZE" using that lo(2) by linarith
    then show "bn < nb" by simp
  qed
qed

section \<open>An example disk\<close>

text \<open>64 blocks, the first free one is 59; two empty files.\<close>

definition fsd_disk :: "nat \<Rightarrow> uchar list" where
  "fsd_disk bn = (if bn = 58 then replicate 7 255 @ 7 # replicate 504 0 else replicate 512 0)"

definition fsd_inode :: "nat \<Rightarrow> inode" where
  "fsd_inode inum = inode_ex\<lparr>i_dev := 1, i_inum := inum, i_ref := 1, i_valid := True, i_type := T_FILE, i_nlink := 1\<rparr>"

definition fsd_ex :: fs where
  "fsd_ex = fs_ex\<lparr>memdisk := fsd_disk, disksize := 64, log_start := 2, log_size := 30, log_dev := 1, log_outstanding := 1,
     fs_sb := \<lparr>sb_size = 64, sb_nblocks = 5, sb_ninodes = 200, sb_nlog = 30, sb_logstart = 2, sb_inodestart = 32, sb_bmapstart = 58\<rparr>,
     icache := (\<lambda>i. fsd_inode (i + 1))\<rparr>"

lemmas fsd_ex_simps = fsd_ex_def fs_ex_def fslog.defs log_ex_def bio.defs bio_ex_simps

lemma fsd_ex_boot: "bio_boot fsd_ex"
  by (simp add: bio_boot_def fsd_ex_simps fsd_disk_def BSIZE_def)

lemma fsd_bits: "k < 8 \<Longrightarrow> bit (255 :: uchar) k" "bit (7 :: uchar) k \<longleftrightarrow> k < 3"
proof -
  have "(255 :: uchar) = - 1" by simp
  then show "k < 8 \<Longrightarrow> bit (255 :: uchar) k" by (simp only: bit_minus_1_iff) simp
  have "(7 :: uchar) = mask 3" by (simp add: mask_eq_exp_minus_1)
  then show "bit (7 :: uchar) k \<longleftrightarrow> k < 3" by (simp only: bit_mask_iff) auto
qed

lemma fsd_used:
  assumes "bview t = fsd_disk" "fs_sb t = fs_sb fsd_ex" "bn < 64"
  shows "used t bn \<longleftrightarrow> bn < 59"
proof -
  have d: "bn div 8 < 8" "bn = bn div 8 * 8 + bn mod 8" "bn mod 8 < 8" using assms(3) by auto
  have n: "fsd_disk 58 ! (bn div 8) = (if bn div 8 < 7 then 255 else 7)"
    using d(1) by (auto simp: fsd_disk_def nth_append nth_Cons')
  have "bit (fsd_disk 58 ! (bn div 8)) (bn mod 8) \<longleftrightarrow> bn < 59"
  proof (cases "bn div 8 < 7")
    case True
    then show ?thesis unfolding n using d fsd_bits(1) [OF d(3)] by simp
  next
    case False
    then have "bn < 59 \<longleftrightarrow> bn mod 8 < 3" using d by linarith
    then show ?thesis unfolding n using False fsd_bits(2) [of "bn mod 8"] by simp
  qed
  then show ?thesis using assms by (simp add: used_def BBLOCK_def BPB_def BSIZE_def fsd_ex_def)
qed

lemma fsd_vals:
  "log_start fsd_ex = 2" "log_size fsd_ex = 30" "log_dev fsd_ex = 1" "lh_n fsd_ex = 0" "lh_block fsd_ex = replicate LOGSIZE 0"
  "log_outstanding fsd_ex = 1" "disksize fsd_ex = 64" "memdisk fsd_ex = fsd_disk" "icache fsd_ex = (\<lambda>i. fsd_inode (i + 1))"
  "sb_size (fs_sb fsd_ex) = 64" "sb_ninodes (fs_sb fsd_ex) = 200" "sb_inodestart (fs_sb fsd_ex) = 32"
  "sb_bmapstart (fs_sb fsd_ex) = 58"
  by (simp_all add: fsd_ex_simps)

lemma fsd_start:
  obtains t :: fs where "in_tx t {58} 20" "disk_ok t" "bheld t = {}" "icache t = (\<lambda>i. fsd_inode (i + 1))"
    "fs_sb t = fs_sb fsd_ex" "card (free_blocks t) = 5" "bitmap_blocks (fs_sb t) = {58}"
proof -
  obtain t where t: "binit fsd_ex = Inr ((), t)" "bio_frame fsd_ex t" "bview t = memdisk fsd_ex" "bpinned t = {}" "bheld t = {}"
    "memdisk t = memdisk fsd_ex" by (rule binit_spec [OF fsd_ex_boot])
  note f = frameD [OF t(2)]
  note g = f(1,4) log_frame(1-6) [OF f(2)] fs_frame [OF log_frame(8) [OF f(2)]]
  have v: "bview t = fsd_disk" using t by (simp add: fsd_vals)
  note u = fsd_used [OF v g(10)]
  have li: "log_inv t" using g t by (simp add: log_inv_def fsd_vals fsd_disk_def get32_def NBUF_def)
  have ds: "data_start (fs_sb t) = 59" using g by (simp add: data_start_def fsd_vals BPB_def BSIZE_def)
  have bb: "bitmap_blocks (fs_sb t) = {58}" using g image_constant [of 0 "{..<64 :: nat}" "58 :: nat"]
    by (simp add: bitmap_blocks_def BBLOCK_def fsd_vals BPB_def BSIZE_def cong: image_cong_simp)
  have "free_blocks t = {59..<64}" using u g by (auto simp: free_blocks_def fsd_vals)
  moreover have "disk_ok t"
    unfolding disk_ok_def Let_def ds using u g by (simp add: fsd_vals param_defs)
  moreover have "in_tx t {58} 20" using li t g by (simp add: in_tx_def fsd_vals)
  ultimately show thesis using t bb g by (intro that [of t]) (simp_all add: fsd_vals)
qed

lemma fsd_file:
  assumes "fs_sb t = fs_sb fsd_ex" and "inum < 200"
  shows "file_ok t (fsd_inode inum) 0" "own_blocks t (fsd_inode inum) 0 = {}"
  using assms by (simp_all add: file_ok_def laid_out_def fsd_inode_def inode_ex_def fsd_vals own_blocks_def T_FILE_def T_DEV_def
      NDIRECT_def nth_Cons')

lemma fsd_may_write:
  fixes t :: fs
  assumes tx: "in_tx t {58} 20" and ok: "disk_ok t" "bheld t = {}" and ic: "icache t = (\<lambda>i. fsd_inode (i + 1))"
    and sb: "fs_sb t = fs_sb fsd_ex" "card (free_blocks t) = 5" "bitmap_blocks (fs_sb t) = {58}"
    and n: "n \<le> 1024"
  shows "may_write t 0 0 0 n"
proof -
  have k: "nblk 0 n \<le> 2" "nbend 0 n 0 \<le> 2" "pot 0 = 1"
    using div_le_mono [of "n - 1" 1023 512] n by (auto simp: nblk_def nbend_def pot_def BSIZE_def)
  have "in_tx t {58} (nblk 0 n + 1 + pot 0)" by (rule in_tx_mono [OF tx]) (use k in simp)
  then show ?thesis
    unfolding may_write_def using ok ic sb k n fsd_file [OF sb(1), of 1]
    by (auto simp: log_set_def param_defs intro!: exI [of _ "{58}"])
qed

lemma fsd_written:
  obtains t :: fs and W where "in_tx t W 0" "disk_ok t" "bheld t = {}" "file_ok t (icache t 0) 1"
    "contents t (icache t 0) = [104, 105]" "i_size (icache t 0) = 2"
proof -
  obtain s :: fs where s: "in_tx s {58} 20" "disk_ok s" "bheld s = {}" "icache s = (\<lambda>i. fsd_inode (i + 1))"
    "fs_sb s = fs_sb fsd_ex" "card (free_blocks s) = 5" "bitmap_blocks (fs_sb s) = {58}" by (rule fsd_start)
  have mw: "may_write s 0 0 (unat (0 :: uint)) (length [104, 105 :: uchar])" using fsd_may_write [OF s, of "Suc (Suc 0)"] by simp
  obtain t :: fs and W where t: "file_ok t (icache t 0) (nbend (unat (0 :: uint)) (length [104, 105 :: uchar]) 0)" "disk_ok t" "bheld t = {}" "in_tx t W 0"
    "contents t (icache t 0) = put_at (contents s (icache s 0)) (unat (0 :: uint)) [104, 105]"
    by (rule writei_result [OF mw refl, where dv = "\<lambda>_. undefined"]) blast
  have c: "contents s (icache s 0) = []" by (simp add: contents_def s(4) fsd_inode_def inode_ex_def)
  have "contents t (icache t 0) = [104, 105]" using t(5) by (simp add: c put_at_def)
  moreover from this have "unat (i_size (icache t 0)) = 2" using length_contents [of t "icache t 0"] by simp
  then have "i_size (icache t 0) = 2" by (simp add: word_unat_eq_iff)
  ultimately show thesis using t by (intro that [of t W]) (simp_all add: nbend_def BSIZE_def)
qed

section \<open>Allocating and freeing blocks\<close>

lemma used_free:
  fixes s t :: "'a fs_scheme"
  assumes inv: "bcache_inv s" and ok: "disk_ok s" and a: "a < sb_size (fs_sb s)"
    and V: "bview t = (bview s)(BBLOCK a (fs_sb s) := mark_free (a mod BPB) (bview s (BBLOCK a (fs_sb s))))" "fs_sb t = fs_sb s"
  shows "used t j \<longleftrightarrow> j \<noteq> a \<and> used s j"
proof (cases "BBLOCK j (fs_sb s) = BBLOCK a (fs_sb s)")
  case True
  have b: "BBLOCK a (fs_sb s) < disksize s" using disk_okD(2) [OF ok a] disk_okD(4,6) [OF ok] by linarith
  have "j div BPB = a div BPB" using True by (simp add: BBLOCK_def)
  then have e: "(j mod BPB = a mod BPB) = (j = a)" by (metis mult_div_mod_eq)
  have l: "j mod BPB < BPB" "a mod BPB < BPB" using BPB_pos by simp_all
  show ?thesis using bit_mark_free [OF l(2,1) bview_length [OF inv b]] True by (simp add: used_def V e)
next
  case False
  then have "j \<noteq> a" by auto
  then show ?thesis using False by (simp add: used_def V)
qed

lemma bfree_spec:
  fixes s :: "'a fs_scheme"
  assumes tx: "in_tx s W k" and ok: "disk_ok s" and h: "bheld s = {}" and a: "is_data s a"
  defines "bb \<equiv> BBLOCK a (fs_sb s)"
  obtains t where "bfree 1 a s = Inr ((), t)" "stored s {bb} ((bview s)(bb := mark_free (a mod BPB) (bview s bb))) t"
    "free_blocks t = insert a (free_blocks s)" "disk_ok t"
proof -
  have sz: "a < sb_size (fs_sb s)" "used s a" "data_start (fs_sb s) \<le> a" using a by (auto simp: is_data_def)
  have bb: "bb < disksize s" "sb_inodestart (fs_sb s) \<le> bb"
    using disk_okD(2) [OF ok sz(1)] disk_okD(3,4,6) [OF ok] by (auto simp: bb_def)
  have inv: "bcache_inv s" using tx by (simp add: in_tx_def log_inv_def)
  obtain b u v w t where t: "bread 1 bb s = Inr (b, u)" "b_data (bcache u b) = bview s bb"
    "buf_store b (mark_free (a mod BPB)) u = Inr ((), v)" "log_write b v = Inr ((), w)" "brelse b w = Inr ((), t)"
    "stored s {bb} ((bview s)(bb := mark_free (a mod BPB) (bview s bb))) t"
    by (rule write_step [OF tx bb(1) _ disk_ok_home [OF ok bb(2)], where f = "mark_free (a mod BPB)"])
      (use h bview_length [OF inv bb(1)] in auto)
  have "bfree 1 a s = Inr ((), t)"
    using t(1-5) sz(2) by (simp add: bfree_def kmonad_simps Let_def used_def bb_def)
  moreover note e = storedD [OF t(6)]
  have u: "used t j \<longleftrightarrow> j \<noteq> a \<and> used s j" for j by (rule used_free [OF inv ok sz(1)]) (use e in \<open>simp_all add: bb_def\<close>)
  moreover have "free_blocks t = insert a (free_blocks s)" using u sz(1) by (auto simp: free_blocks_def e)
  moreover have "log_start t = log_start s" "log_size t = log_size s" using t(6) by (auto simp: stored_def log_same_def)
  then have "disk_ok t" using ok u sz(3) by (auto simp: disk_ok_def Let_def e)
  ultimately show thesis using t(6) by (intro that)
qed

text \<open>C35. Allocating a block: if some block is free, \<open>balloc\<close> returns the first free one, zeroed and marked as used, and
  changes no other block of the disk except the free map.  Freeing that block afterwards restores the set of free
  blocks.\<close>

theorem balloc_bfree:
  fixes s :: "'a fs_scheme"
  assumes "in_tx s W 1" and "bitmap_blocks (fs_sb s) \<subseteq> W" and "disk_ok s" and "bheld s = {}" and "free_blocks s \<noteq> {}"
  defines "a \<equiv> Min (free_blocks s)"
  shows "\<exists>t u. balloc 1 s = Inr (a, t) \<and> free_blocks t = free_blocks s - {a} \<and> bview t a = replicate BSIZE 0 \<and>
    (\<forall>bn. bn \<noteq> a \<and> bn \<notin> bitmap_blocks (fs_sb s) \<longrightarrow> bview t bn = bview s bn) \<and> disk_ok t \<and>
    bfree 1 a t = Inr ((), u) \<and> free_blocks u = free_blocks s \<and> disk_ok u"
proof -
  obtain t where t: "balloc 1 s = Inr (a, t)" "a \<in> free_blocks s" "stored s (insert a W) (alloc_view s a) t" "disk_ok t"
    "free_blocks t = free_blocks s - {a}" "is_data t a"
    by (rule balloc_takes [OF assms(1-3,5)]) (use assms(4) in \<open>auto simp: a_def\<close>)
  have tx: "in_tx t (insert a W) 0" by (rule stored_alloc_in_tx [OF t(3)]) (use assms(1) in simp)
  have ht: "bheld t = {}" using t(3) assms(4) by (simp add: stored_def)
  obtain u where u: "bfree 1 a t = Inr ((), u)" "free_blocks u = insert a (free_blocks t)" "disk_ok u"
    by (rule bfree_spec [OF tx t(4) ht t(6)])
  have sz: "a < sb_size (fs_sb s)" using t(2) by (simp add: free_blocks_def)
  have "bview t a = replicate BSIZE 0" by (simp add: storedD [OF t(3)] alloc_view_def)
  moreover have "bview t bn = bview s bn" if "bn \<noteq> a" "bn \<notin> bitmap_blocks (fs_sb s)" for bn
    using alloc_view_other [OF that sz] by (simp add: storedD [OF t(3)])
  moreover have "free_blocks u = free_blocks s" using u(2) t(2,5) by auto
  ultimately show ?thesis using t(1,4,5) u(1,3) by (intro exI [of _ t] exI [of _ u]) simp
qed

theorem balloc_bfree_witness:
  "\<exists>(s :: fs) t u. balloc 1 s = Inr (Min (free_blocks s), t) \<and> bfree 1 (Min (free_blocks s)) t = Inr ((), u) \<and>
    free_blocks u = free_blocks s"
proof -
  obtain s :: fs where s: "in_tx s {58} 20" "disk_ok s" "bheld s = {}" "card (free_blocks s) = 5" "bitmap_blocks (fs_sb s) = {58}"
    by (rule fsd_start)
  have "in_tx s {58} 1" by (rule in_tx_mono [OF s(1)]) simp
  then show ?thesis using balloc_bfree [of s "{58}"] s by fastforce
qed

text \<open>C34. Reading a file: if the blocks of the file are allocated and no other process holds them, \<open>readi\<close> returns the
  bytes of the file from the offset on, as many as were asked for and as the file has, and changes nothing.  The bytes
  are those the direct and indirect block addresses lead to, through the block cache.\<close>

theorem readi_correct:
  fixes s :: "'a fs_scheme"
  assumes "bcache_inv s" and "i_dev (icache s ip) = 1" and "i_type (icache s ip) \<noteq> T_DEV"
    and "\<And>bn. bn * BSIZE < unat (i_size (icache s ip)) \<Longrightarrow> mapped s (icache s ip) bn"
    and "off \<le> i_size (icache s ip)" and "off \<le> off + n"
  shows "\<exists>t bs. readi dv ip off n s = Inr ((int (length bs), bs), t) \<and>
    bs = take (unat n) (drop (unat off) (contents s (icache s ip))) \<and> same_blocks s t"
  using readi_result [OF assms] by blast

theorem readi_correct_witness:
  "\<exists>(s :: fs) t. contents s (icache s 0) = [104, 105] \<and> readi (\<lambda>_. undefined) 0 1 5 s = Inr ((1, [105]), t)"
proof -
  obtain s :: fs and W where s: "in_tx s W 0" "disk_ok s" "bheld s = {}" "file_ok s (icache s 0) 1"
    "contents s (icache s 0) = [104, 105]" "i_size (icache s 0) = 2" by (rule fsd_written)
  have "\<exists>t bs. readi (\<lambda>_. undefined) 0 1 5 s = Inr ((int (length bs), bs), t) \<and>
      bs = take (unat (5 :: uint)) (drop (unat (1 :: uint)) (contents s (icache s 0))) \<and> same_blocks s t"
    by (rule readi_correct [OF file_readable [OF s(1-4)]]) (simp_all add: s(6))
  then show ?thesis using s(5) by auto
qed

text \<open>C32. Writing a file: in a transaction with room for the blocks, and with enough free blocks, \<open>writei\<close> stores all bytes
  at the offset, allocating direct blocks, the indirect block and the blocks behind it as needed; afterwards the
  contents of the file are the old ones with the new bytes put in, the size has grown if they reach past the end, the blocks of the file
  are still distinct allocated blocks, and no other cached inode has changed.\<close>

theorem writei_correct:
  fixes s :: "'a fs_scheme"
  assumes "may_write s ip nb (unat off) (length src)"
  shows "\<exists>t. writei dv ip src off (of_nat (length src)) s = Inr (int (length src), t) \<and>
    contents t (icache t ip) = put_at (contents s (icache s ip)) (unat off) src \<and>
    disk_ok t \<and> file_ok t (icache t ip) (nbend (unat off) (length src) nb) \<and>
    (\<forall>jp. jp \<noteq> ip \<longrightarrow> icache t jp = icache s jp)"
proof -
  obtain t where "writei dv ip src off (of_nat (length src)) s = Inr (int (length src), t)"
    "file_ok t (icache t ip) (nbend (unat off) (length src) nb)" "disk_ok t"
    "contents t (icache t ip) = put_at (contents s (icache s ip)) (unat off) src"
    "icache t = (icache s)(ip := icache t ip)" by (rule writei_result [OF assms refl]) blast
  then show ?thesis by (metis fun_upd_other)
qed

theorem writei_correct_witness:
  "\<exists>(s :: fs) t. writei (\<lambda>_. undefined) 0 (replicate 600 7) 0 600 s = Inr (600, t) \<and>
    contents t (icache t 0) = replicate 600 7"
proof -
  obtain s :: fs where s: "in_tx s {58} 20" "disk_ok s" "bheld s = {}" "icache s = (\<lambda>i. fsd_inode (i + 1))"
    "fs_sb s = fs_sb fsd_ex" "card (free_blocks s) = 5" "bitmap_blocks (fs_sb s) = {58}" by (rule fsd_start)
  have "may_write s 0 0 (unat (0 :: uint)) (length (replicate 600 (7 :: uchar)))"
    using fsd_may_write [OF s, of 600] by simp
  from writei_correct [OF this, of "\<lambda>_. undefined"] show ?thesis
    by (auto simp: put_at_def contents_def s(4) fsd_inode_def inode_ex_def)
qed

text \<open>C31. Round trip through the file system: what \<open>writei\<close> has stored at an offset, \<open>readi\<close> at that offset returns.\<close>

theorem writei_readi:
  fixes s :: "'a fs_scheme"
  assumes mw: "may_write s ip nb (unat off) (length src)"
  shows "\<exists>t u. writei dv ip src off (of_nat (length src)) s = Inr (int (length src), t) \<and>
    readi dv ip off (of_nat (length src)) t = Inr ((int (length src), src), u)"
proof -
  let ?nb = "nbend (unat off) (length src) nb" and ?n = "of_nat (length src) :: uint"
  obtain t W where t: "writei dv ip src off (of_nat (length src)) s = Inr (int (length src), t)"
    "file_ok t (icache t ip) ?nb" "disk_ok t" "bheld t = {}" "in_tx t W 0"
    "contents t (icache t ip) = put_at (contents s (icache s ip)) (unat off) src"
    by (rule writei_result [OF mw refl]) blast
  have mx: "unat off + length src \<le> 71680" and osz: "unat off \<le> length (contents s (icache s ip))"
    using mw by (auto simp: may_write_def param_defs)
  have un: "unat ?n = length src" using mx by (simp add: unat_of_nat)
  have add: "unat (off + ?n) = unat off + length src" using mx un by (simp add: unat_word_ariths)
  have sz: "unat (i_size (icache t ip)) = max (unat (i_size (icache s ip))) (unat off + length src)"
    using arg_cong [OF t(6), of length] put_at_nth(1) [OF osz, of src] by simp
  note r = file_readable [OF t(5,3,4,2)]
  have g: "off \<le> i_size (icache t ip)" "off \<le> off + ?n" using sz add by (auto simp: word_le_nat_alt)
  have "take (unat ?n) (drop (unat off) (contents t (icache t ip))) = src"
    unfolding t(6) un using osz by (simp add: put_at_def)
  then show ?thesis
    using readi_result [OF r g, of dv] t(1) by auto
qed

theorem writei_readi_witness:
  "\<exists>(s :: fs) t u. writei (\<lambda>_. undefined) 0 [1, 2, 3] 0 3 s = Inr (3, t) \<and>
    readi (\<lambda>_. undefined) 0 0 3 t = Inr ((3, [1, 2, 3]), u)"
proof -
  obtain s :: fs where s: "in_tx s {58} 20" "disk_ok s" "bheld s = {}" "icache s = (\<lambda>i. fsd_inode (i + 1))"
    "fs_sb s = fs_sb fsd_ex" "card (free_blocks s) = 5" "bitmap_blocks (fs_sb s) = {58}" by (rule fsd_start)
  have "may_write s 0 0 (unat (0 :: uint)) (length [1, 2, 3 :: uchar])"
    using fsd_may_write [OF s, of "Suc (Suc (Suc 0))"] by simp
  from writei_readi [OF this, of "\<lambda>_. undefined"] show ?thesis by auto
qed



end
