(* ===== verification/Umalloc.thy ===== *)
theory Umalloc
  imports Kalloc
begin

text \<open>
  The memory allocator of user programs (\<open>umalloc.c\<close>, after Kernighan and Ritchie): a circular list of free blocks in
  address order, threaded through their headers.  Memory is a function from addresses to 32-bit words; a \<open>Header\<close>
  at \<open>a\<close> has its \<open>ptr\<close> at \<open>a\<close> and its \<open>size\<close>, in units of eight bytes, at \<open>a + 4\<close>.  The address of the static variable \<open>base\<close> is
  an argument.  \<open>sbrk\<close> is the system call as a process sees it (\<open>sys_sbrk\<close> and \<open>growproc\<close>); whether the kernel has
  enough pages is the argument \<open>avail\<close>.
\<close>

section \<open>Definitions\<close>

record ustate =
  umem :: "uint \<Rightarrow> uint"
  freep :: uint
  ubrk :: uint

definition hptr :: "ustate \<Rightarrow> uint \<Rightarrow> uint" where
  "hptr s a = umem s a"

definition hsize :: "ustate \<Rightarrow> uint \<Rightarrow> uint" where
  "hsize s a = umem s (a + 4)"

definition set_hptr :: "uint \<Rightarrow> uint \<Rightarrow> ustate \<Rightarrow> ustate" where
  "set_hptr a v s = s\<lparr>umem := (umem s)(a := v)\<rparr>"

definition set_hsize :: "uint \<Rightarrow> uint \<Rightarrow> ustate \<Rightarrow> ustate" where
  "set_hsize a v s = s\<lparr>umem := (umem s)(a + 4 := v)\<rparr>"

definition sbrk :: "(uint \<Rightarrow> uint \<Rightarrow> bool) \<Rightarrow> uint \<Rightarrow> (ustate, uint) kern" where
  "sbrk avail n = (\<lambda>s.
     let old = ubrk s; new = old + n in
     if sint n > 0 then
       if new \<ge> KERNBASE then Inr (- 1, s)
       else if new < old then Inr (if old = 0 then - 1 else old, s)
       else if avail old new then
         Inr (old, s\<lparr>ubrk := new, umem := (\<lambda>a. if PGROUNDUP old \<le> a \<and> a < PGROUNDUP new then 0 else umem s a)\<rparr>)
       else Inr (- 1, s)
     else if sint n < 0 then
       if new \<ge> old then Inr (if old = 0 then - 1 else old, s)
       else if new = 0 then Inr (- 1, s)
       else Inr (old, s\<lparr>ubrk := new\<rparr>)
     else Inr (old, s))"

text \<open>The loop of \<open>free\<close> that finds the node behind which the block belongs.\<close>

partial_function (option) free_scan :: "(uint \<Rightarrow> uint) \<Rightarrow> uint \<Rightarrow> uint \<Rightarrow> uint option" where
  "free_scan ptr bp p =
     (if bp > p \<and> bp < ptr p then Some p
      else if p \<ge> ptr p \<and> (bp > p \<or> bp < ptr p) then Some p
      else free_scan ptr bp (ptr p))"

definition ufree :: "uint \<Rightarrow> (ustate, unit) kern" where
  "ufree ap =
     (let bp = ap - 8 in
      kbind (\<lambda>s. case free_scan (hptr s) bp (freep s) of None \<Rightarrow> Inl Diverges | Some p \<Rightarrow> Inr (p, s)) (\<lambda>p.
      kthen (kmod (\<lambda>s.
        if bp + 8 * hsize s bp = hptr s p then
          set_hptr bp (hptr s (hptr s p)) (set_hsize bp (hsize s bp + hsize s (hptr s p)) s)
        else set_hptr bp (hptr s p) s))
      (kthen (kmod (\<lambda>s.
        if p + 8 * hsize s p = bp then
          set_hptr p (hptr s bp) (set_hsize p (hsize s p + hsize s bp) s)
        else set_hptr p bp s))
      (kmod (\<lambda>s. s\<lparr>freep := p\<rparr>)))))"

definition morecore :: "(uint \<Rightarrow> uint \<Rightarrow> bool) \<Rightarrow> uint \<Rightarrow> (ustate, uint option) kern" where
  "morecore avail nu =
     (let nu = (if nu < 4096 then 4096 else nu) in
      kbind (sbrk avail (nu * 8)) (\<lambda>p.
      if p = - 1 then kret None
      else
        kthen (kmod (set_hsize p nu))
        (kthen (ufree (p + 8))
        (kget (\<lambda>s. Some (freep s))))))"

text \<open>The loop of \<open>malloc\<close>.\<close>

definition malloc_take :: "uint \<Rightarrow> uint \<Rightarrow> uint \<Rightarrow> (ustate, uint) kern" where
  "malloc_take nunits prevp p =
     kbind (kget (\<lambda>s. hsize s p)) (\<lambda>sz.
     kbind (if sz = nunits then kthen (kmod (\<lambda>s. set_hptr prevp (hptr s p) s)) (kret p)
            else
              kthen (kmod (set_hsize p (sz - nunits)))
              (let q = p + 8 * (sz - nunits) in
               kthen (kmod (set_hsize q nunits)) (kret q))) (\<lambda>p.
     kthen (kmod (\<lambda>s. s\<lparr>freep := prevp\<rparr>))
     (kret (p + 8))))"

partial_function (option) malloc_loop :: "(uint \<Rightarrow> uint \<Rightarrow> bool) \<Rightarrow> uint \<Rightarrow> uint \<Rightarrow> uint \<Rightarrow> ustate \<Rightarrow>
    (stop + uint \<times> ustate) option" where
  "malloc_loop avail nunits prevp p s =
     (if hsize s p \<ge> nunits then Some (malloc_take nunits prevp p s)
      else if p = freep s then
        (case morecore avail nunits s of
           Inl e \<Rightarrow> Some (Inl e)
         | Inr (r, t) \<Rightarrow>
             (case r of
                None \<Rightarrow> Some (Inr (0, t))
              | Some q \<Rightarrow> malloc_loop avail nunits q (hptr t q) t))
      else malloc_loop avail nunits p (hptr s p) s)"

definition malloc :: "uint \<Rightarrow> (uint \<Rightarrow> uint \<Rightarrow> bool) \<Rightarrow> uint \<Rightarrow> (ustate, uint) kern" where
  "malloc base avail nbytes =
     (let nunits = (nbytes + 8 - 1) div 8 + 1 in
      kthen (\<lambda>s. if freep s = 0 then Inr ((), set_hsize base 0 (set_hptr base base s\<lparr>freep := base\<rparr>)) else Inr ((), s))
      (\<lambda>s. case malloc_loop avail nunits (freep s) (hptr s (freep s)) s of None \<Rightarrow> Inl Diverges | Some r \<Rightarrow> r))"

section \<open>Lemmas\<close>

subsection \<open>Addresses\<close>

text \<open>Addresses are below the address \<open>KERNBASE\<close> and words are compared like numbers.\<close>

definition wd :: "nat \<Rightarrow> uint" where "wd n = of_nat n"

lemma unat_wd [simp]: "n < 4294967296 \<Longrightarrow> unat (wd n) = n"
  by (simp add: wd_def unat_of_nat)

lemma wd_less: "a < 4294967296 \<Longrightarrow> b < 4294967296 \<Longrightarrow> wd a < wd b \<longleftrightarrow> a < b"
  by (simp add: word_less_nat_alt)

lemma wd_le: "a < 4294967296 \<Longrightarrow> b < 4294967296 \<Longrightarrow> wd a \<le> wd b \<longleftrightarrow> a \<le> b"
  by (simp add: word_le_nat_alt)

lemma wd_eq: "a < 4294967296 \<Longrightarrow> b < 4294967296 \<Longrightarrow> wd a = wd b \<longleftrightarrow> a = b"
  by (metis unat_wd)

lemma wd_add: "wd (a + b) = wd a + wd b"
  by (simp add: wd_def)

lemma wd_mult: "wd (8 * n) = 8 * wd n"
  by (simp add: wd_def)

lemma wd_num: "wd 4 = 4" "wd 8 = 8" "wd 0 = 0"
  by (simp_all add: wd_def)

lemma wd_unat [simp]: "wd (unat x) = x"
  by (simp add: wd_def)

lemma wd_diff: "b \<le> a \<Longrightarrow> wd (a - b) = wd a - wd b"
  by (simp add: wd_def of_nat_diff)

subsection \<open>The free list\<close>

text \<open>The free list as a list of addresses and sizes, starting with \<open>base\<close>.  \<open>links s ns e\<close>: the headers chain the nodes of
  \<open>ns\<close>, and the last one points to \<open>e\<close>; \<open>spread\<close>: the nodes are in address order, with a gap behind each block.\<close>

type_synonym blk = "nat \<times> nat"

fun first_addr :: "blk list \<Rightarrow> nat \<Rightarrow> nat" where
  "first_addr [] e = e"
| "first_addr (x # xs) e = fst x"

fun links :: "ustate \<Rightarrow> blk list \<Rightarrow> nat \<Rightarrow> bool" where
  "links s [] e = True"
| "links s (x # xs) e = (hptr s (wd (fst x)) = wd (first_addr xs e) \<and> hsize s (wd (fst x)) = wd (snd x) \<and> links s xs e)"

definition spread :: "blk list \<Rightarrow> bool" where
  "spread ns \<longleftrightarrow> sorted_wrt (\<lambda>x y. fst x + 8 * snd x < fst y) ns"

lemma first_addr_append: "first_addr (xs @ ys) e = first_addr xs (first_addr ys e)"
  by (cases xs) auto

lemma links_append: "links s (xs @ ys) e \<longleftrightarrow> links s xs (first_addr ys e) \<and> links s ys e"
  by (induction xs) (auto simp: first_addr_append)

lemma links_nth:
  "links s ns e \<Longrightarrow> i < length ns \<Longrightarrow>
    hptr s (wd (fst (ns ! i))) = wd (if Suc i < length ns then fst (ns ! Suc i) else e) \<and> hsize s (wd (fst (ns ! i))) = wd (snd (ns ! i))"
proof (induction ns arbitrary: i)
  case (Cons x ns)
  then show ?case by (cases i; cases ns) auto
qed simp

text \<open>Headers lie at multiples of eight, so that different headers do not overlap.\<close>

definition hdr :: "nat \<Rightarrow> bool" where
  "hdr a \<longleftrightarrow> 8 dvd a \<and> a < 2147483648"

lemma hdr_words:
  assumes "hdr a" "hdr b"
  shows "wd a = wd b \<longleftrightarrow> a = b" "wd a \<noteq> wd b + 4" "wd a + 4 = wd b + 4 \<longleftrightarrow> a = b"
proof -
  have lt: "a < 4294967296" "b < 4294967296" "a + 4 < 4294967296" "b + 4 < 4294967296" and dv: "8 dvd a" "8 dvd b"
    using assms by (auto simp: hdr_def)
  show "wd a = wd b \<longleftrightarrow> a = b" by (rule wd_eq [OF lt(1,2)])
  then show "wd a + 4 = wd b + 4 \<longleftrightarrow> a = b" by simp
  have "a \<noteq> b + 4" using dv by presburger
  then show "wd a \<noteq> wd b + 4" using wd_eq [OF lt(1,4)] by (simp add: wd_add wd_num)
qed

lemma set_hdr:
  assumes "hdr a" "hdr b"
  shows "hptr (set_hptr (wd a) v s) (wd b) = (if a = b then v else hptr s (wd b))"
    "hsize (set_hptr (wd a) v s) (wd b) = hsize s (wd b)"
    "hptr (set_hsize (wd a) v s) (wd b) = hptr s (wd b)"
    "hsize (set_hsize (wd a) v s) (wd b) = (if a = b then v else hsize s (wd b))"
  using hdr_words [OF assms] hdr_words [OF assms(2,1)]
  by (auto simp: hptr_def hsize_def set_hptr_def set_hsize_def)

lemma set_other [simp]:
  "freep (set_hptr a v s) = freep s" "ubrk (set_hptr a v s) = ubrk s"
  "freep (set_hsize a v s) = freep s" "ubrk (set_hsize a v s) = ubrk s"
  "hptr (s\<lparr>freep := q\<rparr>) = hptr s" "hsize (s\<lparr>freep := q\<rparr>) = hsize s"
  by (simp_all add: set_hptr_def set_hsize_def fun_eq_iff hptr_def hsize_def)

lemma links_cong:
  "(\<And>x. x \<in> set ns \<Longrightarrow> hptr t (wd (fst x)) = hptr s (wd (fst x)) \<and> hsize t (wd (fst x)) = hsize s (wd (fst x))) \<Longrightarrow>
    links t ns e = links s ns e"
  by (induction ns) auto

text \<open>Where block \<open>bp\<close> belongs: \<open>free\<close> stops at the last node in front of it.\<close>

lemma free_scan_finds:
  fixes as :: "nat list"
  assumes ptr: "\<And>i. i < length as \<Longrightarrow> ptr (wd (as ! i)) = wd (as ! (Suc i mod length as))"
    and srt: "sorted_wrt (<) as" and bnd: "\<And>i. i < length as \<Longrightarrow> as ! i < 4294967296"
    and bp: "b < 4294967296" "b \<notin> set as" "as ! 0 < b"
    and j: "j < length as" "as ! j < b" "\<And>i. i < length as \<Longrightarrow> j < i \<Longrightarrow> b < as ! i" and i: "i < length as"
  shows "free_scan ptr (wd b) (wd (as ! i)) = Some (wd (as ! j))"
  using i
proof (induction "if i \<le> j then j - i else length as - i + j" arbitrary: i rule: less_induct)
  case less
  have lt: "k < l \<Longrightarrow> l < length as \<Longrightarrow> as ! k < as ! l" for k l using sorted_wrt_nth_less [OF srt] by blast
  let ?n = "Suc i mod length as"
  have n: "?n < length as" using less(2) by (intro mod_less_divisor) linarith
  note w = wd_less [OF bnd bp(1)] wd_less [OF bp(1) bnd] wd_le [OF bnd bnd]
  show ?case
  proof (cases "i = j")
    case True
    have "wd (as ! i) < wd b" using True j w(1) by simp
    moreover have "wd b < wd (as ! ?n) \<or> wd (as ! ?n) \<le> wd (as ! i)"
    proof (cases "Suc i < length as")
      case True': True
      then have "b < as ! ?n" using j(3) [of "Suc i"] True by simp
      then show ?thesis using w(2) [OF n] by simp
    next
      case False
      then have "?n = 0" "0 < length as" using less(2) by (auto simp: not_less le_Suc_eq)
      then have "as ! ?n \<le> as ! i" using lt [of 0 i] less(2) by (cases "i = 0") auto
      then show ?thesis using w(3) [OF n less(2)] by simp
    qed
    ultimately show ?thesis
      using True ptr [OF less(2)] by (subst free_scan.simps) auto
  next
    case False
    have go: "\<not> (wd b > wd (as ! i) \<and> wd b < wd (as ! ?n))"
      "\<not> (wd (as ! i) \<ge> wd (as ! ?n) \<and> (wd b > wd (as ! i) \<or> wd b < wd (as ! ?n)))"
    proof -
      consider "i < j" | "j < i" "Suc i < length as" | "j < i" "Suc i = length as" using False less(2) by linarith
      then have "\<not> (b > as ! i \<and> b < as ! ?n) \<and> \<not> (as ! i \<ge> as ! ?n \<and> (b > as ! i \<or> b < as ! ?n))"
      proof cases
        case 1
        then have "?n = Suc i" "as ! ?n \<le> as ! j" "as ! i < as ! Suc i"
          using j(1) lt [of "Suc i" j] lt [of i "Suc i"] by (cases "Suc i = j"; auto)+
        then show ?thesis using j(2) by auto
      next
        case 2
        then show ?thesis using j(3) [of i] lt [of i "Suc i"] by auto
      next
        case 3
        then show ?thesis using j(3) [of i] bp(3) by auto
      qed
      then show "\<not> (wd b > wd (as ! i) \<and> wd b < wd (as ! ?n))"
        "\<not> (wd (as ! i) \<ge> wd (as ! ?n) \<and> (wd b > wd (as ! i) \<or> wd b < wd (as ! ?n)))"
        using w(1) [OF less(2)] w(2) [OF n] w(3) [OF n less(2)] by auto
    qed
    have "(if ?n \<le> j then j - ?n else length as - ?n + j) < (if i \<le> j then j - i else length as - i + j)"
    proof (cases "Suc i < length as")
      case True
      then show ?thesis using False less(2) by auto
    next
      case False'': False
      then have "?n = 0" using less(2) by (simp add: not_less le_Suc_eq)
      then show ?thesis using False j(1) less(2) False'' by auto
    qed
    from less(1) [OF this n] show ?thesis
      using go ptr [OF less(2)] by (subst free_scan.simps) auto
  qed
qed

subsection \<open>free\<close>

text \<open>The list after \<open>free\<close>: the block is put behind its predecessor, and adjacent blocks become one.\<close>

fun glue :: "blk \<Rightarrow> blk list \<Rightarrow> blk list" where
  "glue x [] = [x]"
| "glue x (y # ys) = (if fst x + 8 * snd x = fst y then (fst x, snd x + snd y) # ys else x # y # ys)"

lemma glue_fst: "first_addr (glue x ys) e = fst x"
  by (cases ys) auto

lemma glue_Cons: obtains y ys where "glue x xs = y # ys" "fst y = fst x"
proof (cases xs)
  case (Cons z zs)
  then show thesis using that by (cases "fst x + 8 * snd x = fst z") auto
qed (use that in auto)

lemma ufree_links:
  assumes l: "links s (xs @ p # ys) e" and b: "hsize s (wd (fst b)) = wd (snd b)" "hdr (fst b)" "fst b + 8 * snd b < 4294967296"
    and sc: "free_scan (hptr s) (wd (fst b)) (freep s) = Some (wd (fst p))"
    and h: "\<And>x. x \<in> set (xs @ p # ys) \<Longrightarrow> hdr (fst x) \<and> fst x + 8 * snd x < 4294967296 \<and> fst x \<noteq> fst b"
    and d: "distinct (map fst (xs @ p # ys))" and e: "hdr e" "e < fst b + 8 * snd b"
  shows "\<exists>t. ufree (wd (fst b) + 8) s = Inr ((), t) \<and> links t (xs @ glue p (glue b ys)) e \<and> freep t = wd (fst p) \<and>
    ubrk t = ubrk s \<and> (\<forall>c. hdr c \<longrightarrow> c \<noteq> fst p \<longrightarrow> c \<noteq> fst b \<longrightarrow> hsize t (wd c) = hsize s (wd c))"
proof -
  let ?b = "wd (fst b)" and ?p = "wd (fst p)" and ?q = "first_addr ys e"
  define u where "u = (if ?b + 8 * hsize s ?b = hptr s ?p then
      set_hptr ?b (hptr s (hptr s ?p)) (set_hsize ?b (hsize s ?b + hsize s (hptr s ?p)) s)
    else set_hptr ?b (hptr s ?p) s)"
  define t where "t = (if ?p + 8 * hsize u ?p = ?b then set_hptr ?p (hptr u ?b) (set_hsize ?p (hsize u ?p + hsize u ?b) u)
    else set_hptr ?p ?b u)"
  have run: "ufree (?b + 8) s = Inr ((), t\<lparr>freep := ?p\<rparr>)"
    using sc by (simp add: ufree_def kmonad_simps Let_def u_def [symmetric] t_def [symmetric])
  have hp: "hdr (fst p)" "fst p \<noteq> fst b" "fst p + 8 * snd p < 4294967296" using h by auto
  have hx: "hdr (fst x)" "fst x \<noteq> fst b" "fst x \<noteq> fst p" if "x \<in> set xs \<union> set ys" for x
  proof -
    have "fst p \<notin> fst ` (set xs \<union> set ys)" using d by auto
    then show "fst x \<noteq> fst p" using imageI [OF that, of fst] by metis
    show "hdr (fst x)" "fst x \<noteq> fst b" using that h [of x] by auto
  qed
  have lp: "hptr s ?p = wd ?q" "hsize s ?p = wd (snd p)" "links s ys e" "links s xs (fst p)"
    using l by (auto simp: links_append)
  have hq: "hdr ?q" using e(1) hx by (cases ys) auto
  have qlt: "?q < 4294967296" using hq by (simp add: hdr_def)
  have c1: "?b + 8 * hsize s ?b = hptr s ?p \<longleftrightarrow> fst b + 8 * snd b = ?q"
    using wd_eq [OF b(3) qlt] by (simp add: b(1) lp(1) wd_add wd_mult)
  have c2: "?p + 8 * wd (snd p) = ?b \<longleftrightarrow> fst p + 8 * snd p = fst b"
    using wd_eq [OF hp(3), of "fst b"] b(2) by (simp add: wd_add wd_mult hdr_def)
  have us: "hptr u (wd c) = hptr s (wd c) \<and> hsize u (wd c) = hsize s (wd c)" if "hdr c" "c \<noteq> fst b" for c
    using that b(2) by (auto simp: u_def set_hdr)
  have ub: "links u (glue b ys) e"
  proof (cases "\<exists>y ys'. ys = y # ys' \<and> fst b + 8 * snd b = fst y")
    case True
    then obtain y ys' where y: "ys = y # ys'" "fst b + 8 * snd b = fst y" by blast
    have ny: "hptr s (wd (fst y)) = wd (first_addr ys' e)" "hsize s (wd (fst y)) = wd (snd y)" "links s ys' e"
      using lp(3) by (simp_all add: y)
    have "links u ys' e = links s ys' e" by (rule links_cong) (use us hx in \<open>auto simp: y\<close>)
    then show ?thesis
      using y ny b(1,2) c1 lp(1) hx [of y] by (simp add: u_def set_hdr wd_add)
  next
    case False
    then have g: "glue b ys = b # ys" by (cases ys) auto
    have n: "fst b + 8 * snd b \<noteq> ?q" using False e(2) by (cases ys) auto
    have "links u ys e = links s ys e" by (rule links_cong) (use us hx in auto)
    then show ?thesis using n c1 lp b by (simp add: g) (simp add: u_def set_hdr)
  qed
  have up: "hptr u ?p = wd ?q" "hsize u ?p = wd (snd p)" using us [OF hp(1,2)] lp by auto
  have ts: "hptr t (wd c) = hptr u (wd c) \<and> hsize t (wd c) = hsize u (wd c)" if "hdr c" "c \<noteq> fst p" for c
    using that hp(1) by (auto simp: t_def set_hdr)
  obtain g gs where g: "glue b ys = g # gs" "fst g = fst b" by (rule glue_Cons)
  have gin: "set gs \<subseteq> set ys" using g by (cases ys) (auto split: if_splits)
  have ug: "hptr u ?b = wd (first_addr gs e)" "hsize u ?b = wd (snd g)" "links u gs e" using ub g by auto
  have tg: "links t gs e"
  proof -
    have "x \<in> set xs \<union> set ys" if "x \<in> set gs" for x using that gin by blast
    then have "links t gs e = links u gs e" using hx ts by (intro links_cong) blast
    then show ?thesis using ug(3) by simp
  qed
  have tx: "links t xs (fst p)"
    using lp(4) hx ts us by (subst links_cong [of xs t s]) (metis UnI1, blast)
  have "links t (glue p (glue b ys)) e"
  proof (cases "fst p + 8 * snd p = fst b")
    case True
    then show ?thesis using tg ug up c2 g hp(1) b(2) by (simp add: t_def set_hdr wd_add)
  next
    case False
    moreover have "links t (g # gs) e" using ug tg ts [OF b(2)] hp(2) g(2) by simp
    ultimately show ?thesis using up c2 g hp b(2) by (simp add: g(1)) (simp add: t_def set_hdr)
  qed
  then have "links t (xs @ glue p (glue b ys)) e" using tx by (simp add: links_append glue_fst)
  then have "links (t\<lparr>freep := ?p\<rparr>) (xs @ glue p (glue b ys)) e" by (subst links_cong [where s = t]) auto
  moreover have "ubrk t = ubrk s" by (simp add: t_def u_def)
  moreover have "hsize t (wd c) = hsize s (wd c)" if "hdr c" "c \<noteq> fst p" "c \<noteq> fst b" for c
    using ts [of c] us [of c] that by simp
  ultimately show ?thesis using run by auto
qed

subsection \<open>The invariant of the heap\<close>

text \<open>The bytes of a block.  \<open>heap_inv e lo s fl A\<close>: \<open>fl\<close> is the free list behind \<open>base\<close> (at address \<open>e\<close>), \<open>A\<close> the set of the
  allocated blocks; all blocks lie between \<open>lo\<close> and the program break, and no two of them overlap.\<close>

definition span :: "blk \<Rightarrow> nat set" where
  "span x = {fst x..<fst x + 8 * snd x}"

definition area :: "blk set \<Rightarrow> nat set" where
  "area B = (\<Union>x \<in> B. span x)"

definition heap_inv :: "nat \<Rightarrow> nat \<Rightarrow> ustate \<Rightarrow> blk list \<Rightarrow> blk set \<Rightarrow> bool" where
  "heap_inv e lo s fl A \<longleftrightarrow> links s ((e, 0) # fl) e \<and> freep s \<in> (\<lambda>x. wd (fst x)) ` set ((e, 0) # fl) \<and>
     0 < e \<and> 8 dvd e \<and> e + 8 \<le> lo \<and> spread ((e, 0) # fl) \<and> (\<forall>x \<in> set fl \<union> A. 0 < snd x \<and> 8 dvd fst x) \<and>
     area (set fl \<union> A) \<subseteq> {lo..<unat (ubrk s)} \<and> 8 dvd unat (ubrk s) \<and> lo \<le> unat (ubrk s) \<and>
     unat (ubrk s) < 2147483648 \<and>
     (\<forall>x \<in> A. span x \<inter> area (set fl) = {}) \<and> (\<forall>x \<in> A. \<forall>y \<in> A. x \<noteq> y \<longrightarrow> span x \<inter> span y = {}) \<and>
     (\<forall>x \<in> A. hsize s (wd (fst x)) = wd (snd x))"

lemma area_simps [simp]: "area {} = {}" "area (insert x B) = span x \<union> area B" "area (B \<union> C) = area B \<union> area C"
  by (auto simp: area_def)

lemma span_in_area: "x \<in> B \<Longrightarrow> span x \<subseteq> area B"
  by (auto simp: area_def)

lemma span_ends: "0 < snd x \<Longrightarrow> span x \<subseteq> {lo..<hi} \<Longrightarrow> lo \<le> fst x \<and> fst x + 8 * snd x \<le> hi"
  unfolding span_def by (simp add: ivl_subset)

lemma span_disjoint: "0 < snd x \<Longrightarrow> 0 < snd y \<Longrightarrow> span x \<inter> span y = {} \<Longrightarrow>
    fst x + 8 * snd x \<le> fst y \<or> fst y + 8 * snd y \<le> fst x"
proof (rule ccontr)
  assume a: "0 < snd x" "0 < snd y" "span x \<inter> span y = {}" "\<not> (fst x + 8 * snd x \<le> fst y \<or> fst y + 8 * snd y \<le> fst x)"
  then have "max (fst x) (fst y) \<in> span x \<inter> span y" by (auto simp: span_def)
  then show False using a(3) by blast
qed

lemma area_glue: "area (set (glue x ys)) = span x \<union> area (set ys)"
  by (cases ys) (auto simp: span_def)

lemma heap_block:
  assumes "heap_inv e lo s fl A" and "x \<in> set fl \<union> A"
  shows "lo \<le> fst x" "fst x + 8 * snd x \<le> unat (ubrk s)" "hdr (fst x)" "fst x + 8 * snd x < 4294967296" "0 < snd x" "e < fst x"
proof -
  have p: "0 < snd x" "8 dvd fst x" "area (set fl \<union> A) \<subseteq> {lo..<unat (ubrk s)}" "unat (ubrk s) < 2147483648" "e + 8 \<le> lo"
    using assms by (auto simp: heap_inv_def)
  have "span x \<subseteq> {lo..<unat (ubrk s)}" using span_in_area [OF assms(2)] p(3) by blast
  from span_ends [OF p(1) this] show "lo \<le> fst x" "fst x + 8 * snd x \<le> unat (ubrk s)" by auto
  then show "hdr (fst x)" "fst x + 8 * snd x < 4294967296" "0 < snd x" "e < fst x" using p by (auto simp: hdr_def)
qed

lemma spread_less:
  assumes "spread ns" "i < j" "j < length ns"
  shows "fst (ns ! i) + 8 * snd (ns ! i) < fst (ns ! j)"
  using sorted_wrt_nth_less [OF assms(1) [unfolded spread_def] assms(2,3)] .

lemma spread_sorted: "spread ns \<Longrightarrow> sorted_wrt (<) (map fst ns)"
  unfolding spread_def sorted_wrt_map by (rule sorted_wrt_mono_rel) auto

lemma spread_append: "spread (xs @ ys) \<longleftrightarrow> spread xs \<and> spread ys \<and> (\<forall>x \<in> set xs. \<forall>y \<in> set ys. fst x + 8 * snd x < fst y)"
  by (simp add: spread_def sorted_wrt_append)

lemma spread_Cons: "spread (x # xs) \<longleftrightarrow> (\<forall>y \<in> set xs. fst x + 8 * snd x < fst y) \<and> spread xs"
  by (simp add: spread_def)

text \<open>The place of a new block in the list.\<close>

lemma split_at:
  assumes s: "spread ((e, 0) # fl)" and b: "e < b" and nb: "\<And>x. x \<in> set fl \<Longrightarrow> fst x \<noteq> b"
  obtains xs p ys where "(e, 0) # fl = xs @ p # ys" "fst p < b" "\<And>y. y \<in> set ys \<Longrightarrow> b < fst y"
    "\<And>x. x \<in> set xs \<Longrightarrow> fst x < b"
proof -
  define us where "us = takeWhile (\<lambda>x. fst x < b) ((e, 0 :: nat) # fl)"
  define ys where "ys = dropWhile (\<lambda>x. fst x < b) ((e, 0 :: nat) # fl)"
  have u: "(e, 0) # fl = us @ ys" by (simp add: us_def ys_def)
  have "us \<noteq> []" using b by (simp add: us_def)
  then obtain xs p where us: "us = xs @ [p]" by (metis rev_exhaust)
  have lt: "fst x < b" if "x \<in> set us" for x using set_takeWhileD [OF that [unfolded us_def]] by simp
  have "b < fst y" if "y \<in> set ys" for y
  proof (cases ys)
    case (Cons z zs)
    then have z: "\<not> fst z < b" using hd_dropWhile [of "\<lambda>x. fst x < b" "(e, 0) # fl"] by (auto simp: ys_def)
    have "z \<in> set ((e, 0) # fl)" using u Cons by auto
    then have "fst z \<noteq> b" using nb [of z] b by auto
    then have "b < fst z" using z by simp
    moreover have "y = z \<or> fst z < fst y"
      using that s unfolding u Cons spread_append spread_Cons by fastforce
    ultimately show ?thesis by auto
  qed (use that in simp)
  then show thesis using that [of xs p ys] u us lt by auto
qed

lemma glue_spread:
  assumes "spread ys" and "\<And>y. y \<in> set ys \<Longrightarrow> fst x + 8 * snd x \<le> fst y"
  shows "spread (glue x ys)"
proof (cases ys)
  case (Cons y zs)
  then have z: "\<And>z. z \<in> set zs \<Longrightarrow> fst y + 8 * snd y < fst z" "spread zs" using assms(1) by (auto simp: spread_Cons)
  show ?thesis
  proof (cases "fst x + 8 * snd x = fst y")
    case True
    then show ?thesis using z Cons by (auto simp: spread_Cons algebra_simps) (metis add.assoc fst_conv)
  next
    case False
    have "fst x + 8 * snd x < fst y" using assms(2) [of y] False Cons by simp
    moreover have "fst x + 8 * snd x < fst z" if "z \<in> set zs" for z using z(1) [OF that] calculation by linarith
    ultimately show ?thesis using False Cons assms(1) by (simp add: spread_Cons)
  qed
qed (simp add: spread_def)

lemma glue_first: "y \<in> set (glue x ys) \<Longrightarrow> fst x = fst y \<and> snd x \<le> snd y \<or> y \<in> set ys"
  by (cases ys) (auto split: if_splits)

lemma glue_props:
  assumes "\<And>y. y \<in> set ys \<Longrightarrow> 0 < snd y \<and> 8 dvd fst y" and "8 dvd fst x" and "y \<in> set (glue x ys)" and "0 < snd x"
  shows "0 < snd y \<and> 8 dvd fst y"
  using glue_first [OF assms(3)] assms(1) [of y] assms(2,4) by auto

lemma glue_big: "\<exists>y \<in> set (glue x ys). snd x \<le> snd y"
  by (cases ys) auto

lemma glue_keeps: "y \<in> set ys \<Longrightarrow> \<exists>z \<in> set (glue x ys). snd y \<le> snd z"
  by (cases ys) (auto intro: bexI)

text \<open>The abstract effect of \<open>free\<close> on the list.\<close>

lemma put_block:
  assumes h: "heap_inv e lo s fl A" and b: "0 < snd b" "8 dvd fst b" "lo \<le> fst b" and d: "span b \<inter> area (set fl) = {}"
  obtains xs p ys fl' where "(e, 0) # fl = xs @ p # ys" "fst p < fst b" "\<forall>y \<in> set ys. fst b < fst y" "\<forall>x \<in> set xs. fst x < fst b"
    "(e, 0) # fl' = xs @ glue p (glue b ys)" "spread ((e, 0) # fl')" "area (set fl') = area (set fl) \<union> span b"
    "\<forall>x \<in> set fl'. 0 < snd x \<and> 8 dvd fst x" "\<exists>x \<in> set fl'. snd b \<le> snd x"
proof -
  have s: "spread ((e, 0) # fl)" and e: "e + 8 \<le> lo" and pos: "\<And>x. x \<in> set fl \<Longrightarrow> 0 < snd x \<and> 8 dvd fst x"
    using h by (auto simp: heap_inv_def)
  have dx: "fst x + 8 * snd x \<le> fst b \<or> fst b + 8 * snd b \<le> fst x" if "x \<in> set fl" for x
  proof (rule span_disjoint)
    show "span x \<inter> span b = {}" using d span_in_area [OF that] by blast
  qed (use pos [OF that] b(1) in auto)
  have ne: "fst x \<noteq> fst b" if "x \<in> set fl" for x using dx [OF that] pos [OF that] b(1) by auto
  obtain xs p ys where sp: "(e, 0) # fl = xs @ p # ys" "fst p < fst b" "\<And>y. y \<in> set ys \<Longrightarrow> fst b < fst y"
    "\<And>x. x \<in> set xs \<Longrightarrow> fst x < fst b"
    by (rule split_at [OF s, of "fst b"]) (use e b(3) ne in auto)
  have yf: "y \<in> set fl" if "y \<in> set ys" for y using arg_cong [OF sp(1), of tl] that by (cases xs) auto
  have yb: "fst b + 8 * snd b \<le> fst y" if "y \<in> set ys" for y using dx [OF yf [OF that]] sp(3) [OF that] by auto
  have pb: "fst p + 8 * snd p \<le> fst b"
  proof (cases xs)
    case Nil
    then show ?thesis using sp(1,2) by auto
  next
    case (Cons x zs)
    then have "p \<in> set fl" using sp(1) by auto
    from dx [OF this] show ?thesis using sp(2) by auto
  qed
  have spy: "spread ys" "\<And>x y. x \<in> set xs \<Longrightarrow> y \<in> set (p # ys) \<Longrightarrow> fst x + 8 * snd x < fst y" "spread xs"
    using s unfolding sp(1) spread_append spread_Cons by blast+
  have sb: "spread (glue b ys)" by (rule glue_spread [OF spy(1) yb])
  have bb: "fst b \<le> fst y" if "y \<in> set (glue b ys)" for y
    using glue_first [OF that] sp(3) [of y] by auto
  have gp: "spread (glue p (glue b ys))" by (rule glue_spread [OF sb]) (use bb pb in fastforce)
  have xg: "fst x + 8 * snd x < fst y" if "x \<in> set xs" "y \<in> set (glue p (glue b ys))" for x y
    using glue_first [OF that(2)] bb [of y] spy(2) [OF that(1), of p] sp(2) by auto
  have spn: "spread (xs @ glue p (glue b ys))" using spy(3) gp xg by (auto simp: spread_append)
  have ar: "area (set (glue p (glue b ys))) = span p \<union> (span b \<union> area (set ys))" by (simp add: area_glue)
  have posy: "\<And>y. y \<in> set (glue b ys) \<Longrightarrow> 0 < snd y \<and> 8 dvd fst y"
    using glue_props [of ys b] pos yf b by blast
  obtain y where y: "y \<in> set (glue b ys)" "snd b \<le> snd y" using glue_big by blast
  show thesis
  proof (cases xs)
    case Nil
    then have p: "p = (e, 0)" "ys = fl" using sp(1) by auto
    obtain g gs where g: "glue b ys = g # gs" "fst g = fst b" by (rule glue_Cons)
    have "glue p (glue b ys) = (e, 0) # glue b ys" using g sp(2) p by simp
    then have eq: "(e, 0) # glue b ys = xs @ glue p (glue b ys)" using Nil by simp
    show thesis
      by (rule that [OF sp(1,2) _ _ eq]) (use sp(3,4) spn [folded eq] p y posy area_glue [of b ys] in \<open>auto simp: Un_commute\<close>)
  next
    case (Cons x zs)
    then have x: "x = (e, 0)" "fl = zs @ p # ys" using sp(1) by auto
    have eq: "(e, 0) # zs @ glue p (glue b ys) = xs @ glue p (glue b ys)" using Cons x by simp
    have "p \<in> set fl" using x by simp
    then have pp: "\<And>z. z \<in> set (glue p (glue b ys)) \<Longrightarrow> 0 < snd z \<and> 8 dvd fst z"
      using glue_props [of "glue b ys" p] posy pos by blast
    obtain z where "z \<in> set (glue p (glue b ys))" "snd b \<le> snd z" using glue_keeps [OF y(1), of p] y(2) by auto
    moreover have "area (set (zs @ glue p (glue b ys))) = area (set fl) \<union> span b" using ar x by auto
    moreover have "0 < snd z \<and> 8 dvd fst z" if "z \<in> set (zs @ glue p (glue b ys))" for z
      using that pp [of z] pos [of z] x by auto
    ultimately show thesis
      by (intro that [OF sp(1,2) _ _ eq]) (use sp(3,4) spn [folded eq] in auto)
  qed
qed

lemma ufree_spec:
  assumes h: "heap_inv e lo s fl (insert b A)" and nb: "b \<notin> A"
  obtains t fl' where "ufree (wd (fst b) + 8) s = Inr ((), t)" "heap_inv e lo t fl' A"
    "area (set fl') = area (set fl) \<union> span b" "ubrk t = ubrk s" "\<exists>x \<in> set fl'. snd b \<le> snd x"
proof -
  note bk = heap_block [OF h, of b]
  have hA: "span b \<inter> area (set fl) = {}" "hsize s (wd (fst b)) = wd (snd b)" "8 dvd fst b"
    and l: "links s ((e, 0) # fl) e" and fp: "freep s \<in> (\<lambda>x. wd (fst x)) ` set ((e, 0) # fl)" and sd: "spread ((e, 0) # fl)"
    and e: "0 < e" "8 dvd e" "e + 8 \<le> lo"
    using h by (auto simp: heap_inv_def)
  have he: "hdr e" using e bk(1,2) h by (auto simp: hdr_def heap_inv_def)
  obtain xs p ys fl' where sp: "(e, 0) # fl = xs @ p # ys" "fst p < fst b" "\<forall>y \<in> set ys. fst b < fst y" "\<forall>x \<in> set xs. fst x < fst b"
    "(e, 0) # fl' = xs @ glue p (glue b ys)" "spread ((e, 0) # fl')" "area (set fl') = area (set fl) \<union> span b"
    "\<forall>x \<in> set fl'. 0 < snd x \<and> 8 dvd fst x" "\<exists>x \<in> set fl'. snd b \<le> snd x"
    by (rule put_block [OF h _ hA(3) _ hA(1)]) (use bk in auto)
  let ?ns = "xs @ p # ys" and ?as = "map fst (xs @ p # ys)"
  have node: "hdr (fst x) \<and> fst x + 8 * snd x < 4294967296 \<and> fst x \<noteq> fst b" if "x \<in> set ?ns" for x
  proof -
    have "x = (e, 0) \<or> x \<in> set fl" using that sp(1) [symmetric] by auto
    moreover have "fst x \<noteq> fst b" using that sp(2-4) by auto
    ultimately show ?thesis using he heap_block(3,4) [OF h, of x] by (auto simp: hdr_def)
  qed
  have srt: "sorted_wrt (<) ?as" using spread_sorted [OF sd] sp(1) by simp
  obtain x where x: "x \<in> set ?ns" "freep s = wd (fst x)" using fp sp(1) by (metis (no_types, lifting) imageE)
  then obtain i where i: "i < length ?ns" "freep s = wd (?as ! i)" by (metis in_set_conv_nth length_map nth_map)
  have l': "links s ?ns e" using l unfolding sp(1) .
  have ptr: "hptr s (wd (?as ! k)) = wd (?as ! (Suc k mod length ?as))" if "k < length ?as" for k
  proof -
    have k: "k < length ?ns" using that by simp
    have e0: "?as ! 0 = e" using arg_cong [OF sp(1), of "\<lambda>l. fst (l ! 0)"] by (cases xs) auto
    have "Suc k mod length ?as = (if Suc k < length ?ns then Suc k else 0)" using that mod_Suc [of k "length ?as"] by auto
    then show ?thesis using links_nth [OF l' k] k e0 by (auto simp del: map_append)
  qed
  have "free_scan (hptr s) (wd (fst b)) (wd (?as ! i)) = Some (wd (?as ! length xs))"
  proof (rule free_scan_finds [OF ptr srt])
    show "?as ! k < 4294967296" if "k < length ?as" for k
    proof -
      have k: "k < length ?ns" using that by simp
      show ?thesis using node [OF nth_mem [OF k]] nth_map [OF k, of fst] by (simp add: hdr_def)
    qed
    show "fst b < 4294967296" using bk(4) by simp
    show "fst b \<notin> set ?as" unfolding set_map using node by (metis (no_types, lifting) imageE)
    show "?as ! 0 < fst b" using sp(2,4) by (cases xs) auto
    show "fst b < ?as ! k" if "k < length ?as" "length xs < k" for k
    proof -
      have "?ns ! k \<in> set ys" using that by (auto simp: nth_append nth_Cons')
      then have "fst b < fst (?ns ! k)" using sp(3) by blast
      then show ?thesis using that nth_map [of k ?ns fst] by simp
    qed
  qed (use sp(2) i in \<open>auto simp: nth_append\<close>)
  then have sc: "free_scan (hptr s) (wd (fst b)) (freep s) = Some (wd (fst p))" using i(2) by (simp add: nth_append)
  have dist: "distinct ?as" using srt strict_sorted_iff by blast
  obtain t where t: "ufree (wd (fst b) + 8) s = Inr ((), t)" "links t (xs @ glue p (glue b ys)) e" "freep t = wd (fst p)"
    "ubrk t = ubrk s" "\<And>c. hdr c \<Longrightarrow> c \<noteq> fst p \<Longrightarrow> c \<noteq> fst b \<Longrightarrow> hsize t (wd c) = hsize s (wd c)"
    using ufree_links [OF l' hA(2) _ _ sc node dist he] bk by auto
  have "heap_inv e lo t fl' A"
    unfolding heap_inv_def
  proof (intro conjI)
    show "links t ((e, 0) # fl') e" using t(2) sp(5) by simp
    have "p \<in> set (glue p (glue b ys)) \<or> (\<exists>y \<in> set (glue p (glue b ys)). fst y = fst p)"
      using glue_Cons [of p "glue b ys"] by (metis list.set_intros(1))
    then have "\<exists>y \<in> set ((e, 0) # fl'). fst y = fst p" unfolding sp(5) by auto
    then show "freep t \<in> (\<lambda>x. wd (fst x)) ` set ((e, 0) # fl')" unfolding t(3) by (metis image_iff)
    show "area (set fl' \<union> A) \<subseteq> {lo..<unat (ubrk t)}" using h sp(7) t(4) by (simp add: heap_inv_def)
    show "\<forall>x \<in> A. hsize t (wd (fst x)) = wd (snd x)"
    proof
      fix x assume x: "x \<in> A"
      have sx: "span x \<inter> area (set fl) = {}" "span x \<inter> span b = {}" "hsize s (wd (fst x)) = wd (snd x)"
        using h x nb by (auto simp: heap_inv_def)
      note xb = heap_block [OF h, of x]
      have in_x: "fst x \<in> span x" using xb(5) x by (auto simp: span_def)
      have "fst x \<noteq> fst b" using in_x sx(2) bk(5) by (auto simp: span_def)
      moreover have "fst x \<noteq> fst p"
      proof (cases "p = (e, 0)")
        case False
        then have p: "p \<in> set fl" using sp(1) [symmetric] by (metis in_set_conv_decomp set_ConsD)
        then have "fst p \<in> area (set fl)" using heap_block(5) [OF h, of p] span_in_area [OF p] by (auto simp: span_def)
        then show ?thesis using in_x sx(1) by auto
      qed (use xb(6) x in auto)
      ultimately show "hsize t (wd (fst x)) = wd (snd x)" using t(5) sx(3) xb(3) x by auto
    qed
    show "\<forall>x \<in> A. span x \<inter> area (set fl') = {}" using h nb unfolding sp(7) by (auto simp: heap_inv_def)
  qed (use h e sp(6,8) t(4) in \<open>auto simp: heap_inv_def\<close>)
  then show thesis using t sp(7,9) by (intro that)
qed

subsection \<open>malloc\<close>

text \<open>The walk of \<open>malloc\<close> around the circle, from the node behind \<open>freep\<close>: it finds a block that is large enough
  if there is one, and ends at \<open>freep\<close> otherwise.\<close>

lemma malloc_search:
  fixes ns :: "blk list"
  defines "n \<equiv> length ns"
  assumes ptr: "\<And>k. k < n \<Longrightarrow> hptr s (wd (fst (ns ! k))) = wd (fst (ns ! (Suc k mod n)))"
    and size: "\<And>k. k < n \<Longrightarrow> hsize s (wd (fst (ns ! k))) = wd (snd (ns ! k)) \<and> snd (ns ! k) < 4294967296"
    and inj: "\<And>k. k < n \<Longrightarrow> wd (fst (ns ! k)) = freep s \<longleftrightarrow> k = f" and f: "f < n" and nu: "nu < 4294967296" and m: "m < n"
  shows "(\<exists>k < n. nu \<le> snd (ns ! (Suc k mod n)) \<and>
      malloc_loop avail (wd nu) (wd (fst (ns ! ((f + m) mod n)))) (wd (fst (ns ! ((f + Suc m) mod n)))) s =
        Some (malloc_take (wd nu) (wd (fst (ns ! k))) (wd (fst (ns ! (Suc k mod n)))) s)) \<or>
    (\<forall>j. m \<le> j \<and> j < n \<longrightarrow> snd (ns ! ((f + Suc j) mod n)) < nu) \<and>
      malloc_loop avail (wd nu) (wd (fst (ns ! ((f + m) mod n)))) (wd (fst (ns ! ((f + Suc m) mod n)))) s =
        (case morecore avail (wd nu) s of
           Inl e \<Rightarrow> Some (Inl e)
         | Inr (None, t) \<Rightarrow> Some (Inr (0, t))
         | Inr (Some q, t) \<Rightarrow> malloc_loop avail (wd nu) q (hptr t q) t)"
  using m
proof (induction "n - m" arbitrary: m rule: less_induct)
  case less
  let ?k = "(f + m) mod n" and ?p = "(f + Suc m) mod n"
  have n0: "0 < n" using less(2) by simp
  have k: "?k < n" "?p < n" "Suc ?k mod n = ?p" using n0 by (simp_all add: mod_Suc_eq)
  have big: "wd nu \<le> hsize s (wd (fst (ns ! ?p))) \<longleftrightarrow> nu \<le> snd (ns ! ?p)"
    using size [OF k(2)] wd_le [OF nu] by simp
  show ?case
  proof (cases "nu \<le> snd (ns ! ?p)")
    case True
    then have "malloc_loop avail (wd nu) (wd (fst (ns ! ?k))) (wd (fst (ns ! ?p))) s =
        Some (malloc_take (wd nu) (wd (fst (ns ! ?k))) (wd (fst (ns ! ?p))) s)"
      using big by (subst malloc_loop.simps) simp
    then show ?thesis using True k(1,3) by (intro disjI1 exI [of _ ?k]) simp
  next
    case False
    show ?thesis
    proof (cases "Suc m < n")
      case True
      have "?p \<noteq> f"
        using True f by (cases "f + Suc m < n") (simp_all add: le_mod_geq)
      then have step: "malloc_loop avail (wd nu) (wd (fst (ns ! ?k))) (wd (fst (ns ! ?p))) s =
          malloc_loop avail (wd nu) (wd (fst (ns ! ?p))) (wd (fst (ns ! ((f + Suc (Suc m)) mod n)))) s"
        using False big inj [OF k(2)] ptr [OF k(2)] by (subst malloc_loop.simps) (simp add: mod_Suc_eq)
      have all: "snd (ns ! ((f + Suc j) mod n)) < nu"
        if "\<forall>j. Suc m \<le> j \<and> j < n \<longrightarrow> snd (ns ! ((f + Suc j) mod n)) < nu" "m \<le> j \<and> j < n" for j
        using that False by (cases "j = m") auto
      have "n - Suc m < n - m" using less(2) by simp
      from less(1) [OF this True] show ?thesis unfolding step using all by blast
    next
      case last: False
      then have m: "m = n - 1" using less(2) by simp
      then have "?p = f" using f n0 by simp
      then have "malloc_loop avail (wd nu) (wd (fst (ns ! ?k))) (wd (fst (ns ! ?p))) s =
        (case morecore avail (wd nu) s of
           Inl e \<Rightarrow> Some (Inl e)
         | Inr (None, t) \<Rightarrow> Some (Inr (0, t))
         | Inr (Some q, t) \<Rightarrow> malloc_loop avail (wd nu) q (hptr t q) t)"
        using False big inj [OF k(2)] by (subst malloc_loop.simps) (auto split: sum.splits option.splits)
      moreover have "snd (ns ! ((f + Suc j) mod n)) < nu" if "m \<le> j \<and> j < n" for j
        using that m False by (cases "j = m") auto
      ultimately show ?thesis by blast
    qed
  qed
qed

text \<open>Taking \<open>nu\<close> units from the end of block \<open>p\<close>, or the whole block.\<close>

lemma take_links:
  assumes l: "links s (xs @ q # p # ys) e" and nu: "0 < nu" "nu \<le> snd p" "fst p + 8 * snd p < 2147483648"
    and h: "\<And>x. x \<in> set (xs @ q # p # ys) \<Longrightarrow> hdr (fst x)" and d: "distinct (map fst (xs @ q # p # ys))"
    and nin: "\<And>x. x \<in> set (xs @ q # ys) \<Longrightarrow> fst x < fst p \<or> fst p + 8 * snd p \<le> fst x"
  defines "a \<equiv> fst p + 8 * (snd p - nu)"
  obtains t where "malloc_take (wd nu) (wd (fst q)) (wd (fst p)) s = Inr (wd a + 8, t)"
    "links t (if snd p = nu then xs @ q # ys else xs @ q # (fst p, snd p - nu) # ys) e" "freep t = wd (fst q)" "ubrk t = ubrk s"
    "hsize t (wd a) = wd nu" "\<forall>c. hdr c \<and> (c < fst p \<or> fst p + 8 * snd p \<le> c) \<longrightarrow> hsize t (wd c) = hsize s (wd c)"
proof -
  have lp: "hptr s (wd (fst p)) = wd (first_addr ys e)" "hsize s (wd (fst p)) = wd (snd p)" "links s ys e"
    "hptr s (wd (fst q)) = wd (fst p)" "hsize s (wd (fst q)) = wd (snd q)" "links s xs (fst q)"
    using l by (auto simp: links_append)
  have hq: "hdr (fst q)" "hdr (fst p)" "fst q \<noteq> fst p" using h d by auto
  have sz: "wd (snd p) = wd nu \<longleftrightarrow> snd p = nu" using nu by (intro wd_eq) auto
  have ne: "hdr (fst x)" "fst x \<noteq> fst q" "fst x \<noteq> fst p" "fst x < fst p \<or> fst p + 8 * snd p \<le> fst x" if "x \<in> set xs \<union> set ys" for x
  proof -
    have "fst q \<notin> fst ` (set xs \<union> set ys)" "fst p \<notin> fst ` (set xs \<union> set ys)" using d by auto
    then show "fst x \<noteq> fst q" "fst x \<noteq> fst p" using imageI [OF that, of fst] by metis+
    show "hdr (fst x)" "fst x < fst p \<or> fst p + 8 * snd p \<le> fst x" using that h [of x] nin [of x] by auto
  qed
  show thesis
  proof (cases "snd p = nu")
    case True
    let ?t = "set_hptr (wd (fst q)) (wd (first_addr ys e)) s\<lparr>freep := wd (fst q)\<rparr>"
    have a: "a = fst p" by (simp add: a_def True)
    have keep: "hptr ?t (wd (fst x)) = hptr s (wd (fst x)) \<and> hsize ?t (wd (fst x)) = hsize s (wd (fst x))"
      if "x \<in> set xs \<union> set ys" for x
      using ne [OF that] hq(1) by (auto simp: set_hdr)
    have "links ?t xs (fst q)" "links ?t ys e"
      using lp(3,6) links_cong [of xs ?t s] links_cong [of ys ?t s] keep by blast+
    then have "links ?t (xs @ q # ys) e" using lp hq by (simp add: links_append set_hdr)
    moreover have "malloc_take (wd nu) (wd (fst q)) (wd (fst p)) s = Inr (wd a + 8, ?t)"
      using True lp(1,2) by (simp add: malloc_take_def kmonad_simps a)
    ultimately show thesis using True lp(2) hq a by (intro that [of ?t]) (auto simp: set_hdr)
  next
    case False
    let ?r = "snd p - nu"
    let ?u = "set_hsize (wd (fst p)) (wd ?r) s" and ?a = "wd a"
    let ?t = "set_hsize ?a (wd nu) ?u\<lparr>freep := wd (fst q)\<rparr>"
    have r: "0 < ?r" "a = fst p + 8 * ?r" using False nu by (auto simp: a_def)
    have ha: "hdr a" "a \<noteq> fst p" using hq(2) r nu by (auto simp: hdr_def)
    have wr: "wd (snd p) - wd nu = wd ?r" using nu by (simp add: wd_diff)
    have wa: "wd (fst p) + 8 * wd ?r = ?a" by (simp add: r(2) wd_add wd_mult)
    have run: "malloc_take (wd nu) (wd (fst q)) (wd (fst p)) s = Inr (?a + 8, ?t)"
      using sz False lp(2) by (simp add: malloc_take_def kmonad_simps Let_def wr wa)
    have na: "c \<noteq> a \<and> c \<noteq> fst p" if "c < fst p \<or> fst p + 8 * snd p \<le> c" for c using that r nu False by auto
    have qa: "fst q \<noteq> a" using na nin [of q] by auto
    have keep: "hptr ?t (wd (fst x)) = hptr s (wd (fst x)) \<and> hsize ?t (wd (fst x)) = hsize s (wd (fst x))"
      if "x \<in> set xs \<union> set ys" for x
      using ne(1) [OF that] na [OF ne(4) [OF that]] hq ha by (auto simp: set_hdr)
    have "links ?t xs (fst q)" "links ?t ys e"
      using lp(3,6) links_cong [of xs ?t s] links_cong [of ys ?t s] keep by blast+
    then have "links ?t (xs @ q # (fst p, ?r) # ys) e" using lp hq ha qa by (simp add: links_append set_hdr)
    then show thesis using run False ha hq na nu
      by (intro that [of ?t]) (auto simp: set_hdr)
  qed
qed

lemma malloc_take_spec:
  assumes h: "heap_inv e lo s fl A" and l: "(e, 0) # fl = xs @ q # p # ys" and nu: "0 < nu" "nu \<le> snd p"
  defines "a \<equiv> fst p + 8 * (snd p - nu)"
  obtains t fl' where "malloc_take (wd nu) (wd (fst q)) (wd (fst p)) s = Inr (wd a + 8, t)" "heap_inv e lo t fl' (insert (a, nu) A)"
    "(a, nu) \<notin> A" "ubrk t = ubrk s"
proof -
  have hi: "links s ((e, 0) # fl) e" "0 < e" "8 dvd e" "e + 8 \<le> lo" "spread ((e, 0) # fl)"
    "\<And>x. x \<in> set fl \<union> A \<Longrightarrow> 0 < snd x \<and> 8 dvd fst x" "area (set fl \<union> A) \<subseteq> {lo..<unat (ubrk s)}" "8 dvd unat (ubrk s)"
    "unat (ubrk s) < 2147483648" "\<And>x. x \<in> A \<Longrightarrow> span x \<inter> area (set fl) = {}"
    "\<And>x y. x \<in> A \<Longrightarrow> y \<in> A \<Longrightarrow> x \<noteq> y \<Longrightarrow> span x \<inter> span y = {}" "\<And>x. x \<in> A \<Longrightarrow> hsize s (wd (fst x)) = wd (snd x)"
    using h by (auto simp: heap_inv_def)
  have p: "p \<in> set fl" using l by (cases xs) auto
  note pb = heap_block [OF h, of p]
  have he: "hdr e" using hi(3,4,9) pb(1,2) p by (auto simp: hdr_def)
  have node: "x = (e, 0) \<or> x \<in> set fl" if "x \<in> set (xs @ q # p # ys)" for x using that l [symmetric] by auto
  have hn: "hdr (fst x)" if "x \<in> set (xs @ q # p # ys)" for x using node [OF that] he heap_block(3) [OF h, of x] by auto
  have sd: "spread (xs @ q # p # ys)" using hi(5) l by simp
  then have dist: "distinct (map fst (xs @ q # p # ys))" using spread_sorted strict_sorted_iff by blast
  have ord: "\<And>x. x \<in> set (xs @ [q]) \<Longrightarrow> fst x + 8 * snd x < fst p" "\<And>y. y \<in> set ys \<Longrightarrow> fst p + 8 * snd p < fst y"
    using sd unfolding spread_append spread_Cons by auto
  have nin: "fst x < fst p \<or> fst p + 8 * snd p \<le> fst x" if "x \<in> set (xs @ q # ys)" for x
    using that ord(1) [of x] ord(2) [of x] by auto
  have p31: "fst p + 8 * snd p < 2147483648" using pb(2) p hi(9) by simp
  have lks: "links s (xs @ q # p # ys) e" using hi(1) l by simp
  obtain t where t: "malloc_take (wd nu) (wd (fst q)) (wd (fst p)) s = Inr (wd a + 8, t)"
    "links t (if snd p = nu then xs @ q # ys else xs @ q # (fst p, snd p - nu) # ys) e" "freep t = wd (fst q)" "ubrk t = ubrk s"
    "hsize t (wd a) = wd nu" "\<forall>c. hdr c \<and> (c < fst p \<or> fst p + 8 * snd p \<le> c) \<longrightarrow> hsize t (wd c) = hsize s (wd c)"
    unfolding a_def by (rule take_links [OF lks nu p31 hn dist nin]) blast
  define gs where "gs = (if snd p = nu then ys else (fst p, snd p - nu) # ys)"
  define fl' where "fl' = tl (xs @ q # gs)"
  have fl': "(e, 0) # fl' = xs @ q # gs" using l by (cases xs) (auto simp: fl'_def)
  have sf: "spread (xs @ q # gs)"
    using sd unfolding spread_append spread_Cons gs_def by (auto simp: spread_Cons)
  have fsub: "x \<in> set fl \<or> x = (fst p, snd p - nu) \<and> snd p \<noteq> nu" if "x \<in> set fl'" for x
    using that l by (cases xs) (auto simp: fl'_def gs_def split: if_splits)
  have sp: "span p = span (fst p, snd p - nu) \<union> span (a, nu)" "span (fst p, snd p - nu) \<inter> span (a, nu) = {}"
    using nu by (auto simp: span_def a_def)
  have sub: "span x \<subseteq> area (set fl)" if "x \<in> set fl'" for x
    using fsub [OF that] span_in_area [of x "set fl"] span_in_area [OF p] sp(1) by auto
  have ain: "span (a, nu) \<subseteq> area (set fl)" using span_in_area [OF p] sp(1) by auto
  have dis: "span (a, nu) \<inter> span x = {}" if x: "x \<in> set fl'" for x
  proof -
    have "x = (fst p, snd p - nu) \<or> x \<in> set xs \<union> {q} \<union> set ys"
      using x fl' by (cases xs) (auto simp: fl'_def gs_def split: if_splits)
    moreover have "span p \<inter> span x = {}" if "x \<in> set xs \<union> {q} \<union> set ys"
      using ord(1) [of x] ord(2) [of x] that by (fastforce simp: span_def)
    ultimately show ?thesis using sp by auto
  qed
  have asub: "area (set fl') \<subseteq> area (set fl)" using sub unfolding area_def [of "set fl'"] by blast
  have adis: "span (a, nu) \<inter> area (set fl') = {}" using dis unfolding area_def by blast
  have an: "span (a, nu) \<noteq> {}" using nu by (auto simp: span_def)
  have nA: "span (a, nu) \<inter> span x = {}" if "x \<in> A" for x using hi(10) [OF that] ain by blast
  then have notin: "(a, nu) \<notin> A" using an by blast
  have "heap_inv e lo t fl' (insert (a, nu) A)"
    unfolding heap_inv_def
  proof (intro conjI ballI impI)
    show "links t ((e, 0) # fl') e" using t(2) by (simp only: fl') (auto simp: gs_def split: if_splits)
    show "freep t \<in> (\<lambda>x. wd (fst x)) ` set ((e, 0) # fl')" unfolding fl' t(3) by auto
    show "spread ((e, 0) # fl')" using sf fl' by simp
    show "0 < snd x" "8 dvd fst x" if "x \<in> set fl' \<union> insert (a, nu) A" for x
      using that fsub [of x] hi(6) [of x] hi(6) [of p] p nu by (auto simp: a_def)
    show "area (set fl' \<union> insert (a, nu) A) \<subseteq> {lo..<unat (ubrk t)}" 
      using asub ain hi(7) t(4) by auto
    show "span x \<inter> area (set fl') = {}" if "x \<in> insert (a, nu) A" for x
      using that adis hi(10) [of x] asub by blast
    show "span x \<inter> span y = {}" if "x \<in> insert (a, nu) A" "y \<in> insert (a, nu) A" "x \<noteq> y" for x y
      using that nA [of x] nA [of y] hi(11) [of x y] by auto
    show "hsize t (wd (fst x)) = wd (snd x)" if "x \<in> insert (a, nu) A" for x
    proof (cases "x = (a, nu)")
      case False
      then have x: "x \<in> A" using that by simp
      then have "span x \<inter> span p = {}" using hi(10) [OF x] span_in_area [OF p] by blast
      then have "fst x < fst p \<or> fst p + 8 * snd p \<le> fst x"
        using span_disjoint [of x p] hi(6) [of x] hi(6) [of p] x p by auto
      then show ?thesis using t(6) heap_block(3) [OF h, of x] x hi(12) by auto
    qed (use t(5) in simp)
  qed (use hi t(4) h in \<open>auto simp: heap_inv_def\<close>)
  then show thesis using t notin by (intro that)
qed

lemma sbrk_cases:
  assumes b: "unat (ubrk s) < 2147483648" "unat (ubrk s) \<noteq> 0" and n: "0 < n" "n < 2147483648"
  obtains (fails) "sbrk avail (wd n) s = Inr (- 1, s)"
  | (grows) t where "sbrk avail (wd n) s = Inr (ubrk s, t)" "unat (ubrk t) = unat (ubrk s) + n" "unat (ubrk t) < 2147483648"
    "freep t = freep s" "\<And>a. a < unat (ubrk s) \<Longrightarrow> umem t (wd a) = umem s (wd a)"
proof -
  let ?old = "ubrk s" and ?new = "ubrk s + wd n"
  have sn: "sint (wd n) = int n" using n(2) by (simp add: wd_def signed_of_nat signed_take_bit_int_eq_self)
  have un: "unat ?new = unat ?old + n" using b n by (simp add: unat_word_ariths)
  have old: "\<not> ?new < ?old" using un by (simp add: word_less_nat_alt)
  show thesis
  proof (cases "?new \<ge> KERNBASE \<or> \<not> avail ?old ?new")
    case True
    then have "sbrk avail (wd n) s = Inr (- 1, s)" using sn n old by (auto simp: sbrk_def Let_def)
    then show thesis by (rule fails)
  next
    case False
    let ?t = "s\<lparr>ubrk := ?new, umem := (\<lambda>a. if PGROUNDUP ?old \<le> a \<and> a < PGROUNDUP ?new then 0 else umem s a)\<rparr>"
    have "unat (PGROUNDUP ?old) = (unat ?old + 4095) div 4096 * 4096" using b by (intro unat_PGROUNDUP) simp
    moreover have "unat ?old \<le> (unat ?old + 4095) div 4096 * 4096"
      using div_mult_mod_eq [of "unat ?old + 4095" 4096] mod_less_divisor [of 4096 "unat ?old + 4095"] by linarith
    ultimately have up: "unat ?old \<le> unat (PGROUNDUP ?old)" by simp
    have "umem ?t (wd a) = umem s (wd a)" if "a < unat ?old" for a
      using that up b by (simp add: word_le_nat_alt)
    moreover have "sbrk avail (wd n) s = Inr (?old, ?t)" using False sn n old by (simp add: sbrk_def Let_def)
    moreover have "unat ?new < 2147483648" using False by (simp add: KERNBASE_def not_le word_less_nat_alt)
    ultimately show thesis using un by (intro grows [of ?t]) auto
  qed
qed

lemma heap_grow:
  assumes h: "heap_inv e lo s fl A" and t: "unat (ubrk t) = unat (ubrk s) + 8 * n" "unat (ubrk t) < 2147483648" "freep t = freep s"
    "\<And>a. a < unat (ubrk s) \<Longrightarrow> umem t (wd a) = umem s (wd a)" and n: "0 < n"
  defines "b \<equiv> (unat (ubrk s), n)"
  shows "heap_inv e lo (set_hsize (ubrk s) (wd n) t) fl (insert b A)" "b \<notin> A"
proof -
  let ?t = "set_hsize (ubrk s) (wd n) t" and ?brk = "unat (ubrk s)"
  have hi: "links s ((e, 0) # fl) e" "freep s \<in> (\<lambda>x. wd (fst x)) ` set ((e, 0) # fl)" "0 < e" "8 dvd e" "e + 8 \<le> lo"
    "spread ((e, 0) # fl)" "\<forall>x \<in> set fl \<union> A. 0 < snd x \<and> 8 dvd fst x" "area (set fl \<union> A) \<subseteq> {lo..<?brk}" "8 dvd ?brk"
    "lo \<le> ?brk" "?brk < 2147483648" "\<forall>x \<in> A. span x \<inter> area (set fl) = {}"
    "\<forall>x \<in> A. \<forall>y \<in> A. x \<noteq> y \<longrightarrow> span x \<inter> span y = {}" "\<forall>x \<in> A. hsize s (wd (fst x)) = wd (snd x)"
    using h by (auto simp: heap_inv_def)
  have hb: "hdr ?brk" using hi(9,11) by (simp add: hdr_def)
  have keep: "hptr ?t (wd a) = hptr s (wd a) \<and> hsize ?t (wd a) = hsize s (wd a)" if "hdr a" "a + 8 \<le> ?brk" for a
  proof -
    have "hptr ?t (wd a) = hptr t (wd a) \<and> hsize ?t (wd a) = hsize t (wd a)"
      using set_hdr(3,4) [OF hb that(1), of "wd n" t] that(2) by simp
    moreover have "umem t (wd a) = umem s (wd a)" "umem t (wd (a + 4)) = umem s (wd (a + 4))" using that by (auto intro!: t(4))
    ultimately show ?thesis by (simp add: hptr_def hsize_def wd_add wd_num)
  qed
  have node: "hptr ?t (wd (fst x)) = hptr s (wd (fst x)) \<and> hsize ?t (wd (fst x)) = hsize s (wd (fst x))" if "x \<in> insert (e, 0) (set fl \<union> A)" for x
  proof (cases "x = (e, 0)")
    case True
    then show ?thesis using hi(4,5,10,11) by (intro keep) (auto simp: hdr_def)
  next
    case False
    then have x: "x \<in> set fl \<union> A" using that by simp
    show ?thesis using heap_block(2,3,5) [OF h x] by (intro keep) auto
  qed
  have sb: "span b = {?brk..<unat (ubrk t)}" by (simp add: span_def b_def t(1))
  have dis: "span b \<inter> area (set fl \<union> A) = {}" using hi(8) unfolding sb by force
  have "span b \<noteq> {}" using n by (simp add: span_def b_def)
  then show nb: "b \<notin> A" using dis span_in_area [of b "set fl \<union> A"] by blast
  have "links ?t ((e, 0) # fl) e" using hi(1) links_cong [of "(e, 0) # fl" ?t s e] node by auto
  moreover have "hsize ?t (wd ?brk) = wd n" using set_hdr(4) [OF hb hb, of "wd n" t] by simp
  moreover have "area (set fl \<union> insert b A) \<subseteq> {lo..<unat (ubrk t)}" using hi(8,10) t(1) by (force simp: sb)
  moreover have "8 dvd unat (ubrk t)" using hi(9) t(1) by simp
  moreover have "span b \<inter> span x = {}" if "x \<in> A" for x using dis span_in_area [OF that] by auto
  ultimately show "heap_inv e lo ?t fl (insert b A)"
    unfolding heap_inv_def using hi t(1-3) node dis n by (auto simp: b_def)
qed

lemma morecore_spec:
  assumes h: "heap_inv e lo s fl A" and nu: "0 < nu" "nu < 268435456"
  obtains (fails) "morecore avail (wd nu) s = Inr (None, s)"
  | (grows) t fl' where "morecore avail (wd nu) s = Inr (Some (freep t), t)" "heap_inv e lo t fl' A"
    "\<exists>x \<in> set fl'. nu \<le> snd x" "unat (ubrk s) \<le> unat (ubrk t)"
proof -
  define n where "n = (if nu < 4096 then 4096 else nu)"
  have n: "nu \<le> n" "0 < n" "n < 268435456" using nu by (auto simp: n_def)
  have wn: "(if wd nu < 4096 then 4096 else wd nu) = wd n"
    using nu by (auto simp: n_def word_less_nat_alt) (simp add: wd_def)
  have b: "unat (ubrk s) < 2147483648" "unat (ubrk s) \<noteq> 0" using h by (auto simp: heap_inv_def)
  have w8: "wd n * 8 = wd (8 * n)" by (simp add: wd_mult)
  consider "sbrk avail (wd (8 * n)) s = Inr (- 1, s)"
    | t where "sbrk avail (wd (8 * n)) s = Inr (ubrk s, t)" "unat (ubrk t) = unat (ubrk s) + 8 * n" "unat (ubrk t) < 2147483648"
    "freep t = freep s" "\<And>a. a < unat (ubrk s) \<Longrightarrow> umem t (wd a) = umem s (wd a)"
    by (rule sbrk_cases [OF b, of "8 * n" avail]) (use n in auto)
  then show thesis
  proof cases
    case 1
    then have "morecore avail (wd nu) s = Inr (None, s)" by (simp add: morecore_def wn kmonad_simps w8 Let_def)
    then show thesis by (rule fails)
  next
    case (2 t)
    let ?b = "(unat (ubrk s), n)" and ?u = "set_hsize (ubrk s) (wd n) t"
    note g = heap_grow [OF h 2(2-5) n(2)]
    obtain v fl' where v: "ufree (wd (fst ?b) + 8) ?u = Inr ((), v)" "heap_inv e lo v fl' A" "ubrk v = ubrk ?u"
      "\<exists>x \<in> set fl'. snd ?b \<le> snd x" by (rule ufree_spec [OF g])
    have "unat (- 1 :: uint) = 4294967295" by (simp add: unsigned_minus_1_eq_mask mask_eq_exp_minus_1)
    then have "ubrk s \<noteq> - 1" using b by auto
    then have "morecore avail (wd nu) s = Inr (Some (freep v), v)"
      using 2(1) v(1) by (simp add: morecore_def wn kmonad_simps w8 Let_def)
    moreover have "\<exists>x \<in> set fl'. nu \<le> snd x" using v(4) n(1) by (metis le_trans snd_conv)
    ultimately show thesis using v 2(2) by (intro grows) auto
  qed
qed

lemma malloc_walk:
  assumes h: "heap_inv e lo s fl A" and nu: "0 < nu" "nu < 268435456"
  obtains (found) xs q p ys where "(e, 0) # fl = xs @ q # p # ys" "nu \<le> snd p"
    "malloc_loop avail (wd nu) (freep s) (hptr s (freep s)) s = Some (malloc_take (wd nu) (wd (fst q)) (wd (fst p)) s)"
  | (none) "\<forall>x \<in> set fl. snd x < nu"
    "malloc_loop avail (wd nu) (freep s) (hptr s (freep s)) s =
      (case morecore avail (wd nu) s of
         Inl e \<Rightarrow> Some (Inl e)
       | Inr (None, t) \<Rightarrow> Some (Inr (0, t))
       | Inr (Some q, t) \<Rightarrow> malloc_loop avail (wd nu) q (hptr t q) t)"
proof -
  define ns where "ns = (e, 0) # fl"
  define n where "n = length ns"
  have hi: "links s ns e" "freep s \<in> (\<lambda>x. wd (fst x)) ` set ns" "spread ns" "8 dvd e" "e + 8 \<le> lo" "lo \<le> unat (ubrk s)"
    "unat (ubrk s) < 2147483648" using h by (auto simp: heap_inv_def ns_def)
  have bnd: "fst x < 4294967296 \<and> snd x < 4294967296" if "x \<in> set ns" for x
    using that heap_block(4) [OF h, of x] hi(5-7) by (auto simp: ns_def)
  have mod: "Suc k mod n = (if Suc k < n then Suc k else 0)" if "k < n" for k using that mod_Suc [of k n] by auto
  have ptr: "hptr s (wd (fst (ns ! k))) = wd (fst (ns ! (Suc k mod n)))" if "k < n" for k
    using links_nth [OF hi(1), of k] that mod [OF that] by (auto simp: n_def ns_def)
  have size: "hsize s (wd (fst (ns ! k))) = wd (snd (ns ! k)) \<and> snd (ns ! k) < 4294967296" if "k < n" for k
    using links_nth [OF hi(1), of k] bnd [of "ns ! k"] that by (simp add: n_def)
  obtain f where f: "f < n" "freep s = wd (fst (ns ! f))" using hi(2) unfolding n_def by (metis (no_types, lifting) imageE in_set_conv_nth)
  have inj: "wd (fst (ns ! k)) = freep s \<longleftrightarrow> k = f" if "k < n" for k
  proof -
    have "distinct (map fst ns)" using spread_sorted [OF hi(3)] strict_sorted_iff by blast
    then have "fst (ns ! k) = fst (ns ! f) \<longleftrightarrow> k = f"
      using that f(1) nth_eq_iff_index_eq [of "map fst ns" k f] by (simp add: n_def)
    then show ?thesis
      using wd_eq [of "fst (ns ! k)" "fst (ns ! f)"] bnd [of "ns ! k"] bnd [of "ns ! f"] that f by (simp add: n_def)
  qed
  have n0: "0 < n" "(f + 0) mod n = f" "(f + Suc 0) mod n = Suc f mod n" using f by auto
  have start: "hptr s (freep s) = wd (fst (ns ! (Suc f mod n)))" using ptr [OF f(1)] f(2) by simp
  have nu32: "nu < 4294967296" using nu(2) by simp
  note sr = malloc_search [of ns s f nu 0 avail, folded n_def, OF ptr size inj f(1) nu32 n0(1)]
  show thesis
  proof (rule disjE [OF sr])
    assume "\<exists>k < n. nu \<le> snd (ns ! (Suc k mod n)) \<and>
      malloc_loop avail (wd nu) (wd (fst (ns ! ((f + 0) mod n)))) (wd (fst (ns ! ((f + Suc 0) mod n)))) s =
        Some (malloc_take (wd nu) (wd (fst (ns ! k))) (wd (fst (ns ! (Suc k mod n)))) s)"
    then obtain k where k: "k < n" "nu \<le> snd (ns ! (Suc k mod n))"
      "malloc_loop avail (wd nu) (freep s) (hptr s (freep s)) s =
        Some (malloc_take (wd nu) (wd (fst (ns ! k))) (wd (fst (ns ! (Suc k mod n)))) s)"
      unfolding n0(2,3) start [symmetric] f(2) [symmetric] by blast
    have S: "Suc k < n" using k(2) nu(1) mod [OF k(1)] by (cases "Suc k < n") (auto simp: ns_def)
    then have m: "Suc k mod n = Suc k" by simp
    have "ns = take k ns @ ns ! k # ns ! Suc k # drop (Suc (Suc k)) ns"
      using S by (simp add: n_def id_take_nth_drop Cons_nth_drop_Suc)
    then show thesis using found [of "take k ns" "ns ! k" "ns ! Suc k"] k(2,3) unfolding m ns_def by blast
  next
    assume a: "(\<forall>j. 0 \<le> j \<and> j < n \<longrightarrow> snd (ns ! ((f + Suc j) mod n)) < nu) \<and>
      malloc_loop avail (wd nu) (wd (fst (ns ! ((f + 0) mod n)))) (wd (fst (ns ! ((f + Suc 0) mod n)))) s =
        (case morecore avail (wd nu) s of
           Inl e \<Rightarrow> Some (Inl e)
         | Inr (None, t) \<Rightarrow> Some (Inr (0, t))
         | Inr (Some q, t) \<Rightarrow> malloc_loop avail (wd nu) q (hptr t q) t)"
    have "snd x < nu" if x: "x \<in> set fl" for x
    proof -
      have "x \<in> set ns" using x by (simp add: ns_def)
      then obtain i where i: "i < n" "x = ns ! i" by (metis in_set_conv_nth n_def)
      let ?j = "(i + (n - Suc f)) mod n"
      have "(f + Suc ?j) mod n = (Suc f + (i + (n - Suc f))) mod n"
        using mod_add_right_eq [of "Suc f" "i + (n - Suc f)" n] by simp
      also have "Suc f + (i + (n - Suc f)) = i + n" using f(1) by simp
      finally have "(f + Suc ?j) mod n = i" using i(1) by simp
      moreover have "?j < n" using n0 by simp
      ultimately show ?thesis using a i(2) by (metis le0)
    qed
    moreover have "malloc_loop avail (wd nu) (freep s) (hptr s (freep s)) s = (case morecore avail (wd nu) s of
           Inl e \<Rightarrow> Some (Inl e)
         | Inr (None, t) \<Rightarrow> Some (Inr (0, t))
         | Inr (Some q, t) \<Rightarrow> malloc_loop avail (wd nu) q (hptr t q) t)"
      using a unfolding n0(2,3) start [symmetric] f(2) [symmetric] by blast
    ultimately show thesis using none by blast
  qed
qed

text \<open>The result of \<open>malloc\<close> on a heap that has been set up: a new block, or null.\<close>

definition malloc_ok :: "nat \<Rightarrow> nat \<Rightarrow> blk set \<Rightarrow> nat \<Rightarrow> uint \<Rightarrow> ustate \<Rightarrow> bool" where
  "malloc_ok e lo A nu r t \<longleftrightarrow> r = 0 \<and> (\<exists>fl. heap_inv e lo t fl A) \<or>
     (\<exists>a fl. r = wd a + 8 \<and> (a, nu) \<notin> A \<and> heap_inv e lo t fl (insert (a, nu) A))"

lemma malloc_found:
  assumes h: "heap_inv e lo s fl A" and l: "(e, 0) # fl = xs @ q # p # ys" "nu \<le> snd p" and nu: "0 < nu"
  shows "\<exists>r t. malloc_take (wd nu) (wd (fst q)) (wd (fst p)) s = Inr (r, t) \<and> malloc_ok e lo A nu r t \<and> ubrk t = ubrk s"
  using malloc_take_spec [OF h l(1) nu l(2)] unfolding malloc_ok_def by metis

lemma malloc_loop_spec:
  assumes h: "heap_inv e lo s fl A" and nu: "0 < nu" "nu < 268435456"
  shows "\<exists>r t. malloc_loop avail (wd nu) (freep s) (hptr s (freep s)) s = Some (Inr (r, t)) \<and> malloc_ok e lo A nu r t \<and>
    unat (ubrk s) \<le> unat (ubrk t)"
  using h nu
proof (cases rule: malloc_walk [where avail = avail])
  case (found xs q p ys)
  then show ?thesis using malloc_found [OF h found(1,2) nu(1)] by auto
next
  case none
  show ?thesis
  proof (rule morecore_spec [OF h nu, of avail])
    assume "morecore avail (wd nu) s = Inr (None, s)"
    then show ?thesis using none(2) h by (auto simp: malloc_ok_def)
  next
    fix t fl' assume t: "morecore avail (wd nu) s = Inr (Some (freep t), t)" "heap_inv e lo t fl' A"
      "\<exists>x \<in> set fl'. nu \<le> snd x" "unat (ubrk s) \<le> unat (ubrk t)"
    have eq: "malloc_loop avail (wd nu) (freep s) (hptr s (freep s)) s = malloc_loop avail (wd nu) (freep t) (hptr t (freep t)) t"
      using none(2) t(1) by simp
    show ?thesis
    proof (rule malloc_walk [OF t(2) nu, of avail])
      fix xs q p ys assume "(e, 0) # fl' = xs @ q # p # ys" "nu \<le> snd p"
        "malloc_loop avail (wd nu) (freep t) (hptr t (freep t)) t = Some (malloc_take (wd nu) (wd (fst q)) (wd (fst p)) t)"
      then show ?thesis using malloc_found [OF t(2) _ _ nu(1)] t(4) unfolding eq by metis
    next
      assume "\<forall>x \<in> set fl'. snd x < nu"
      then show ?thesis using t(3) by fastforce
    qed
  qed
qed

text \<open>Before the first call, \<open>freep\<close> is null and nothing is allocated.\<close>

definition heap_start :: "nat \<Rightarrow> nat \<Rightarrow> ustate \<Rightarrow> bool" where
  "heap_start e lo s \<longleftrightarrow> freep s = 0 \<and> 0 < e \<and> 8 dvd e \<and> e + 8 \<le> lo \<and> lo = unat (ubrk s) \<and> 8 dvd lo \<and> lo < 2147483648"

lemma heap_start_inv:
  assumes "heap_start e lo s"
  shows "heap_inv e lo (set_hsize (wd e) 0 (set_hptr (wd e) (wd e) s\<lparr>freep := wd e\<rparr>)) [] {}"
proof -
  have "hdr e" using assms by (auto simp: heap_start_def hdr_def)
  then show ?thesis using assms by (auto simp: heap_inv_def heap_start_def spread_def set_hdr wd_num)
qed

lemma heap_freep:
  assumes "heap_inv e lo s fl A" shows "freep s \<noteq> 0"
proof -
  have "freep s \<in> (\<lambda>x. wd (fst x)) ` set ((e, 0) # fl)" using assms by (simp add: heap_inv_def)
  then obtain x where x: "x \<in> set ((e, 0) # fl)" "freep s = wd (fst x)" by blast
  have "0 < fst x \<and> fst x < 4294967296"
    using x(1) heap_block(4,6) [OF assms, of x] assms by (auto simp: heap_inv_def)
  then show ?thesis using x(2) wd_eq [of "fst x" 0] by (simp add: wd_num)
qed

lemma malloc_spec:
  assumes "heap_start e lo s \<and> A = {} \<or> heap_inv e lo s fl A" and n: "n < 2147479552"
  shows "\<exists>r t nu. malloc (wd e) avail (wd n) s = Inr (r, t) \<and> malloc_ok e lo A nu r t \<and> n + 8 \<le> 8 * nu \<and>
    unat (ubrk s) \<le> unat (ubrk t)"
proof -
  define nu where "nu = (n + 7) div 8 + 1"
  have nu: "0 < nu" "nu < 268435456" "n + 8 \<le> 8 * nu" using n by (auto simp: nu_def)
  have "(wd n + 8 - 1) div 8 + 1 = wd nu"
  proof -
    have "wd n + 8 - 1 = wd (n + 7)" by (simp add: wd_def)
    moreover have "unat (wd (n + 7) div 8) = (n + 7) div 8" using n by (simp add: unat_div_distrib)
    ultimately have "(wd n + 8 - 1) div 8 = wd ((n + 7) div 8)" by (metis wd_unat)
    then show ?thesis by (simp add: nu_def wd_def)
  qed
  note w = this
  from assms(1) show ?thesis
  proof
    assume a: "heap_start e lo s \<and> A = {}"
    let ?s = "set_hsize (wd e) 0 (set_hptr (wd e) (wd e) s\<lparr>freep := wd e\<rparr>)"
    have z: "freep s = 0" using a by (simp add: heap_start_def)
    have h: "heap_inv e lo ?s [] A" using a heap_start_inv by simp
    then show ?thesis using malloc_loop_spec [OF h nu(1,2), of avail] z nu(3) w
      by (auto simp: malloc_def kmonad_simps Let_def)
  next
    assume h: "heap_inv e lo s fl A"
    then show ?thesis using malloc_loop_spec [OF h nu(1,2), of avail] heap_freep [OF h] nu(3) w
      by (auto simp: malloc_def kmonad_simps Let_def)
  qed
qed

section \<open>Programs that use the allocator\<close>

text \<open>A program calls \<open>malloc\<close> and frees blocks it has got: the live blocks are its pointers with the sizes it asked for.\<close>

type_synonym prog = "ustate \<times> (uint \<times> nat) set"

inductive prog_step :: "uint \<Rightarrow> prog \<Rightarrow> prog \<Rightarrow> bool" for base :: uint where
  prog_malloc: "malloc base avail (of_nat n) s = Inr (r, t) \<Longrightarrow> n < 2147479552 \<Longrightarrow>
    prog_step base (s, L) (t, if r = 0 then L else insert (r, n) L)"
| prog_free: "(p, n) \<in> L \<Longrightarrow> ufree p s = Inr ((), t) \<Longrightarrow> prog_step base (s, L) (t, L - {(p, n)})"

inductive_cases prog_stepE: "prog_step base (s, L) y"

definition prog_init :: "nat \<Rightarrow> nat \<Rightarrow> prog \<Rightarrow> bool" where
  "prog_init e lo = (\<lambda>(s, L). heap_start e lo s \<and> L = {})"

text \<open>Every live pointer belongs to an allocated block that is large enough.\<close>

definition prog_inv :: "nat \<Rightarrow> nat \<Rightarrow> prog \<Rightarrow> bool" where
  "prog_inv e lo = (\<lambda>(s, L). \<exists>fl A. (heap_start e lo s \<and> A = {} \<or> heap_inv e lo s fl A) \<and>
     (\<forall>(p, n) \<in> L. \<exists>a nu. p = wd a + 8 \<and> (a, nu) \<in> A \<and> n + 8 \<le> 8 * nu) \<and>
     (\<forall>p n m. (p, n) \<in> L \<and> (p, m) \<in> L \<longrightarrow> n = m))"

lemma prog_invE:
  assumes "prog_inv e lo (s, L)"
  obtains fl A where "heap_start e lo s \<and> A = {} \<or> heap_inv e lo s fl A"
    "\<forall>p n. (p, n) \<in> L \<longrightarrow> (\<exists>a nu. p = wd a + 8 \<and> (a, nu) \<in> A \<and> n + 8 \<le> 8 * nu)"
    "\<forall>p n m. (p, n) \<in> L \<and> (p, m) \<in> L \<longrightarrow> n = m"
proof -
  obtain fl A where a: "heap_start e lo s \<and> A = {} \<or> heap_inv e lo s fl A"
    "\<forall>(p, n) \<in> L. \<exists>a nu. p = wd a + 8 \<and> (a, nu) \<in> A \<and> n + 8 \<le> 8 * nu" "\<forall>p n m. (p, n) \<in> L \<and> (p, m) \<in> L \<longrightarrow> n = m"
    using assms unfolding prog_inv_def prod.case by (elim exE conjE) (rule that)
  show thesis by (rule that [OF a(1) _ a(3)]) (use a(2) in blast)
qed

lemma prog_invI:
  assumes "heap_start e lo s \<and> A = {} \<or> heap_inv e lo s fl A"
    and "\<And>p n. (p, n) \<in> L \<Longrightarrow> \<exists>a nu. p = wd a + 8 \<and> (a, nu) \<in> A \<and> n + 8 \<le> 8 * nu"
    and "\<And>p n m. (p, n) \<in> L \<Longrightarrow> (p, m) \<in> L \<Longrightarrow> n = m"
  shows "prog_inv e lo (s, L)"
  unfolding prog_inv_def prod.case
  by (rule exI [of _ fl], rule exI [of _ A]) (use assms in \<open>auto split: prod.split\<close>)

lemma block_unique:
  assumes h: "heap_inv e lo s fl A" and x: "x \<in> A" "y \<in> A" and eq: "wd (fst x) + 8 = wd (fst y) + 8"
  shows "x = y"
proof (rule ccontr)
  assume "x \<noteq> y"
  then have d: "span x \<inter> span y = {}" using h x by (auto simp: heap_inv_def)
  have "wd (fst x) = wd (fst y)" using eq by simp
  then have "fst x = fst y" using wd_eq [of "fst x" "fst y"] heap_block(4) [OF h, of x] heap_block(4) [OF h, of y] x by auto
  then show False using d heap_block(5) [OF h, of x] heap_block(5) [OF h, of y] x by (auto simp: span_def)
qed

lemma prog_malloc_inv:
  assumes i: "prog_inv e lo (s, L)" and r: "malloc (wd e) avail (of_nat n) s = Inr (r, t)" and n: "n < 2147479552"
  shows "prog_inv e lo (t, if r = 0 then L else insert (r, n) L)"
proof -
  obtain fl A where h: "heap_start e lo s \<and> A = {} \<or> heap_inv e lo s fl A"
    and L: "\<forall>p n. (p, n) \<in> L \<longrightarrow> (\<exists>a nu. p = wd a + 8 \<and> (a, nu) \<in> A \<and> n + 8 \<le> 8 * nu)"
    and u: "\<forall>p n m. (p, n) \<in> L \<and> (p, m) \<in> L \<longrightarrow> n = m"
    by (rule prog_invE [OF i])
  obtain r' t' nu where m: "malloc (wd e) avail (wd n) s = Inr (r', t')" "malloc_ok e lo A nu r' t'" "n + 8 \<le> 8 * nu"
    using malloc_spec [OF h n, of avail] by (elim exE conjE) (rule that)
  have "r' = r \<and> t' = t" using m(1) r by (simp only: wd_def) simp
  then have nu: "malloc_ok e lo A nu r t" "n + 8 \<le> 8 * nu" using m by auto
  show ?thesis
  proof (cases "r = 0")
    case True
    then obtain fl' where fl': "heap_inv e lo t fl' A"
    proof -
      have "wd a + 8 \<noteq> 0" if "heap_inv e lo t fl' (insert (a, nu) A)" for a fl'
        using heap_block(3) [OF that, of "(a, nu)"] wd_eq [of "a + 8" 0] by (simp add: hdr_def wd_add wd_num)
      then show thesis using nu(1) True that unfolding malloc_ok_def by metis
    qed
    have "prog_inv e lo (t, L)" by (rule prog_invI [OF disjI2 [OF fl']]) (use L u in blast)+
    then show ?thesis using True by simp
  next
    case False
    then obtain a fl' where a: "r = wd a + 8" "(a, nu) \<notin> A" "heap_inv e lo t fl' (insert (a, nu) A)"
      using nu(1) by (auto simp: malloc_ok_def)
    have fresh: "(r, m) \<notin> L" for m
    proof
      assume "(r, m) \<in> L"
      then obtain b k where b: "r = wd b + 8" "(b, k) \<in> A" using L by blast
      from block_unique [OF a(3), of "(a, nu)" "(b, k)"] a b show False by simp
    qed
    have "prog_inv e lo (t, insert (r, n) L)"
      by (rule prog_invI [OF disjI2 [OF a(3)]]) (use a(1) nu(2) L u fresh in blast)+
    then show ?thesis using False by simp
  qed
qed

lemma prog_free_result:
  assumes i: "prog_inv e lo (s, L)" and p: "(p, n) \<in> L"
  shows "\<exists>t. ufree p s = Inr ((), t) \<and> prog_inv e lo (t, L - {(p, n)})"
proof -
  obtain fl A where h: "heap_start e lo s \<and> A = {} \<or> heap_inv e lo s fl A"
    and L: "\<forall>p n. (p, n) \<in> L \<longrightarrow> (\<exists>a nu. p = wd a + 8 \<and> (a, nu) \<in> A \<and> n + 8 \<le> 8 * nu)"
    and u: "\<forall>p n m. (p, n) \<in> L \<and> (p, m) \<in> L \<longrightarrow> n = m"
    by (rule prog_invE [OF i])
  obtain a nu where a: "p = wd a + 8" "(a, nu) \<in> A" using L p by blast
  then have h: "heap_inv e lo s fl A" using h by blast
  have h': "heap_inv e lo s fl (insert (a, nu) (A - {(a, nu)}))" using h a(2) by (simp add: insert_absorb)
  obtain t fl' where t: "ufree (wd (fst (a, nu)) + 8) s = Inr ((), t)" "heap_inv e lo t fl' (A - {(a, nu)})"
    by (rule ufree_spec [OF h']) auto
  have keep: "\<exists>b k. q = wd b + 8 \<and> (b, k) \<in> A - {(a, nu)} \<and> m + 8 \<le> 8 * k" if qm: "(q, m) \<in> L - {(p, n)}" for q m
  proof -
    obtain b k where b: "q = wd b + 8" "(b, k) \<in> A" "m + 8 \<le> 8 * k" using L qm by blast
    have "(b, k) \<noteq> (a, nu)" using u p qm b(1) a(1) by auto
    then show ?thesis using b by blast
  qed
  have "prog_inv e lo (t, L - {(p, n)})"
    by (rule prog_invI [OF disjI2 [OF t(2)] keep]) (use u in blast)+
  then show ?thesis using t(1) a(1) by auto
qed

interpretation prog: step_invariant "prog_init e lo" "prog_step (wd e)" "prog_inv e lo" for e lo
proof
  show "prog_inv e lo x" if "prog_init e lo x" for x
    using that by (auto simp: prog_init_def prog_inv_def)
  show "prog_inv e lo y" if st: "prog_step (wd e) x y" and i: "prog_inv e lo x" for x y
    using st
  proof cases
    case (prog_malloc avail n s r t L)
    then show ?thesis using prog_malloc_inv i by blast
  next
    case (prog_free p n L s t)
    then show ?thesis using prog_free_result i by fastforce
  qed
qed

lemma prog_inv_blocks:
  assumes i: "prog_inv e lo (s, L)" and p: "(p, n) \<in> L"
  obtains fl A a nu where "heap_inv e lo s fl A" "p = wd a + 8" "(a, nu) \<in> A" "n + 8 \<le> 8 * nu" "unat p = a + 8"
    "\<And>q m. (q, m) \<in> L \<Longrightarrow> \<exists>b k. q = wd b + 8 \<and> (b, k) \<in> A \<and> m + 8 \<le> 8 * k \<and> unat q = b + 8"
proof -
  obtain fl A where h: "heap_start e lo s \<and> A = {} \<or> heap_inv e lo s fl A"
    and L: "\<forall>p n. (p, n) \<in> L \<longrightarrow> (\<exists>a nu. p = wd a + 8 \<and> (a, nu) \<in> A \<and> n + 8 \<le> 8 * nu)"
    by (rule prog_invE [OF i])
  have hi: "heap_inv e lo s fl A" using h L p by blast
  have un: "unat (wd b + 8) = b + 8" if "(b, k) \<in> A" for b k
    using heap_block(3) [OF hi, of "(b, k)"] that unat_wd [of "b + 8"] by (simp add: hdr_def wd_add wd_num)
  have all: "\<exists>b k. q = wd b + 8 \<and> (b, k) \<in> A \<and> m + 8 \<le> 8 * k \<and> unat q = b + 8" if "(q, m) \<in> L" for q m
    using L that un by blast
  then show thesis using all [OF p] that hi by blast
qed



section \<open>Examples\<close>

definition um_ex :: ustate where
  "um_ex = \<lparr>umem = (\<lambda>_. 0), freep = 0, ubrk = 0x4000\<rparr>"

lemma um_ex_start: "heap_start 4096 16384 um_ex"
  by (simp add: heap_start_def um_ex_def)

lemma um_ex_malloc:
  obtains t where "malloc 0x1000 (\<lambda>_ _. True) 16 um_ex = Inr (0xBFF0, t)"
proof -
  let ?s = "set_hsize 0x1000 0 (set_hptr 0x1000 0x1000 um_ex\<lparr>freep := 0x1000\<rparr>)"
  have scan: "free_scan p 0x4000 0x1000 = Some 0x1000" if "p 0x1000 = 0x1000" for p
    using that by (subst free_scan.simps) simp
  have m: "\<exists>t. morecore (\<lambda>_ _. True) 3 ?s = Inr (Some 0x1000, t) \<and> hptr t 0x1000 = 0x4000 \<and> hsize t 0x4000 = 4096"
    by (simp add: morecore_def sbrk_def kmonad_simps Let_def ufree_def scan um_ex_def hptr_def hsize_def set_hptr_def set_hsize_def
        KERNBASE_def PGROUNDUP_def PGSIZE_def)
  then obtain t where t: "morecore (\<lambda>_ _. True) 3 ?s = Inr (Some 0x1000, t)" "hptr t 0x1000 = 0x4000" "hsize t 0x4000 = 4096" by blast
  have "malloc_loop (\<lambda>_ _. True) 3 0x1000 0x1000 ?s = malloc_loop (\<lambda>_ _. True) 3 0x1000 0x4000 t"
    using t by (subst malloc_loop.simps) (simp add: hsize_def set_hsize_def)
  also have "\<dots> = Some (malloc_take 3 0x1000 0x4000 t)" using t(3) by (subst malloc_loop.simps) simp
  finally have l: "malloc_loop (\<lambda>_ _. True) 3 0x1000 0x1000 ?s = Some (malloc_take 3 0x1000 0x4000 t)" .
  have "\<exists>u. malloc_take 3 0x1000 0x4000 t = Inr (0xBFF0, u)" using t(3) by (simp add: malloc_take_def kmonad_simps Let_def)
  then show thesis using that l
    by (auto simp: malloc_def kmonad_simps Let_def um_ex_def hptr_def set_hptr_def set_hsize_def)
qed



text \<open>The size computations overflow: a request of \<open>0xFFFFFFFF\<close> bytes is served like one of zero bytes, and for \<open>2\<close> GB the
  argument of \<open>sbrk\<close> is negative, the call returns without changing the break, and \<open>malloc\<close> returns memory that does not
  exist.\<close>

lemma malloc_wraps: "malloc base avail 0xFFFFFFFF = malloc base avail 0"
  by (simp add: malloc_def Let_def)

lemma malloc_unbacked: "\<exists>t. malloc 0x1000 avail 0x80000000 um_ex = Inr (0x4008, t) \<and> ubrk t = 0x4000"
proof -
  let ?s = "set_hsize 0x1000 0 (set_hptr 0x1000 0x1000 um_ex\<lparr>freep := 0x1000\<rparr>)" and ?n = "0x10000001 :: uint"
  have scan: "free_scan p 0x4000 0x1000 = Some 0x1000" if "p 0x1000 = 0x1000" for p
    using that by (subst free_scan.simps) simp
  have "\<exists>t. morecore avail ?n ?s = Inr (Some 0x1000, t) \<and> hptr t 0x1000 = 0x4000 \<and> hsize t 0x4000 = ?n \<and> ubrk t = 0x4000"
    by (simp add: morecore_def sbrk_def kmonad_simps Let_def ufree_def scan um_ex_def hptr_def hsize_def set_hptr_def set_hsize_def
        KERNBASE_def PGROUNDUP_def PGSIZE_def)
  then obtain t where t: "morecore avail ?n ?s = Inr (Some 0x1000, t)" "hptr t 0x1000 = 0x4000" "hsize t 0x4000 = ?n" "ubrk t = 0x4000"
    by blast
  have "malloc_loop avail ?n 0x1000 0x1000 ?s = malloc_loop avail ?n 0x1000 0x4000 t"
    using t by (subst malloc_loop.simps) (simp add: hsize_def set_hsize_def)
  also have "\<dots> = Some (malloc_take ?n 0x1000 0x4000 t)" using t(3) by (subst malloc_loop.simps) simp
  finally have l: "malloc_loop avail ?n 0x1000 0x1000 ?s = Some (malloc_take ?n 0x1000 0x4000 t)" .
  have "\<exists>u. malloc_take ?n 0x1000 0x4000 t = Inr (0x4008, u) \<and> ubrk u = 0x4000"
    using t(3,4) by (simp add: malloc_take_def kmonad_simps Let_def)
  then show ?thesis using l
    by (auto simp: malloc_def kmonad_simps Let_def um_ex_def hptr_def set_hptr_def set_hsize_def)
qed

end
