(* ===== verification/Spec2Isabelle.thy ===== *)
theory Spec2Isabelle
  imports Trap Grep Fsfile Umalloc
begin

text \<open>
  A verification library for the operating system kernel of this repository: xv6 for the x86, written in C, with a
  priority scheduler, the system calls \<open>ps\<close>, \<open>nice\<close>, \<open>flock\<close> and \<open>funlock\<close> and four small character devices
  added, and with the user programs that run on it.

  \<^bold>\<open>How the code is modelled.\<close>  A C function is a computation \<open>('s, 'a) kern\<close> (theory Prelude): from a state it returns a
  value and a new state, or it stops.  The reason of a stop is a value: \<open>Panic\<close> with the message of the \<open>panic\<close> call,
  \<open>Sleeps\<close> where the process has to wait for another one, \<open>Diverges\<close> for a loop that does not end, \<open>Undef\<close>
  for something C does not define.  \<open>uint\<close>, \<open>ushort\<close> and \<open>uchar\<close> are words of 32, 16 and 8 bits, so that arithmetic wraps
  as on the machine; block numbers, table indices and counters that the code keeps small are natural numbers or integers.
  The global variables of the kernel are one record that grows from theory to theory: \<open>kmem\<close> (page allocator and physical
  memory), \<open>ktab\<close> (process table), \<open>bio\<close> (buffer cache and disk), \<open>fslog\<close> (log), \<open>fs\<close> (inode cache), \<open>fsys\<close>
  (file table and pipes), \<open>con\<close> (console), \<open>kst\<close>.  Every operation is polymorphic in the part of the state it does not know, which
  is the frame rule of the development; \<open>leaves f m\<close> says the same about a component of the state.
  Pointers into the static tables are indices, null is \<open>None\<close> where the code tests for it, and pointers into memory are
  words.  Concurrency is explicit: where the code is preempted or sleeps, the pieces between are the steps of an inductive
  relation, and invariants are proved for all reachable states (locale \<open>step_invariant\<close>).

  \<^bold>\<open>The theories and the code they model.\<close>
  \<^item> Prelude: the kernel monad, total triples \<open>runs\<close>, frames, transition systems.
  \<^item> CString: \<open>string.c\<close>, the string instructions of \<open>x86.h\<close>, the string part of \<open>ulib.c\<close>.  \<open>memmove\<close> on
    overlapping regions, \<open>memset\<close> against its byte loop, \<open>safestrcpy\<close>.
  \<^item> Spinlock: \<open>spinlock.c\<close>, \<open>mycpu\<close>.  Mutual exclusion under every interleaving, nesting of \<open>pushcli\<close>.
  \<^item> Kalloc: \<open>kalloc.c\<close>.  The free list is threaded through the pages; start-up and the round trip of \<open>kalloc\<close> and \<open>kfree\<close>.
  \<^item> Vm: \<open>vm.c\<close>, \<open>mmu.h\<close>.  Page tables in the memory of the allocator.
  \<^item> Ptable: \<open>proc.c\<close> (process table and scheduler).  Unique pids, zombies with live parents, no lost exits, starvation.
  \<^item> Sleeplock, Bio, Layout, Log: \<open>sleeplock.c\<close>, \<open>bio.c\<close>, \<open>memide.c\<close>, \<open>log.c\<close>.  Coherence of the buffer cache,
    atomicity of a commit under a crash after any prefix of its disk writes, idempotence of recovery, the reservation of log space.
  \<^item> Ring, Pipe: wrapping ring buffers and \<open>pipe.c\<close>.  Refinement of a bounded queue, no lost wake-ups.
  \<^item> Fs, File, Usermem, Sysfile: \<open>fs.c\<close>, \<open>file.c\<close>, user memory behind the page table, \<open>sysfile.c\<close> and the argument
    fetching of \<open>syscall.c\<close>.
  \<^item> Fsdata, Fsfile: the contents of files.  What the block allocator and \<open>bmap\<close> do to the disk; \<open>readi\<close> returns the
    bytes of a file, \<open>writei\<close> puts bytes into it and leaves other files alone, and reading gives back what was written.
  \<^item> Printf: \<open>printf.c\<close> and \<open>ticks.c\<close>.  Conversions against a reference text.
  \<^item> Kbd, Console, Devices: \<open>kbd.c\<close>, \<open>console.c\<close>, \<open>uart.c\<close>, \<open>zero.c\<close>, \<open>null.c\<close>, \<open>dhello.c\<close>.  The line editor refines a
    specification on two lists.
  \<^item> Exec, Trap: \<open>exec.c\<close>, the rest of \<open>proc.c\<close>, \<open>sysproc.c\<close>, \<open>syscall.c\<close>, \<open>trap.c\<close>.  A process that leaves the CPU is a
    resumption (\<open>ctl\<close>); a killed process does not return to user mode.
  \<^item> Grep: \<open>grep.c\<close> against the meaning of a pattern.
  \<^item> Umalloc: \<open>umalloc.c\<close>, with the circular free list in memory.  Live blocks do not overlap, and all calls return.
  \<^bold>\<open>Bounds.\<close>  No fuel is used: loops are recursive functions with a termination proof, or \<open>partial_function\<close>s whose value
  \<open>None\<close> is a loop that does not return.  The walks of the buffer cache's list and of \<open>deallocuvm\<close> return \<open>Diverges\<close> when they
  do not end.

  \<^bold>\<open>Not modelled.\<close>  Assembly (\<open>bootasm.S\<close>, \<open>entry.S\<close>, \<open>entryother.S\<close>, \<open>swtch.S\<close>, \<open>trapasm.S\<close>, \<open>vectors.S\<close>,
  \<open>initcode.S\<close>, \<open>usys.S\<close>); \<open>swtch\<close> is the end of an operation.  Device programming: \<open>lapic.c\<close>, \<open>ioapic.c\<close>, \<open>picirq.c\<close>, \<open>mp.c\<close>, \<open>seginit\<close>,
  \<open>tvinit\<close>, \<open>uartinit\<close>, \<open>bootmain.c\<close> and \<open>main.c\<close>, whose effect is on registers outside the program's memory.  The test
  programs (\<open>usertests.c\<close>, \<open>forktest.c\<close>, \<open>stressfs.c\<close> and the \<open>test*\<close> programs), which only call the kernel and
  print.  Panic output: a stop carries no state.
\<close>

end
